(* ===== verification/Pwned_Prelude.thy ===== *)
theory Pwned_Prelude
  imports Main "HOL-Library.Word"
begin

text \<open>
  What every component of the development shares: the machine integer types of the sources,
  the little-endian byte image of a machine word (the program reads and writes integers by
  casting their address to \<^verbatim>\<open>char *\<close>), the conversions between \<^verbatim>\<open>int64_t\<close> and
  \<^verbatim>\<open>uint64_t\<close>, and the generic lemmas on lists the component proofs use.

  The host is little-endian (x86 or ARM, as the code's tests in
  \<^verbatim>\<open>pwned-lib/test/test_hash.cpp\<close> require).
\<close>

unbundle bit_operations_syntax

type_synonym u8 = "8 word"
type_synonym u16 = "16 word"
type_synonym u32 = "32 word"
type_synonym u64 = "64 word"

named_theorems bytes_simps "byte images of machine words"
named_theorems stream_simps "evaluation of stream operations"

section \<open>Little-endian byte images\<close>

primrec le_bytes :: "nat \<Rightarrow> 'a::len word \<Rightarrow> u8 list" where
  "le_bytes 0 w = []"
| "le_bytes (Suc n) w = ucast w # le_bytes n (drop_bit 8 w)"

primrec le_word :: "u8 list \<Rightarrow> 'a::len word" where
  "le_word [] = 0"
| "le_word (b # bs) = ucast b OR push_bit 8 (le_word bs)"

lemma length_le_bytes [simp]: "length (le_bytes n w) = n"
  by (induction n arbitrary: w) auto

lemma bit_le_word:
  "bit (le_word bs :: 'a::len word) n \<longleftrightarrow>
     n < LENGTH('a) \<and> n div 8 < length bs \<and> bit (bs ! (n div 8)) (n mod 8)"
proof (induction bs arbitrary: n)
  case Nil
  then show ?case by simp
next
  case (Cons b bs)
  show ?case
  proof (cases "n < 8")
    case True
    then show ?thesis
      by (auto simp: bit_or_iff bit_push_bit_iff bit_ucast_iff)
  next
    case False
    then obtain m where m: "n = m + 8" by (metis add.commute le_Suc_ex not_less)
    moreover have "(m + 8) div 8 = Suc (m div 8)" and "(m + 8) mod 8 = m mod 8"
      by (simp_all add: div_add1_eq)
    ultimately show ?thesis using Cons.IH [of m]
      by (auto simp: bit_or_iff bit_push_bit_iff bit_ucast_iff dest: bit_imp_le_length)
  qed
qed

lemma nth_le_bytes: "i < n \<Longrightarrow> le_bytes n w ! i = ucast (drop_bit (8 * i) w)"
proof (induction n arbitrary: w i)
  case 0
  then show ?case by simp
next
  case (Suc n)
  then show ?case
    by (cases i) (simp_all add: drop_bit_drop_bit add.commute)
qed

lemma le_word_le_bytes [simp, bytes_simps]:
  assumes "LENGTH('a) \<le> 8 * n"
  shows "le_word (le_bytes n w) = (w :: 'a::len word)"
proof (rule bit_word_eqI)
  fix i
  assume i: "i < LENGTH('a)"
  with assms have "i div 8 < n" by auto
  then show "bit (le_word (le_bytes n w) :: 'a word) i \<longleftrightarrow> bit w i"
    using i by (simp add: bit_le_word nth_le_bytes bit_ucast_iff bit_drop_bit_eq)
qed

lemma le_bytes_le_word [simp, bytes_simps]:
  assumes "length bs = n" and "8 * n \<le> LENGTH('a)"
  shows "le_bytes n (le_word bs :: 'a::len word) = bs"
proof (rule nth_equalityI)
  show "length (le_bytes n (le_word bs :: 'a word)) = length bs"
    using assms by simp
next
  fix i
  assume "i < length (le_bytes n (le_word bs :: 'a word))"
  then have i: "i < n" by simp
  show "le_bytes n (le_word bs :: 'a word) ! i = bs ! i"
  proof (rule bit_word_eqI)
    fix j
    assume j: "j < LENGTH(8)"
    then have "8 * i + j < LENGTH('a)" using i assms(2) by simp
    moreover have "(8 * i + j) div 8 = i" and "(8 * i + j) mod 8 = j"
      using j by simp_all
    ultimately show "bit (le_bytes n (le_word bs :: 'a word) ! i) j \<longleftrightarrow> bit (bs ! i) j"
      using i j assms(1)
      by (simp add: nth_le_bytes bit_ucast_iff bit_drop_bit_eq bit_le_word)
  qed
qed

lemma le_bytes_inj:
  assumes "LENGTH('a) \<le> 8 * n" and "le_bytes n v = le_bytes n (w :: 'a::len word)"
  shows "v = w"
proof -
  have "(le_word (le_bytes n v) :: 'a word) = le_word (le_bytes n w)"
    using assms(2) by simp
  then show ?thesis using assms(1) by simp
qed

text \<open>
  \<^verbatim>\<open>is.read((char *)&x, n)\<close> overwrites a prefix of the object's bytes with what the stream
  delivered, which may be less than asked for.
\<close>

definition overwrite :: "'b list \<Rightarrow> 'b list \<Rightarrow> 'b list" where
  "overwrite old new = new @ drop (length new) old"

lemma overwrite_Nil [simp]: "overwrite old [] = old"
  by (simp add: overwrite_def)

lemma overwrite_full [simp]: "length old \<le> length new \<Longrightarrow> overwrite old new = new"
  by (simp add: overwrite_def)

lemma length_overwrite [simp]:
  "length new \<le> length old \<Longrightarrow> length (overwrite old new) = length old"
  by (simp add: overwrite_def)

section \<open>Byte order\<close>

text \<open>\<^verbatim>\<open>ntohll\<close> on a little-endian host: the bytes of a 64-bit word reversed.\<close>

definition ntohll :: "u64 \<Rightarrow> u64" where
  "ntohll x = le_word (rev (le_bytes 8 x))"

lemma ntohll_ntohll [simp]: "ntohll (ntohll x) = x"
  by (simp add: ntohll_def)

section \<open>Signed and unsigned 64-bit values\<close>

text \<open>\<^verbatim>\<open>uint64_t(x)\<close> for an \<^verbatim>\<open>int64_t x\<close>, and back.\<close>

definition to_u64 :: "int \<Rightarrow> int" where
  "to_u64 x = x mod 2 ^ 64"

definition to_s64 :: "int \<Rightarrow> int" where
  "to_s64 x = (let y = x mod 2 ^ 64 in if y < 2 ^ 63 then y else y - 2 ^ 64)"

lemma to_u64_id [simp]: "0 \<le> x \<Longrightarrow> x < 2 ^ 64 \<Longrightarrow> to_u64 x = x"
  by (simp add: to_u64_def)

lemma to_s64_id [simp]:
  assumes "- (2 ^ 63) \<le> x" and "x < 2 ^ 63"
  shows "to_s64 x = x"
proof (cases "0 \<le> x")
  case True
  with assms show ?thesis by (simp add: to_s64_def)
next
  case False
  have "x mod 2 ^ 64 = (x + 2 ^ 64) mod 2 ^ 64" by simp
  also have "\<dots> = x + 2 ^ 64"
    using False assms by (intro mod_pos_pos_trivial) auto
  finally show ?thesis using False assms by (simp add: to_s64_def Let_def)
qed

section \<open>Lists\<close>

lemma concat_map_const_length:
  "(\<And>x. x \<in> set xs \<Longrightarrow> length (f x) = k) \<Longrightarrow> length (concat (map f xs)) = k * length xs"
  by (induction xs) auto

lemma drop_concat_map_const:
  assumes "\<And>x. length (f x) = k"
  shows "drop (k * i) (concat (map f xs)) = concat (map f (drop i xs))"
proof (induction i arbitrary: xs)
  case 0
  then show ?case by simp
next
  case (Suc i)
  show ?case
  proof (cases xs)
    case Nil
    then show ?thesis by simp
  next
    case (Cons x xs')
    have "drop (k * Suc i) (concat (map f xs)) = drop (k * i) (drop k (f x @ concat (map f xs')))"
      using Cons by (simp only: list.map concat.simps drop_drop mult_Suc_right add.commute)
    also have "drop k (f x @ concat (map f xs')) = concat (map f xs')"
      using assms [of x] by simp
    finally show ?thesis using Suc.IH [of xs'] Cons by simp
  qed
qed

lemma take_concat_map_nth:
  assumes "\<And>x. length (f x) = k" and "i < length xs"
  shows "take k (drop (k * i) (concat (map f xs))) = f (xs ! i)"
proof -
  have "drop (k * i) (concat (map f xs)) = f (xs ! i) @ concat (map f (drop (Suc i) xs))"
    using assms by (simp add: drop_concat_map_const Cons_nth_drop_Suc [symmetric])
  then show ?thesis using assms(1) by simp
qed

end
