(* ===== verification/Util.thy ===== *)
theory Util
  imports Pwned_Prelude
begin

text \<open>
  \<^verbatim>\<open>pwned-lib/util.cpp\<close>: hexadecimal decoding, the population count, and the integer
  formatting of \<^verbatim>\<open>std::ostream\<close> the hash and UUID printers rely on.
\<close>

section \<open>Hexadecimal digits\<close>

definition decodeHex :: "char \<Rightarrow> int" where
  "decodeHex c =
     (let n = (of_char c :: int) in
      if 48 \<le> n \<and> n \<le> 57 then n - 48
      else if 97 \<le> n \<and> n \<le> 102 then n - 97 + 10
      else if 65 \<le> n \<and> n \<le> 70 then n - 65 + 10
      else - 1)"

fun hexToCharSeq_loop :: "string \<Rightarrow> string \<Rightarrow> bool \<times> string" where
  "hexToCharSeq_loop (c # d # rest) result =
     (let hi = decodeHex c; lo = decodeHex d in
      if 0 \<le> lo \<and> 0 \<le> hi
      then hexToCharSeq_loop rest (result @ [char_of (hi * 16 + lo)])
      else (False, result))"
| "hexToCharSeq_loop _ result = (True, result)"

text \<open>The return value and the new contents of the output parameter \<^verbatim>\<open>result\<close>.\<close>

definition hexToCharSeq :: "string \<Rightarrow> bool \<times> string" where
  "hexToCharSeq seq = (if length seq mod 2 = 0 then hexToCharSeq_loop seq [] else (True, []))"

text \<open>The digit characters \<^verbatim>\<open>std::hex\<close> prints, lower case or upper case.\<close>

definition hexDigit :: "bool \<Rightarrow> nat \<Rightarrow> char" where
  "hexDigit uppercase d =
     (if d < 10 then char_of (48 + d) else if uppercase then char_of (55 + d) else char_of (87 + d))"

lemma of_char_hexDigit:
  "d < 16 \<Longrightarrow> (of_char (hexDigit u d) :: nat) =
     (if d < 10 then 48 + d else if u then 55 + d else 87 + d)"
  by (auto simp: hexDigit_def)

lemma decodeHex_hexDigit [simp]: "d < 16 \<Longrightarrow> decodeHex (hexDigit u d) = int d"
proof -
  assume "d < 16"
  then have "(of_char (hexDigit u d) :: int) = int (if d < 10 then 48 + d else if u then 55 + d else 87 + d)"
    by (simp only: of_char_hexDigit [symmetric] of_nat_of_char)
  with \<open>d < 16\<close> show ?thesis by (simp add: decodeHex_def Let_def)
qed

lemma decodeHex_range: "- 1 \<le> decodeHex c \<and> decodeHex c < 16"
  by (simp add: decodeHex_def Let_def)

definition isHexDigit :: "char \<Rightarrow> bool" where
  "isHexDigit c \<longleftrightarrow> 0 \<le> decodeHex c"

lemma isHexDigit_hexDigit [simp]: "d < 16 \<Longrightarrow> isHexDigit (hexDigit u d)"
  by (simp add: isHexDigit_def)

text \<open>Decoding and printing again gives the digit back, up to its case.\<close>

lemma hexDigit_decodeHex:
  assumes "isHexDigit c"
  shows "hexDigit False (nat (decodeHex c)) = c \<or> hexDigit True (nat (decodeHex c)) = c"
proof -
  let ?n = "of_char c :: nat"
  have n: "(of_char c :: int) = int ?n" by (rule of_nat_of_char [symmetric])
  have c: "char_of ?n = c" by simp
  from assms consider "48 \<le> ?n \<and> ?n \<le> 57" | "97 \<le> ?n \<and> ?n \<le> 102" | "65 \<le> ?n \<and> ?n \<le> 70"
    by (auto simp: isHexDigit_def decodeHex_def Let_def n simp del: of_nat_of_char split: if_splits)
  then show ?thesis
  proof cases
    case 1
    then have "nat (decodeHex c) = ?n - 48"
      by (simp add: decodeHex_def Let_def n nat_diff_distrib del: of_nat_of_char)
    with 1 c show ?thesis by (auto simp: hexDigit_def)
  next
    case 2
    then have "nat (decodeHex c) = ?n - 87"
      by (simp add: decodeHex_def Let_def n nat_diff_distrib del: of_nat_of_char)
    with 2 c show ?thesis by (auto simp: hexDigit_def)
  next
    case 3
    then have "nat (decodeHex c) = ?n - 55"
      by (simp add: decodeHex_def Let_def n nat_diff_distrib del: of_nat_of_char)
    with 3 c show ?thesis by (auto simp: hexDigit_def)
  qed
qed

section \<open>Numbers in base 16, padded\<close>

text \<open>
  \<^verbatim>\<open>os << std::hex << n\<close>: no leading zeros, one digit for 0; and
  \<^verbatim>\<open>std::setw(w) << std::setfill(c)\<close>: padding on the left up to a width.
\<close>

fun hexDigits :: "bool \<Rightarrow> nat \<Rightarrow> string" where
  "hexDigits u n = (if n < 16 then [hexDigit u n] else hexDigits u (n div 16) @ [hexDigit u (n mod 16)])"

declare hexDigits.simps [simp del]

definition padLeft :: "nat \<Rightarrow> char \<Rightarrow> string \<Rightarrow> string" where
  "padLeft w c s = replicate (w - length s) c @ s"

text \<open>The same number in a fixed number of digits.\<close>

primrec fixedHex :: "bool \<Rightarrow> nat \<Rightarrow> nat \<Rightarrow> string" where
  "fixedHex u 0 n = []"
| "fixedHex u (Suc k) n = fixedHex u k (n div 16) @ [hexDigit u (n mod 16)]"

lemma length_fixedHex [simp]: "length (fixedHex u k n) = k"
  by (induction k arbitrary: n) auto

lemma fixedHex_zero [simp]: "fixedHex u k 0 = replicate k (CHR ''0'')"
proof (induction k)
  case 0
  then show ?case by simp
next
  case (Suc k)
  have "(char_of (48 :: nat) :: char) = CHR ''0''" by code_simp
  then have "hexDigit u 0 = CHR ''0''" by (simp add: hexDigit_def)
  with Suc show ?case by (simp add: replicate_append_same)
qed

lemma padLeft_hexDigits:
  assumes "n < 16 ^ k" and "0 < k"
  shows "padLeft k (CHR ''0'') (hexDigits u n) = fixedHex u k n"
  using assms
proof (induction k arbitrary: n)
  case 0
  then show ?case by simp
next
  case (Suc k)
  show ?case
  proof (cases "n < 16")
    case True
    then show ?thesis by (simp add: hexDigits.simps padLeft_def)
  next
    case False
    with Suc.prems have "n div 16 < 16 ^ k" and "0 < k"
      by (auto simp: less_mult_imp_div_less mult.commute intro: gr0I)
    then have IH: "padLeft k (CHR ''0'') (hexDigits u (n div 16)) = fixedHex u k (n div 16)"
      by (rule Suc.IH)
    have "hexDigits u n = hexDigits u (n div 16) @ [hexDigit u (n mod 16)]"
      using False by (simp add: hexDigits.simps [of u n])
    then show ?thesis using IH by (simp add: padLeft_def)
  qed
qed

definition byteHex :: "bool \<Rightarrow> u8 \<Rightarrow> string" where
  "byteHex u b = [hexDigit u (unat b div 16), hexDigit u (unat b mod 16)]"

lemma length_byteHex [simp]: "length (byteHex u b) = 2"
  by (simp add: byteHex_def)

text \<open>The hexadecimal digits of a word are those of its bytes, most significant first.\<close>

lemma fixedHex_le_bytes:
  "fixedHex u (2 * n) (unat (w :: 'a::len word)) = concat (map (byteHex u) (rev (le_bytes n w)))"
proof (induction n arbitrary: w)
  case 0
  then show ?case by simp
next
  case (Suc n)
  have "unat (drop_bit 8 w) = unat w div 2 ^ 8"
    by (subst unat_drop_bit_eq) (rule drop_bit_eq_div)
  then have div: "unat w div 16 div 16 = unat (drop_bit 8 w)"
    by (simp add: div_mult2_eq [symmetric])
  have m: "x mod 16 = x mod 256 mod 16" for x :: nat
    by (simp add: mod_mod_cancel)
  have d: "x div 16 mod 16 = x mod 256 div 16" for x :: nat
    using mod_mult2_eq [of x 16 16] by simp
  have b: "unat w mod 256 = unat (ucast w :: u8)"
    by (simp add: unsigned_ucast_eq take_bit_eq_mod)
  have lo: "unat w mod 16 = unat (ucast w :: u8) mod 16"
    unfolding b [symmetric] by (rule m)
  have hi: "unat w div 16 mod 16 = unat (ucast w :: u8) div 16"
    unfolding b [symmetric] by (rule d)
  show ?case
    by (simp add: div lo hi Suc.IH byteHex_def)
qed

section \<open>Decoding\<close>

text \<open>An even number of hexadecimal digits decodes to its bytes, and printing them again
  gives the digits (in lower case).\<close>

lemma hexToCharSeq_loop_byteHex:
  "hexToCharSeq_loop (concat (map (byteHex u) bs)) result = (True, result @ map (\<lambda>b. char_of (unat b)) bs)"
proof (induction bs arbitrary: result)
  case Nil
  then show ?case by simp
next
  case (Cons b bs)
  have b: "unat b < 256" using unsigned_less [of b, where ?'a = nat] by simp
  then have "unat b div 16 < 16" and m: "unat b mod 16 < 16" by simp_all
  moreover have "int (unat b div 16) * 16 + int (unat b mod 16) = int (unat b)"
    by presburger
  then have "(char_of (int (unat b div 16) * 16 + int (unat b mod 16)) :: char) = char_of (unat b)"
    by (simp only: char_of_nat)
  ultimately show ?case
    using Cons.IH by (simp add: byteHex_def)
qed

lemma hexToCharSeq_loop_True:
  "fst (hexToCharSeq_loop s r) \<Longrightarrow> even (length s) \<Longrightarrow>
   list_all isHexDigit s \<and> length (snd (hexToCharSeq_loop s r)) = length r + length s div 2"
proof (induction s r rule: hexToCharSeq_loop.induct)
  case (1 c d rest result)
  then show ?case by (auto simp: Let_def isHexDigit_def split: if_splits)
qed auto

section \<open>Population count\<close>

text \<open>The portable branch of \<^verbatim>\<open>popcnt64\<close> (the build defines \<^verbatim>\<open>NO_POPCNT\<close> unless told
  otherwise); every step wraps at 64 bits.\<close>

definition popcnt64 :: "u64 \<Rightarrow> nat" where
  "popcnt64 x =
     (let m1 = 0x5555555555555555;
          m2 = 0x3333333333333333;
          m4 = 0x0f0f0f0f0f0f0f0f;
          h01 = 0x0101010101010101;
          x = x - (drop_bit 1 x AND m1);
          x = (x AND m2) + (drop_bit 2 x AND m2);
          x = (x + drop_bit 4 x) AND m4
      in unat (drop_bit 56 (x * h01)))"

end
