(* ===== verification/Cpp_Streams.thy ===== *)
theory Cpp_Streams
  imports Pwned_Prelude
begin

text \<open>
  The part of \<^verbatim>\<open>std::istream\<close> the sources use, over a file whose contents is a list: the
  three state bits, unformatted \<^verbatim>\<open>read\<close>, \<^verbatim>\<open>seekg\<close>, \<^verbatim>\<open>tellg\<close>, \<^verbatim>\<open>clear\<close>
  and \<^verbatim>\<open>std::getline\<close>, after the C++17 standard (sections istream.unformatted, istream::sentry
  and string.io). Two rules matter to the program:
  \<^item> an operation on a stream that is not \<^verbatim>\<open>good()\<close> does nothing but set \<^verbatim>\<open>failbit\<close>;
  \<^item> \<^verbatim>\<open>seekg\<close> clears \<^verbatim>\<open>eofbit\<close> but not \<^verbatim>\<open>failbit\<close>, so that a read
    beyond the end of the file leaves the stream unusable until \<^verbatim>\<open>clear()\<close>.
\<close>

record 'b istream =
  opened :: bool
  contents :: "'b list"
  position :: nat
  eofbit :: bool
  failbit :: bool
  badbit :: bool

definition good :: "'b istream \<Rightarrow> bool" where
  "good s \<longleftrightarrow> \<not> eofbit s \<and> \<not> failbit s \<and> \<not> badbit s"

definition fail :: "'b istream \<Rightarrow> bool" where
  "fail s \<longleftrightarrow> failbit s \<or> badbit s"

text \<open>A stream that was opened on a file, and one whose file could not be opened.\<close>

definition open_stream :: "'b list \<Rightarrow> 'b istream" where
  "open_stream bs = \<lparr>opened = True, contents = bs, position = 0, eofbit = False, failbit = False, badbit = False\<rparr>"

definition failed_open :: "'b istream" where
  "failed_open = \<lparr>opened = False, contents = [], position = 0, eofbit = False, failbit = True, badbit = False\<rparr>"

text \<open>\<^verbatim>\<open>std::ifstream\<close> default constructed: no file, no error bit.\<close>

definition closed_stream :: "'b istream" where
  "closed_stream = \<lparr>opened = False, contents = [], position = 0, eofbit = False, failbit = False, badbit = False\<rparr>"

text \<open>
  \<^verbatim>\<open>read(p, n)\<close>: the characters delivered (their number is \<^verbatim>\<open>gcount()\<close>) and the
  new stream.
\<close>

definition is_read :: "nat \<Rightarrow> 'b istream \<Rightarrow> 'b list \<times> 'b istream" where
  "is_read n s =
     (if \<not> good s then ([], s\<lparr>failbit := True\<rparr>)
      else let got = take n (drop (position s) (contents s));
               s' = s\<lparr>position := position s + length got\<rparr>
           in if length got < n then (got, s'\<lparr>eofbit := True, failbit := True\<rparr>) else (got, s'))"

definition seekg :: "int \<Rightarrow> 'b istream \<Rightarrow> 'b istream" where
  "seekg p s =
     (let s1 = s\<lparr>eofbit := False\<rparr>
      in if \<not> good s1 \<or> \<not> opened s1 \<or> p < 0 then s1\<lparr>failbit := True\<rparr>
         else s1\<lparr>position := nat p\<rparr>)"

definition tellg :: "'b istream \<Rightarrow> int \<times> 'b istream" where
  "tellg s =
     (if \<not> good s then (- 1, s\<lparr>failbit := True\<rparr>)
      else if \<not> opened s then (- 1, s)
      else (int (position s), s))"

definition clear_bits :: "'b istream \<Rightarrow> 'b istream" where
  "clear_bits s = s\<lparr>eofbit := False, failbit := False, badbit := False\<rparr>"

text \<open>
  \<^verbatim>\<open>std::getline(is, str)\<close>: the new value of \<^verbatim>\<open>str\<close> (unchanged when the stream is not
  good) and the new stream. The newline is extracted but not stored.
\<close>

definition getline :: "char istream \<Rightarrow> string \<Rightarrow> string \<times> char istream" where
  "getline s str =
     (if \<not> good s then (str, s\<lparr>failbit := True\<rparr>)
      else let rest = drop (position s) (contents s);
               line = takeWhile (\<lambda>c. c \<noteq> CHR 0x0A) rest
           in if length line = length rest
              then (line, s\<lparr>position := position s + length line, eofbit := True, failbit := (line = [])\<rparr>)
              else (line, s\<lparr>position := position s + length line + 1\<rparr>))"

lemma open_stream_simps [simp]:
  "opened (open_stream bs)" "contents (open_stream bs) = bs" "position (open_stream bs) = 0"
  "\<not> eofbit (open_stream bs)" "\<not> failbit (open_stream bs)" "\<not> badbit (open_stream bs)"
  "good (open_stream bs)"
  by (simp_all add: open_stream_def good_def)

lemma closed_stream_simps [simp]:
  "\<not> opened closed_stream" "contents closed_stream = []" "good closed_stream"
  by (simp_all add: closed_stream_def good_def)

lemma good_not_fail: "good s \<Longrightarrow> \<not> fail s"
  by (simp add: good_def fail_def)

lemma is_read_not_good [stream_simps]: "\<not> good s \<Longrightarrow> is_read n s = ([], s\<lparr>failbit := True\<rparr>)"
  by (simp add: is_read_def)

lemma is_read_full [stream_simps]:
  assumes "good s" and "position s + n \<le> length (contents s)"
  shows "is_read n s = (take n (drop (position s) (contents s)), s\<lparr>position := position s + n\<rparr>)"
  using assms by (simp add: is_read_def Let_def)

lemma is_read_at_end [stream_simps]:
  assumes "good s" and "length (contents s) \<le> position s" and "0 < n"
  shows "is_read n s = ([], s\<lparr>eofbit := True, failbit := True\<rparr>)"
  using assms by (simp add: is_read_def Let_def)

lemma length_is_read: "is_read n s = (bs, s') \<Longrightarrow> length bs \<le> n"
  by (auto simp: is_read_def Let_def split: if_splits)

lemma seekg_ok [stream_simps]:
  assumes "opened s" and "\<not> fail s" and "0 \<le> p"
  shows "seekg p s = s\<lparr>eofbit := False, position := nat p\<rparr>"
  using assms by (simp add: seekg_def good_def fail_def Let_def)

lemma seekg_fail [stream_simps]:
  assumes "fail s"
  shows "seekg p s = s\<lparr>eofbit := False, failbit := True\<rparr>"
  using assms by (auto simp: seekg_def good_def fail_def Let_def)

lemma seekg_negative [stream_simps]:
  assumes "p < 0"
  shows "seekg p s = s\<lparr>eofbit := False, failbit := True\<rparr>"
  using assms by (simp add: seekg_def Let_def)

lemma contents_is_read [simp]: "contents (snd (is_read n s)) = contents s"
  by (simp add: is_read_def Let_def)

lemma opened_is_read [simp]: "opened (snd (is_read n s)) = opened s"
  by (simp add: is_read_def Let_def)

lemma contents_seekg [simp]: "contents (seekg p s) = contents s"
  by (simp add: seekg_def Let_def)

lemma opened_seekg [simp]: "opened (seekg p s) = opened s"
  by (simp add: seekg_def Let_def)

text \<open>The failure bit is sticky: only \<^verbatim>\<open>clear()\<close> removes it.\<close>

lemma fail_is_read: "fail s \<Longrightarrow> fail (snd (is_read n s))"
  by (auto simp: is_read_def fail_def good_def Let_def)

lemma fail_seekg: "fail s \<Longrightarrow> fail (seekg p s)"
  by (simp add: seekg_fail fail_def)

lemma is_read_fail: "fail s \<Longrightarrow> is_read n s = ([], s\<lparr>failbit := True\<rparr>)"
  by (simp add: is_read_def good_def fail_def)

text \<open>Every read makes progress towards the end of the file or leaves the good state.\<close>

lemma is_read_progress:
  assumes "good s" and "good (snd (is_read n s))"
  shows "position (snd (is_read n s)) = position s + n \<and> position s + n \<le> length (contents s) + (if n = 0 then position s else 0)"
  using assms by (auto simp: is_read_def Let_def good_def split: if_splits)

section \<open>Lines\<close>

definition unread :: "'b istream \<Rightarrow> 'b list" where
  "unread s = drop (position s) (contents s)"

lemma getline_last [stream_simps]:
  assumes "good s" and "CHR 0x0A \<notin> set (unread s)"
  shows "getline s str =
    (unread s, s\<lparr>position := position s + length (unread s), eofbit := True, failbit := (unread s = [])\<rparr>)"
proof -
  have "takeWhile (\<lambda>c. c \<noteq> CHR 0x0A) (unread s) = unread s"
    using assms(2) by (intro takeWhile_eq_all_conv [THEN iffD2]) auto
  with assms(1) show ?thesis by (simp only: getline_def unread_def [symmetric] Let_def) simp
qed

lemma getline_line [stream_simps]:
  assumes "good s" and "unread s = line @ CHR 0x0A # rest" and "CHR 0x0A \<notin> set line"
  shows "getline s str = (line, s\<lparr>position := position s + length line + 1\<rparr>)"
proof -
  let ?P = "\<lambda>c. c \<noteq> CHR 0x0A"
  have "takeWhile ?P (unread s) = takeWhile ?P (line @ CHR 0x0A # rest)"
    using assms(2) by simp
  also have "\<dots> = line @ takeWhile ?P (CHR 0x0A # rest)"
    using assms(3) by (intro takeWhile_append2) auto
  finally have "takeWhile ?P (unread s) = line" by simp
  with assms(1,2) show ?thesis
    by (simp only: getline_def unread_def [symmetric] Let_def) simp
qed

end
