(* ===== verification/Hash.thy ===== *)
theory Hash
  imports Util Cpp_Streams
begin

text \<open>
  \<^verbatim>\<open>pwned-lib/hash.hpp\<close> and \<^verbatim>\<open>pwned-lib/hash.cpp\<close>: the 128-bit MD5 value as the union of
  16 bytes and two 64-bit words, its order, its textual form and its binary form. MD5 itself
  is OpenSSL's and a parameter of \<open>hash_of_string\<close>.
\<close>

section \<open>The data and its order\<close>

datatype quad = Quad (upper: u64) (lower: u64)

text \<open>\<^verbatim>\<open>operator<\<close> of the code orders hashes by their two words; on the words alone it is
  a linear order, so the library's sorting and minima apply.\<close>

instantiation quad :: linorder
begin

definition less_quad :: "quad \<Rightarrow> quad \<Rightarrow> bool" where
  "less_quad l r = (if upper l = upper r then lower l < lower r else upper l < upper r)"

definition less_eq_quad :: "quad \<Rightarrow> quad \<Rightarrow> bool" where
  "less_eq_quad l r \<longleftrightarrow> l = r \<or> l < (r :: quad)"

instance
proof
  fix x y z :: quad
  show "x < y \<longleftrightarrow> x \<le> y \<and> \<not> y \<le> x"
    by (auto simp: less_eq_quad_def less_quad_def split: if_splits)
  show "x \<le> x" by (simp add: less_eq_quad_def)
  show "x \<le> z" if "x \<le> y" "y \<le> z"
    using that by (auto simp: less_eq_quad_def less_quad_def split: if_splits)
  show "x = y" if "x \<le> y" "y \<le> x"
    using that by (auto simp: less_eq_quad_def less_quad_def split: if_splits)
  show "x \<le> y \<or> y \<le> x"
    by (cases x; cases y) (auto simp: less_eq_quad_def less_quad_def)
qed

end

record hash =
  quad :: quad
  isValid :: bool

text \<open>\<^verbatim>\<open>Hash()\<close>, \<^verbatim>\<open>Hash(upper, lower)\<close>, the copy constructor and assignment.\<close>

definition emptyHash :: hash where
  "emptyHash = \<lparr>quad = Quad 0 0, isValid = False\<rparr>"

definition hash_of_quad :: "u64 \<Rightarrow> u64 \<Rightarrow> hash" where
  "hash_of_quad u l = \<lparr>quad = Quad u l, isValid = True\<rparr>"

definition hash_copy :: "hash \<Rightarrow> hash" where
  "hash_copy rhs = \<lparr>quad = Quad (upper (quad rhs)) (lower (quad rhs)), isValid = isValid rhs\<rparr>"

definition hash_eq :: "hash \<Rightarrow> hash \<Rightarrow> bool" where
  "hash_eq l r \<longleftrightarrow>
     upper (quad l) = upper (quad r) \<and> lower (quad l) = lower (quad r) \<and> isValid l = isValid r"

definition hash_ne :: "hash \<Rightarrow> hash \<Rightarrow> bool" where
  "hash_ne l r \<longleftrightarrow>
     upper (quad l) \<noteq> upper (quad r) \<or> lower (quad l) \<noteq> lower (quad r) \<or> isValid l = isValid r"

definition hash_lt :: "hash \<Rightarrow> hash \<Rightarrow> bool" where
  "hash_lt l r =
     (if upper (quad l) = upper (quad r) then lower (quad l) < lower (quad r)
      else upper (quad l) < upper (quad r))"

definition hash_le :: "hash \<Rightarrow> hash \<Rightarrow> bool" where
  "hash_le l r \<longleftrightarrow> hash_eq l r \<or> hash_lt l r"

definition hash_gt :: "hash \<Rightarrow> hash \<Rightarrow> bool" where
  "hash_gt l r =
     (if upper (quad l) = upper (quad r) then lower (quad l) > lower (quad r)
      else upper (quad l) > upper (quad r))"

definition hash_ge :: "hash \<Rightarrow> hash \<Rightarrow> bool" where
  "hash_ge l r \<longleftrightarrow> hash_eq l r \<or> hash_gt l r"

lemma hash_lt_iff [simp]: "hash_lt l r \<longleftrightarrow> quad l < quad r"
  by (simp add: hash_lt_def less_quad_def)

lemma hash_gt_iff [simp]: "hash_gt l r \<longleftrightarrow> quad r < quad l"
  by (auto simp: hash_gt_def less_quad_def)

lemma hash_eq_iff [simp]: "hash_eq l r \<longleftrightarrow> quad l = quad r \<and> isValid l = isValid r"
  by (cases "quad l"; cases "quad r") (simp add: hash_eq_def)

lemma hash_copy_id [simp]: "hash_copy h = h"
  by (cases h; cases "quad h") (simp add: hash_copy_def)

section \<open>The bytes of the union\<close>

definition quad_bytes :: "quad \<Rightarrow> u8 list" where
  "quad_bytes q = le_bytes 8 (upper q) @ le_bytes 8 (lower q)"

definition bytes_quad :: "u8 list \<Rightarrow> quad" where
  "bytes_quad bs = Quad (le_word (take 8 bs)) (le_word (drop 8 bs))"

abbreviation hash_data :: "hash \<Rightarrow> u8 list" where
  "hash_data h \<equiv> quad_bytes (quad h)"

lemma length_quad_bytes [simp]: "length (quad_bytes q) = 16"
  by (simp add: quad_bytes_def)

lemma bytes_quad_quad_bytes [simp]: "bytes_quad (quad_bytes q) = q"
  by (cases q) (simp add: quad_bytes_def bytes_quad_def)

lemma quad_bytes_bytes_quad [simp]: "length bs = 16 \<Longrightarrow> quad_bytes (bytes_quad bs) = bs"
  by (simp add: quad_bytes_def bytes_quad_def)

definition toHostByteOrder :: "hash \<Rightarrow> hash" where
  "toHostByteOrder h = h\<lparr>quad := Quad (ntohll (upper (quad h))) (ntohll (lower (quad h)))\<rparr>"

lemma toHostByteOrder_twice [simp]: "toHostByteOrder (toHostByteOrder h) = h"
  by (cases h; cases "quad h") (simp add: toHostByteOrder_def)

text \<open>
  \<^verbatim>\<open>Hash::Hash(const std::string \&pwd)\<close>. OpenSSL's \<open>MD5\<close> fills 16 bytes; every theorem
  that needs it takes \<open>md5_digest md5\<close> as a hypothesis.
\<close>

definition md5_digest :: "(string \<Rightarrow> u8 list) \<Rightarrow> bool" where
  "md5_digest md5 \<longleftrightarrow> (\<forall>s. length (md5 s) = 16)"

definition hash_of_string :: "(string \<Rightarrow> u8 list) \<Rightarrow> string \<Rightarrow> hash" where
  "hash_of_string md5 pwd =
     (toHostByteOrder (emptyHash\<lparr>quad := bytes_quad (md5 pwd)\<rparr>))\<lparr>isValid := True\<rparr>"

section \<open>Reading from a stream\<close>

definition hash_read :: "hash \<Rightarrow> u8 istream \<Rightarrow> bool \<times> hash \<times> u8 istream" where
  "hash_read h f =
     (let (got, f') = is_read 16 f
      in (length got = 16, h\<lparr>quad := bytes_quad (overwrite (hash_data h) got)\<rparr>, f'))"

definition hash_read_at :: "hash \<Rightarrow> u8 istream \<Rightarrow> int \<Rightarrow> bool \<times> hash \<times> u8 istream" where
  "hash_read_at h f pos = hash_read h (seekg pos f)"

section \<open>Text\<close>

definition toString :: "bool \<Rightarrow> hash \<Rightarrow> string" where
  "toString uppercase h =
     padLeft 16 (CHR ''0'') (hexDigits uppercase (unat (upper (quad h)))) @
     padLeft 16 (CHR ''0'') (hexDigits uppercase (unat (lower (quad h))))"

fun fromHex_loop :: "string \<Rightarrow> u8 list \<Rightarrow> nat \<Rightarrow> u8 list \<times> nat" where
  "fromHex_loop (c # d # rest) data j =
     (let hi = decodeHex c; lo = decodeHex d in
      if 0 \<le> hi \<and> 0 \<le> lo
      then fromHex_loop rest (data[j := word_of_int (push_bit 4 hi + lo)]) (Suc j)
      else (data, j))"
| "fromHex_loop _ data j = (data, j)"

definition fromHex :: "string \<Rightarrow> hash" where
  "fromHex seq =
     (let h = emptyHash;
          h = (if length seq = 2 * 16
               then let (data, j) = fromHex_loop seq (hash_data h) 0
                    in h\<lparr>quad := bytes_quad data, isValid := (j = 16)\<rparr>
               else h)
      in toHostByteOrder h)"

text \<open>The textual form is the bytes in network order, two digits each.\<close>

definition be_bytes :: "quad \<Rightarrow> u8 list" where
  "be_bytes q = rev (le_bytes 8 (upper q)) @ rev (le_bytes 8 (lower q))"

lemma length_be_bytes [simp]: "length (be_bytes q) = 16"
  by (simp add: be_bytes_def)

lemma toString_bytes: "toString u h = concat (map (byteHex u) (be_bytes (quad h)))"
proof -
  have "padLeft 16 (CHR ''0'') (hexDigits u (unat w)) = concat (map (byteHex u) (rev (le_bytes 8 w)))"
    for w :: u64
  proof -
    have "unat w < 16 ^ 16" using unsigned_less [of w, where ?'a = nat] by simp
    then have "padLeft 16 (CHR ''0'') (hexDigits u (unat w)) = fixedHex u (2 * 8) (unat w)"
      by (simp add: padLeft_hexDigits)
    then show ?thesis by (simp only: fixedHex_le_bytes)
  qed
  then show ?thesis by (simp add: toString_def be_bytes_def)
qed

lemma length_toString [simp]: "length (toString u h) = 32"
  by (simp add: toString_bytes concat_map_const_length)

lemma byte_of_digits: "word_of_int (push_bit 4 (int (unat b div 16)) + int (unat b mod 16)) = (b :: u8)"
proof -
  have "push_bit 4 (int (x div 16)) + int (x mod 16) = int x" for x :: nat
    by (simp add: push_bit_eq_mult zdiv_int zmod_int)
  from this [of "unat b"] show ?thesis by (simp only:) simp
qed

lemma fromHex_loop_byteHex:
  "j + length bs \<le> length data \<Longrightarrow>
   fromHex_loop (concat (map (byteHex u) bs)) data j =
     (take j data @ bs @ drop (j + length bs) data, j + length bs)"
proof (induction bs arbitrary: data j)
  case Nil
  then show ?case by simp
next
  case (Cons b bs)
  have "unat b < 256" using unsigned_less [of b, where ?'a = nat] by simp
  then have d: "unat b div 16 < 16" "unat b mod 16 < 16" by simp_all
  have "fromHex_loop (concat (map (byteHex u) (b # bs))) data j =
      fromHex_loop (concat (map (byteHex u) bs)) (data[j := b]) (Suc j)"
    by (simp only: byteHex_def list.map concat.simps append.simps fromHex_loop.simps Let_def
          decodeHex_hexDigit [OF d(1)] decodeHex_hexDigit [OF d(2)] byte_of_digits) simp
  also have "\<dots> = (take (Suc j) (data[j := b]) @ bs @ drop (Suc j + length bs) (data[j := b]),
      Suc j + length bs)"
    using Cons.prems by (intro Cons.IH) simp
  also have "\<dots> = (take j data @ (b # bs) @ drop (j + length (b # bs)) data, j + length (b # bs))"
    using Cons.prems by (simp add: take_Suc_conv_app_nth)
  finally show ?case .
qed

lemma ntohll_be: "ntohll (le_word (rev (le_bytes 8 w))) = w"
  by (simp add: ntohll_def)

lemma fromHex_toString: "fromHex (toString u h) = h\<lparr>isValid := True\<rparr>"
proof -
  let ?q = "quad h"
  have "fromHex_loop (toString u h) (hash_data emptyHash) 0 = (be_bytes ?q, 16)"
    by (simp add: toString_bytes fromHex_loop_byteHex)
  then have "fromHex (toString u h) =
      toHostByteOrder (emptyHash\<lparr>quad := bytes_quad (be_bytes ?q), isValid := True\<rparr>)"
    by (simp add: fromHex_def)
  also have "\<dots> = h\<lparr>isValid := True\<rparr>"
    by (cases h; cases ?q)
      (simp add: toHostByteOrder_def bytes_quad_def be_bytes_def ntohll_be emptyHash_def)
  finally show ?thesis .
qed

lemma fromHex_loop_count:
  "even (length s) \<Longrightarrow>
   snd (fromHex_loop s data j) = j + length s div 2 \<longleftrightarrow> list_all isHexDigit s"
proof (induction s data j rule: fromHex_loop.induct)
  case (1 c d rest data j)
  show ?case
    using 1 by (auto simp: Let_def isHexDigit_def)
qed auto

lemma isValid_fromHex: "isValid (fromHex s) \<longleftrightarrow> length s = 32 \<and> list_all isHexDigit s"
  using fromHex_loop_count [of s "hash_data emptyHash" 0]
  by (auto simp: fromHex_def toHostByteOrder_def emptyHash_def Let_def split: prod.splits)

text \<open>A concrete stand-in for MD5 in the witnesses: 16 bytes, the last one the password's length.\<close>

definition toy_md5 :: "string \<Rightarrow> u8 list" where
  "toy_md5 s = replicate 15 0 @ [word_of_nat (length s)]"

lemma toy_md5_digest: "md5_digest toy_md5"
  by (simp add: md5_digest_def toy_md5_def)

end
