(* ===== verification/Phc.thy ===== *)
theory Phc
  imports Hash
begin

text \<open>
  \<^verbatim>\<open>pwned-lib/passwordhashandcount.hpp\<close>: a hash with its count, and the 20-byte records
  (16 bytes of the hash, 4 bytes of the count) an MD5:count file is made of. The layout of such
  files, and of the files of 8-byte index keys, is stated once, in the locale \<open>fixed_codec\<close>.
\<close>

section \<open>Files of fixed-width records\<close>

locale fixed_codec =
  fixes enc :: "'a \<Rightarrow> u8 list" and dec :: "u8 list \<Rightarrow> 'a" and width :: nat
  assumes length_enc: "length (enc x) = width"
    and dec_enc: "dec (enc x) = x"
    and width_pos: "0 < width"
begin

lemma length_file: "length (concat (map enc xs)) = width * length xs"
  by (simp add: concat_map_const_length length_enc)

lemma drop_file_nth:
  assumes "i < length xs"
  shows "drop (width * i) (concat (map enc xs)) = enc (xs ! i) @ concat (map enc (drop (Suc i) xs))"
  using assms by (simp add: drop_concat_map_const length_enc Cons_nth_drop_Suc [symmetric])

lemma drop_file_end: "length xs \<le> i \<Longrightarrow> drop (width * i) (concat (map enc xs)) = []"
  by (simp add: drop_concat_map_const length_enc)

lemma enc_inj: "enc x = enc y \<longleftrightarrow> x = y"
  by (metis dec_enc)

lemma file_inj: "concat (map enc xs) = concat (map enc ys) \<Longrightarrow> xs = ys"
proof (induction xs arbitrary: ys)
  case Nil
  then have "length (concat (map enc ys)) = 0" by (simp del: length_concat)
  then have "width * length ys = 0" by (simp only: length_file)
  then show ?case using width_pos by simp
next
  case (Cons x xs)
  then have "width * length ys = width * length (x # xs)"
    using length_file [of ys] length_file [of "x # xs"] by simp
  then obtain y ys' where ys: "ys = y # ys'" using width_pos by (cases ys) auto
  with Cons.prems have "enc x = enc y \<and> concat (map enc xs) = concat (map enc ys')"
    by (simp add: append_eq_append_conv length_enc)
  then show ?case using Cons.IH ys by (simp add: enc_inj)
qed

text \<open>Reading record \<open>i\<close> of the file, and reading at its end.\<close>

lemma read_record:
  assumes "good s" and "contents s = concat (map enc xs)" and "position s = width * i" and "i < length xs"
  shows "is_read width s = (enc (xs ! i), s\<lparr>position := width * Suc i\<rparr>)"
proof -
  have "take width (drop (width * i) (concat (map enc xs))) = enc (xs ! i)"
    using assms(4) by (simp add: drop_file_nth length_enc)
  with assms show ?thesis
    by (simp add: is_read_def Let_def length_enc add.commute)
qed

lemma read_at_end:
  assumes "good s" and "contents s = concat (map enc xs)" and "position s = width * length xs"
  shows "is_read width s = ([], s\<lparr>eofbit := True, failbit := True\<rparr>)"
  using assms width_pos by (simp add: is_read_at_end length_file)

end

section \<open>Records\<close>

record phc =
  phc_hash :: hash
  phc_count :: u32

definition emptyPHC :: phc where
  "emptyPHC = \<lparr>phc_hash = emptyHash, phc_count = 0\<rparr>"

definition phc_of :: "hash \<Rightarrow> u32 \<Rightarrow> phc" where
  "phc_of h c = \<lparr>phc_hash = h, phc_count = c\<rparr>"

definition phc_size :: int where
  "phc_size = 16 + 4"

text \<open>
  \<^verbatim>\<open>read(f)\<close>: when the file ends within the record, the bytes that were there have already
  replaced a prefix of the hash or of the count.
\<close>

definition phc_read :: "phc \<Rightarrow> u8 istream \<Rightarrow> bool \<times> phc \<times> u8 istream" where
  "phc_read p f =
     (let (got, f1) = is_read 16 f;
          p1 = p\<lparr>phc_hash := (phc_hash p)\<lparr>quad := bytes_quad (overwrite (hash_data (phc_hash p)) got)\<rparr>\<rparr>
      in if length got \<noteq> 16 then (False, p1, f1)
         else let (got2, f2) = is_read 4 f1
              in (length got2 = 4,
                  p1\<lparr>phc_count := le_word (overwrite (le_bytes 4 (phc_count p)) got2)\<rparr>, f2))"

definition phc_read_at :: "phc \<Rightarrow> u8 istream \<Rightarrow> int \<Rightarrow> bool \<times> phc \<times> u8 istream" where
  "phc_read_at p f pos = phc_read p (seekg pos f)"

text \<open>The bytes \<^verbatim>\<open>dump(f)\<close> appends to the file.\<close>

definition phc_dump :: "phc \<Rightarrow> u8 list" where
  "phc_dump p = hash_data (phc_hash p) @ le_bytes 4 (phc_count p)"

definition phc_eq :: "phc \<Rightarrow> phc \<Rightarrow> bool" where
  "phc_eq l r = hash_eq (phc_hash l) (phc_hash r)"

definition phc_less :: "phc \<Rightarrow> phc \<Rightarrow> bool" where
  "phc_less l r = hash_lt (phc_hash l) (phc_hash r)"

section \<open>MD5:count files\<close>

text \<open>The abstract contents of such a file: the list of its records, a hash's words and a count each.\<close>

type_synonym entry = "quad \<times> u32"

definition entry_bytes :: "entry \<Rightarrow> u8 list" where
  "entry_bytes e = quad_bytes (fst e) @ le_bytes 4 (snd e)"

definition bytes_entry :: "u8 list \<Rightarrow> entry" where
  "bytes_entry bs = (bytes_quad (take 16 bs), le_word (drop 16 bs))"

definition file_of :: "entry list \<Rightarrow> u8 list" where
  "file_of es = concat (map entry_bytes es)"

definition phc_entry :: "phc \<Rightarrow> entry" where
  "phc_entry p = (quad (phc_hash p), phc_count p)"

definition set_entry :: "phc \<Rightarrow> entry \<Rightarrow> phc" where
  "set_entry p e = p\<lparr>phc_hash := (phc_hash p)\<lparr>quad := fst e\<rparr>, phc_count := snd e\<rparr>"

interpretation phc_file: fixed_codec entry_bytes bytes_entry 20
  by unfold_locales (simp_all add: entry_bytes_def bytes_entry_def)

interpretation key_file: fixed_codec "le_bytes 8 :: u64 \<Rightarrow> u8 list" le_word 8
  by unfold_locales simp_all

lemma phc_dump_entry: "phc_dump p = entry_bytes (phc_entry p)"
  by (simp add: phc_dump_def entry_bytes_def phc_entry_def)

lemma length_file_of [simp]: "length (file_of es) = 20 * length es"
  by (simp add: file_of_def phc_file.length_file)

lemma file_of_append: "file_of (xs @ ys) = file_of xs @ file_of ys"
  by (simp add: file_of_def)

lemma file_of_inj: "file_of xs = file_of ys \<longleftrightarrow> xs = ys"
  using phc_file.file_inj by (auto simp: file_of_def)

lemma set_entry_simps [simp]:
  "quad (phc_hash (set_entry p e)) = fst e" "phc_count (set_entry p e) = snd e"
  "isValid (phc_hash (set_entry p e)) = isValid (phc_hash p)" "phc_entry (set_entry p e) = e"
  "set_entry (set_entry p e) e' = set_entry p e'"
  by (simp_all add: set_entry_def phc_entry_def)

text \<open>A stream over such a file that has not failed.\<close>

definition reads :: "u8 istream \<Rightarrow> entry list \<Rightarrow> bool" where
  "reads f es \<longleftrightarrow> opened f \<and> \<not> fail f \<and> contents f = file_of es"

lemma reads_open [simp]: "reads (open_stream (file_of es)) es"
  by (simp add: reads_def fail_def)

lemma is_read_prefix:
  assumes "good s" and "drop (position s) (contents s) = bs @ rest" and "length bs = n"
  shows "is_read n s = (bs, s\<lparr>position := position s + n\<rparr>)"
  using assms by (simp add: is_read_def Let_def)

lemma phc_read_entry:
  assumes "good f" and "contents f = file_of es" and "position f = 20 * i" and "i < length es"
  shows "phc_read p f = (True, set_entry p (es ! i), f\<lparr>position := 20 * Suc i\<rparr>)"
proof -
  let ?q = "quad_bytes (fst (es ! i))" and ?c = "le_bytes 4 (snd (es ! i))"
  let ?rest = "concat (map entry_bytes (drop (Suc i) es))"
  let ?f1 = "f\<lparr>position := position f + 16\<rparr>"
  have d: "drop (position f) (contents f) = ?q @ ?c @ ?rest"
    using assms by (simp add: file_of_def phc_file.drop_file_nth entry_bytes_def)
  then have r1: "is_read 16 f = (?q, ?f1)"
    using assms(1) by (intro is_read_prefix) auto
  have "drop (position f + 16) (contents f) = drop 16 (drop (position f) (contents f))"
    by (simp add: add.commute)
  then have "drop (position ?f1) (contents ?f1) = ?c @ ?rest"
    by (simp add: d)
  then have r2: "is_read 4 ?f1 = (?c, ?f1\<lparr>position := position ?f1 + 4\<rparr>)"
    using assms(1) by (intro is_read_prefix) (auto simp: good_def)
  show ?thesis
    by (simp add: phc_read_def r1 r2 set_entry_def) (simp add: assms(3))
qed

lemma phc_read_nothing:
  assumes "is_read 16 f = ([], f')"
  shows "phc_read p f = (False, p, f')"
  by (cases p; cases "phc_hash p") (simp add: phc_read_def assms)

lemma phc_read_eof:
  assumes "good f" and "contents f = file_of es" and "20 * length es \<le> position f"
  shows "phc_read p f = (False, p, f\<lparr>eofbit := True, failbit := True\<rparr>)"
  using assms by (intro phc_read_nothing is_read_at_end) auto

lemma phc_read_failed:
  assumes "\<not> good f"
  shows "phc_read p f = (False, p, f\<lparr>failbit := True\<rparr>)"
  using assms by (intro phc_read_nothing is_read_not_good)

text \<open>Random access by record number.\<close>

lemma phc_read_at_entry:
  assumes "reads f es" and "i < length es"
  shows "phc_read_at p f (20 * int i) =
    (True, set_entry p (es ! i), f\<lparr>eofbit := False, position := 20 * Suc i\<rparr>)"
proof -
  have s: "seekg (20 * int i) f = f\<lparr>eofbit := False, position := 20 * i\<rparr>"
    using assms(1) by (simp add: reads_def seekg_ok nat_mult_distrib)
  show ?thesis
    using assms by (simp add: phc_read_at_def s reads_def good_def fail_def phc_read_entry [where i = i and es = es])
qed

lemma phc_read_at_end:
  assumes "reads f es"
  shows "phc_read_at p f (20 * int (length es)) =
    (False, p, f\<lparr>position := 20 * length es, eofbit := True, failbit := True\<rparr>)"
proof -
  have s: "seekg (20 * int (length es)) f = f\<lparr>eofbit := False, position := 20 * length es\<rparr>"
    using assms by (simp add: reads_def seekg_ok nat_mult_distrib)
  show ?thesis
    using assms by (simp add: phc_read_at_def s reads_def good_def fail_def phc_read_eof [where es = es])
qed

lemma phc_read_at_failed:
  assumes "fail f"
  shows "phc_read_at p f pos = (False, p, f\<lparr>eofbit := False, failbit := True\<rparr>)"
  using assms by (simp add: phc_read_at_def seekg_fail phc_read_failed good_def)

lemma reads_step [simp]: "reads (f\<lparr>eofbit := b, position := k\<rparr>) es = reads f es"
  by (simp add: reads_def fail_def)

end
