(* ===== verification/Popcount.thy ===== *)
theory Popcount
  imports Util
begin

text \<open>
  \<^verbatim>\<open>popcnt64\<close> of \<^verbatim>\<open>pwned-lib/util.hpp\<close> counts the one bits of a word. The portable branch
  adds the bits of neighbouring fields, all fields at once; no carry crosses a byte, so each step
  can be followed byte by byte, on natural numbers written in base 256.
\<close>

section \<open>Numbers as bytes\<close>

primrec bytes_nat :: "nat list \<Rightarrow> nat" where
  "bytes_nat [] = 0"
| "bytes_nat (b # bs) = b + 256 * bytes_nat bs"

definition bytes_ok :: "nat list \<Rightarrow> bool" where
  "bytes_ok bs \<longleftrightarrow> (\<forall>b \<in> set bs. b < 256)"

lemma bytes_nat_surj: "X < 256 ^ k \<Longrightarrow> \<exists>bs. length bs = k \<and> bytes_ok bs \<and> X = bytes_nat bs"
proof (induction k arbitrary: X)
  case 0
  then show ?case by (intro exI [of _ "[]"]) (simp add: bytes_ok_def)
next
  case (Suc k)
  then have "X div 256 < 256 ^ k" by (simp add: less_mult_imp_div_less mult.commute)
  then obtain bs where "length bs = k" "bytes_ok bs" "X div 256 = bytes_nat bs" using Suc.IH by blast
  moreover from this(3) have "X = bytes_nat (X mod 256 # bs)"
    using mod_mult_div_eq [of X 256] by simp
  ultimately show ?case
    by (intro exI [of _ "X mod 256 # bs"] conjI) (simp_all add: bytes_ok_def)
qed

lemma low_bit: "x < 2 ^ w \<Longrightarrow> bit x n \<Longrightarrow> n < w" for x n :: nat
  using bit_take_bit_iff [of w x n] take_bit_nat_eq_self [of x w] by simp

lemma low_or: "x < 2 ^ w \<Longrightarrow> x + 2 ^ w * y = x OR push_bit w y" for x y :: nat
proof -
  assume x: "x < 2 ^ w"
  have "x AND push_bit w y = 0"
    by (rule bit_eqI) (use low_bit [OF x] in \<open>force simp: bit_and_iff bit_push_bit_iff\<close>)
  then have "x + push_bit w y = x OR push_bit w y" by (simp add: disjunctive_add_eq_or)
  then show ?thesis by (simp add: push_bit_eq_mult mult.commute)
qed

lemma and_le: "a AND c \<le> a" for a c :: nat
  using AND_upper1 [of "int a" "int c"] by (simp add: and_nat_def nat_le_iff)

lemma and_split:
  fixes a b c m :: nat
  assumes "a < 2 ^ w" and "c < 2 ^ w"
  shows "(a + 2 ^ w * b) AND (c + 2 ^ w * m) = (a AND c) + 2 ^ w * (b AND m)"
  unfolding low_or [OF assms(1)] low_or [OF assms(2)] low_or [OF order_le_less_trans [OF and_le assms(1)]]
  by (rule bit_eqI)
    (use low_bit [OF assms(1)] low_bit [OF assms(2)] in \<open>force simp: bit_and_iff bit_or_iff bit_push_bit_iff\<close>)

lemmas and_bytes = and_split [where w = 8, simplified]

section \<open>The steps of the algorithm\<close>

text \<open>The mask with the byte \<open>c\<close> in each of \<open>k\<close> bytes, and the three steps on \<open>k\<close> bytes.\<close>

primrec mask_bytes :: "nat \<Rightarrow> nat \<Rightarrow> nat" where
  "mask_bytes 0 c = 0"
| "mask_bytes (Suc k) c = c + 256 * mask_bytes k c"

definition step1 :: "nat \<Rightarrow> nat \<Rightarrow> nat" where
  "step1 k X = X - (X div 2 AND mask_bytes k 0x55)"

definition step2 :: "nat \<Rightarrow> nat \<Rightarrow> nat" where
  "step2 k X = (X AND mask_bytes k 0x33) + (X div 4 AND mask_bytes k 0x33)"

definition step3 :: "nat \<Rightarrow> nat \<Rightarrow> nat" where
  "step3 k X = (X + X div 16) AND mask_bytes k 0x0f"

text \<open>What a step does to one byte.\<close>

definition byte1 :: "nat \<Rightarrow> nat" where
  "byte1 b = b - (b div 2 AND 0x55)"

definition byte2 :: "nat \<Rightarrow> nat" where
  "byte2 b = (b AND 0x33) + (b div 4 AND 0x33)"

definition byte3 :: "nat \<Rightarrow> nat" where
  "byte3 b = (b + b div 16) mod 16"

definition byte_ones :: "nat \<Rightarrow> nat" where
  "byte_ones b = (\<Sum>i<8. of_bool (bit b i))"

lemma upt_from_0: "2 \<le> n \<Longrightarrow> [0 ..< n] = 0 # 1 # [2 ..< n]"
  by (simp add: upt_conv_Cons numeral_2_eq_2)

lemma byte_ones_bits: "byte_ones b = b mod 2 + b div 2 mod 2 + b div 4 mod 2 + b div 8 mod 2 +
    b div 16 mod 2 + b div 32 mod 2 + b div 64 mod 2 + b div 128 mod 2"
  by (simp add: byte_ones_def lessThan_nat_numeral lessThan_Suc bit_iff_odd mod2_eq_if)

lemma byte_steps:
  "list_all (\<lambda>b. byte1 b < 256 \<and> byte2 (byte1 b) \<le> 68 \<and> byte2 (byte1 b) mod 16 \<le> 4 \<and>
    byte3 (byte2 (byte1 b)) = byte_ones b \<and> byte_ones b \<le> 8) [0 ..< 256]"
  unfolding byte1_def byte2_def byte3_def byte_ones_bits
  by (subst upt_from_0) (simp_all add: upt_rec_numeral)

lemma byte_step:
  assumes "b < 256"
  shows "byte1 b < 256" "byte2 (byte1 b) \<le> 68" "byte2 (byte1 b) mod 16 \<le> 4"
    "byte3 (byte2 (byte1 b)) = byte_ones b" "byte_ones b \<le> 8"
  using byte_steps assms by (simp_all add: list_all_iff)

section \<open>No carry crosses a byte\<close>

lemma div_byte:
  fixes b y d c :: nat
  assumes "0 < d"
  shows "(b + d * c * y) div d = (b div d + c * (y mod d)) + d * c * (y div d)"
proof -
  have "(b + d * c * y) div d = c * y + b div d"
    using assms by (simp add: mult.assoc)
  moreover have "c * y = c * (y mod d + d * (y div d))" by simp
  moreover have "\<dots> = c * (y mod d) + d * c * (y div d)" by (simp only: distrib_left ac_simps)
  ultimately show ?thesis by (simp only: ac_simps)
qed

lemmas half_byte = div_byte [of 2 _ "2 ^ 7", simplified]
lemmas quarter_byte = div_byte [of 4 _ "2 ^ 6", simplified]
lemmas nibble_byte = div_byte [of 16 _ "2 ^ 4", simplified]

lemma step1_bytes:
  assumes "b < 256"
  shows "step1 (Suc k) (b + 256 * y) = byte1 b + 256 * step1 k y"
proof -
  have l: "(b div 2 + 2 ^ 7 * (y mod 2)) AND 0x55 = b div 2 AND 0x55"
    by (subst and_split [where m = 0 and c = "0x55", simplified]) (use assms in auto)
  have "b div 2 + 2 ^ 7 * (y mod 2) < 256" using assms by simp
  then have "(b + 256 * y) div 2 AND mask_bytes (Suc k) 0x55 =
      (b div 2 AND 0x55) + 256 * (y div 2 AND mask_bytes k 0x55)"
    unfolding half_byte mask_bytes.simps by (subst and_bytes) (simp_all add: l [simplified])
  moreover have "b div 2 AND 0x55 \<le> b" "y div 2 AND mask_bytes k 0x55 \<le> y"
    by (rule order_trans [OF and_le], simp)+
  moreover have "x + 256 * z - (p + 256 * q) = (x - p) + 256 * (z - q)" if "p \<le> x" "q \<le> z" for x z p q :: nat
    using that by simp
  ultimately show ?thesis by (simp only: step1_def byte1_def)
qed

lemma step2_bytes:
  assumes "b < 256"
  shows "step2 (Suc k) (b + 256 * y) = byte2 b + 256 * step2 k y"
proof -
  have l: "(b div 4 + 2 ^ 6 * (y mod 4)) AND 0x33 = b div 4 AND 0x33"
    using and_split [of "b div 4" 6 "0x33" "y mod 4" 0] assms by simp
  have "b div 4 + 2 ^ 6 * (y mod 4) < 256" using assms by simp
  then have "(b + 256 * y) div 4 AND mask_bytes (Suc k) 0x33 =
      (b div 4 AND 0x33) + 256 * (y div 4 AND mask_bytes k 0x33)"
    unfolding quarter_byte mask_bytes.simps by (subst and_bytes) (simp_all add: l [simplified])
  moreover have "(b + 256 * y) AND mask_bytes (Suc k) 0x33 = (b AND 0x33) + 256 * (y AND mask_bytes k 0x33)"
    using assms by (simp add: and_bytes)
  ultimately show ?thesis by (simp add: step2_def byte2_def)
qed

lemma step3_bytes:
  assumes "b \<le> 68" and "y mod 16 \<le> 4"
  shows "step3 (Suc k) (b + 256 * y) = byte3 b + 256 * step3 k y"
proof -
  let ?l = "(b + b div 16) + 2 ^ 4 * (y mod 16)"
  have m: "?l mod 16 = byte3 b" by (simp add: byte3_def)
  have "?l AND 0x0f = take_bit 4 ?l" by (simp add: take_bit_eq_mask mask_eq_exp_minus_1)
  also have "\<dots> = byte3 b" using m by (simp only: take_bit_eq_mod) simp
  finally have l: "?l AND 0x0f = byte3 b" .
  have small: "?l < 256" using assms by simp
  have "b + 256 * y + (b + 256 * y) div 16 = ?l + 256 * (y + y div 16)"
    unfolding nibble_byte by simp
  moreover have "(?l + 256 * (y + y div 16)) AND (0x0f + 256 * mask_bytes k 0x0f) =
      (?l AND 0x0f) + 256 * ((y + y div 16) AND mask_bytes k 0x0f)"
    using small by (intro and_bytes) simp_all
  ultimately show ?thesis
    unfolding step3_def mask_bytes.simps by (simp only: l)
qed

lemma bytes_nat_mod: "bytes_nat bs mod 16 = (case bs of [] \<Rightarrow> 0 | b # _ \<Rightarrow> b mod 16)"
proof (cases bs)
  case (Cons b bs')
  have "(b + 16 * (16 * bytes_nat bs')) mod 16 = b mod 16" by (rule mod_mult_self2)
  then show ?thesis using Cons by simp
qed simp

lemma low_nibble:
  assumes "bytes_ok bs"
  shows "bytes_nat (map (\<lambda>b. byte2 (byte1 b)) bs) mod 16 \<le> 4"
  using assms by (cases bs) (simp_all add: bytes_nat_mod bytes_ok_def byte_step del: bytes_nat.simps)

lemma steps_0 [simp]: "step1 0 0 = 0" "step2 0 0 = 0" "step3 0 0 = 0"
  by (simp_all add: step1_def step2_def step3_def)

lemma step1_all: "bytes_ok bs \<Longrightarrow> step1 (length bs) (bytes_nat bs) = bytes_nat (map byte1 bs)"
  by (induction bs) (auto simp: step1_bytes bytes_ok_def)

lemma step2_all:
  "bytes_ok bs \<Longrightarrow> step2 (length bs) (bytes_nat (map byte1 bs)) = bytes_nat (map (\<lambda>b. byte2 (byte1 b)) bs)"
  by (induction bs) (auto simp: step2_bytes bytes_ok_def byte_step)

lemma step3_all:
  "bytes_ok bs \<Longrightarrow> step3 (length bs) (bytes_nat (map (\<lambda>b. byte2 (byte1 b)) bs)) = bytes_nat (map byte_ones bs)"
proof (induction bs)
  case (Cons b bs)
  then have "b < 256" "bytes_ok bs" by (simp_all add: bytes_ok_def)
  then show ?case using Cons.IH low_nibble by (simp add: step3_bytes byte_step)
qed simp

section \<open>The sum of the bytes\<close>

lemma div_low: "l < m \<Longrightarrow> (l + m * t) div m = t" for l m t :: nat
  by simp

lemma sum_of_bytes:
  assumes "length cs = 8" and "\<forall>c \<in> set cs. c \<le> 8"
  shows "bytes_nat cs * 0x0101010101010101 mod 2 ^ 64 div 2 ^ 56 = sum_list cs"
proof -
  from assms(1) obtain a b c d e f g h where cs: "cs = [a, b, c, d, e, f, g, h]"
    by (auto simp: length_Suc_conv eval_nat_numeral)
  let ?sums = "[a, a + b, a + b + c, a + b + c + d, a + b + c + d + e, a + b + c + d + e + f,
      a + b + c + d + e + f + g, a + b + c + d + e + f + g + h]"
  let ?high = "bytes_nat [b + c + d + e + f + g + h, c + d + e + f + g + h, d + e + f + g + h,
      e + f + g + h, f + g + h, g + h, h]"
  let ?low = "bytes_nat (take 7 ?sums)" and ?total = "a + b + c + d + e + f + g + h"
  have prod: "bytes_nat cs * 0x0101010101010101 = (?low + 2 ^ 56 * ?total) + 2 ^ 64 * ?high"
    by (simp add: cs)
  have le: "a \<le> 8" "b \<le> 8" "c \<le> 8" "d \<le> 8" "e \<le> 8" "f \<le> 8" "g \<le> 8" "h \<le> 8"
    using assms(2) cs by simp_all
  then have low: "?low < 2 ^ 56" by simp
  have "?total \<le> 64" using le by simp
  then have "?low + 2 ^ 56 * ?total < 2 ^ 64" using low by simp
  then have "bytes_nat cs * 0x0101010101010101 mod 2 ^ 64 = ?low + 2 ^ 56 * ?total"
    unfolding prod by (simp only: mod_mult_self2 mod_less)
  moreover have "(?low + 2 ^ 56 * ?total) div 2 ^ 56 = ?total"
    by (rule div_low [OF low])
  ultimately show ?thesis by (simp only: cs sum_list.Cons sum_list.Nil add_0_right add.assoc)
qed

lemma sum_split: "(\<Sum>i<m + n. f i) = (\<Sum>i<m. f i) + (\<Sum>i<n. f (m + i))" for f :: "nat \<Rightarrow> nat"
  by (induction n) simp_all

lemma sum_byte_ones:
  "bytes_ok bs \<Longrightarrow> sum_list (map byte_ones bs) = (\<Sum>i<8 * length bs. of_bool (bit (bytes_nat bs) i))"
proof (induction bs)
  case (Cons b bs)
  then have b: "b < 2 ^ 8" and bs: "bytes_ok bs" by (simp_all add: bytes_ok_def)
  have e: "bytes_nat (b # bs) = b OR push_bit 8 (bytes_nat bs)"
    using low_or [OF b, of "bytes_nat bs"] by simp
  have "(\<Sum>i<8. of_bool (bit (bytes_nat (b # bs)) i)) = byte_ones b"
    unfolding e byte_ones_def by (intro sum.cong) (auto simp: bit_or_iff bit_push_bit_iff)
  moreover have "bit (bytes_nat (b # bs)) (8 + i) = bit (bytes_nat bs) i" for i
    unfolding e using low_bit [OF b, of "8 + i"] by (auto simp: bit_or_iff bit_push_bit_iff)
  ultimately show ?case
    using Cons.IH [OF bs] sum_split [of "\<lambda>i. of_bool (bit (bytes_nat (b # bs)) i)" 8 "8 * length bs"]
    by (simp del: bytes_nat.simps)
qed simp

section \<open>The word algorithm\<close>

lemma bytes_nat_le: "\<forall>b \<in> set bs. b \<le> m \<Longrightarrow> bytes_nat bs \<le> mask_bytes (length bs) m"
  by (induction bs) auto

lemma mask_bytes_numeral: "mask_bytes (numeral k) c = c + 256 * mask_bytes (pred_numeral k) c"
  by (simp only: numeral_eq_Suc mask_bytes.simps)

lemma masks:
  "mask_bytes 8 0x55 = 0x5555555555555555" "mask_bytes 8 0x33 = 0x3333333333333333"
  "mask_bytes 8 0x0f = 0x0f0f0f0f0f0f0f0f" "mask_bytes 8 68 = 0x4444444444444444" "mask_bytes 8 8 = 0x0808080808080808"
  by (simp_all add: mask_bytes_numeral)

lemma unat_drop: "unat (drop_bit n x) = unat x div 2 ^ n"
  by (simp only: unat_drop_bit_eq drop_bit_eq_div [where ?'a = nat])

lemma unat_and: "unat (x AND y) = unat x AND unat y"
  by (rule unsigned_and_eq)

lemma unat_step1: "unat (x - (drop_bit 1 x AND 0x5555555555555555)) = step1 8 (unat x)" for x :: u64
proof -
  have m: "unat (drop_bit 1 x AND 0x5555555555555555) = unat x div 2 AND mask_bytes 8 0x55"
    by (simp only: unat_and unat_drop masks) simp
  moreover have "unat x div 2 AND mask_bytes 8 0x55 \<le> unat x"
    by (rule order_trans [OF and_le]) simp
  ultimately show ?thesis by (simp only: step1_def m unat_sub word_le_nat_alt)
qed

lemma unat_step2:
  fixes x :: u64
  assumes "step2 8 (unat x) < 2 ^ 64"
  shows "unat ((x AND 0x3333333333333333) + (drop_bit 2 x AND 0x3333333333333333)) = step2 8 (unat x)"
proof -
  have m: "unat (x AND 0x3333333333333333) = unat x AND mask_bytes 8 0x33"
    "unat (drop_bit 2 x AND 0x3333333333333333) = unat x div 4 AND mask_bytes 8 0x33"
    by (simp_all only: unat_and unat_drop masks) simp_all
  show ?thesis
    using assms unfolding unat_word_ariths(1) m step2_def by simp
qed

lemma unat_step3:
  fixes x :: u64
  assumes "unat x + unat x div 16 < 2 ^ 64"
  shows "unat ((x + drop_bit 4 x) AND 0x0f0f0f0f0f0f0f0f) = step3 8 (unat x)"
proof -
  have "unat (x + drop_bit 4 x) = unat x + unat x div 16"
    using assms unfolding unat_word_ariths(1) unat_drop by simp
  then show ?thesis by (simp only: unat_and step3_def masks) simp
qed

lemma popcnt64_ones: "popcnt64 x = card {i. i < 64 \<and> bit x i}"
proof -
  obtain bs where bs: "length bs = 8" "bytes_ok bs" "unat x = bytes_nat bs"
    using bytes_nat_surj [of "unat x" 8] unsigned_less [of x] by auto
  have b: "b < 256" if "b \<in> set bs" for b using bs(2) that by (simp add: bytes_ok_def)
  define x1 where "x1 = x - (drop_bit 1 x AND 0x5555555555555555)"
  define x2 where "x2 = (x1 AND 0x3333333333333333) + (drop_bit 2 x1 AND 0x3333333333333333)"
  define x3 where "x3 = (x2 + drop_bit 4 x2) AND 0x0f0f0f0f0f0f0f0f"
  have x1: "unat x1 = bytes_nat (map byte1 bs)"
    using step1_all [OF bs(2)] by (simp only: x1_def unat_step1 bs)
  have s2: "step2 8 (unat x1) = bytes_nat (map (\<lambda>b. byte2 (byte1 b)) bs)"
    using step2_all [OF bs(2)] by (simp only: x1 bs)
  have le2: "bytes_nat (map (\<lambda>b. byte2 (byte1 b)) bs) \<le> 0x4444444444444444"
    using bytes_nat_le [of "map (\<lambda>b. byte2 (byte1 b)) bs" 68] b bs(1) byte_step(2) by (simp add: masks)
  then have x2: "unat x2 = bytes_nat (map (\<lambda>b. byte2 (byte1 b)) bs)"
    using unat_step2 [of x1] s2 by (simp add: x2_def)
  have "unat x2 + unat x2 div 16 < 2 ^ 64" using le2 unfolding x2 [symmetric] by simp
  from unat_step3 [OF this] have x3: "unat x3 = bytes_nat (map byte_ones bs)"
    using step3_all [OF bs(2)] by (simp only: x3_def x2 bs)
  have "popcnt64 x = unat (drop_bit 56 (x3 * 0x0101010101010101))"
    by (simp only: popcnt64_def Let_def x1_def x2_def x3_def)
  also have "\<dots> = bytes_nat (map byte_ones bs) * 0x0101010101010101 mod 2 ^ 64 div 2 ^ 56"
    unfolding unat_drop unat_word_ariths(2) x3 by simp
  also have "\<dots> = sum_list (map byte_ones bs)"
    by (rule sum_of_bytes) (use bs(1) b byte_step(5) in auto)
  also have "\<dots> = (\<Sum>i<64. of_bool (bit (unat x) i))"
    using sum_byte_ones [OF bs(2)] bs(1,3) by simp
  also have "\<dots> = card {i. i < 64 \<and> bit x i}"
    by (simp add: sum.If_cases of_bool_def Int_def bit_unsigned_iff)
  finally show ?thesis .
qed

text \<open>The number of address bits of a table of \<open>2 ^ k\<close> keys.\<close>

lemma popcnt64_mask: "k \<le> 64 \<Longrightarrow> popcnt64 (2 ^ k - 1) = k"
proof -
  assume k: "k \<le> 64"
  have "{i. i < 64 \<and> bit (mask k :: u64) i} = {..<k}" using k by (auto simp: bit_mask_iff)
  then show ?thesis by (simp add: popcnt64_ones mask_eq_exp_minus_1 [symmetric])
qed

section \<open>Property\<close>

text \<open>
  C23: The portable population count, done with sums of neighbouring bit fields and one
  multiplication, is the number of bits set in the word.
\<close>

theorem popcnt64_counts_bits: "popcnt64 x = card {i. i < 64 \<and> bit x i}"
  by (rule popcnt64_ones)

end
