(* ===== verification/Inspector.thy ===== *)
theory Inspector
  imports Phc Popcount
begin

text \<open>
  \<^verbatim>\<open>pwned-lib/passwordinspector.cpp\<close>: looking a hash up in a sorted MD5:count file by binary
  search on the file, optionally narrowed by an index of bucket positions.

  The inspector keeps its streams between calls, so their error bits are part of its state. A
  lookup that does not return (the index loops can run forever) is \<open>None\<close>; the third component
  of a result is the number of reads the code reports through \<^verbatim>\<open>readCount\<close>.
\<close>

record inspector =
  mInputFile :: "u8 istream"
  mIndexFile :: "u8 istream"
  mFileSize :: int
  mShift :: nat
  mPHC :: phc

definition newInspector :: inspector where
  "newInspector = \<lparr>mInputFile = closed_stream, mIndexFile = closed_stream, mFileSize = 0, mShift = 0, mPHC = emptyPHC\<rparr>"

section \<open>Opening\<close>

text \<open>
  The file system is a map from names to contents and whether the file can be opened for reading.
  \<^verbatim>\<open>fs::file_size\<close> throws for a file that does not exist (\<open>Inl\<close>).
\<close>

type_synonym files = "string \<rightharpoonup> u8 list \<times> bool"

datatype fs_error = NoSuchFile string

definition open_ifstream :: "u8 list \<times> bool \<Rightarrow> u8 istream" where
  "open_ifstream e = (if snd e then open_stream (fst e) else failed_open)"

definition inspector_open :: "files \<Rightarrow> inspector \<Rightarrow> string \<Rightarrow> fs_error + (bool \<times> inspector)" where
  "inspector_open fs d filename =
     (case fs filename of
        None \<Rightarrow> Inl (NoSuchFile filename)
      | Some e \<Rightarrow>
          let d = d\<lparr>mFileSize := int (length (fst e)), mInputFile := open_ifstream e\<rparr>
          in Inr (opened (mInputFile d), d))"

definition inspector_open_index ::
  "files \<Rightarrow> inspector \<Rightarrow> string \<Rightarrow> string \<Rightarrow> fs_error + (bool \<times> inspector)" where
  "inspector_open_index fs d inputFilename indexFilename =
     (case inspector_open fs d inputFilename of
        Inl e \<Rightarrow> Inl e
      | Inr (ok, d) \<Rightarrow>
          if indexFilename = [] then Inr (ok, d)
          else case fs indexFilename of
                 None \<Rightarrow> Inl (NoSuchFile indexFilename)
               | Some e \<Rightarrow>
                   let nKeys = word_of_nat (length (fst e) div 8) :: u64;
                       d = d\<lparr>mShift := 8 * 8 - popcnt64 (nKeys - 1), mIndexFile := open_ifstream e\<rparr>
                   in Inr (ok \<and> opened (mIndexFile d), d))"

definition inspector_isOpen :: "inspector \<Rightarrow> bool" where
  "inspector_isOpen d = opened (mInputFile d)"

definition inspector_size :: "inspector \<Rightarrow> int" where
  "inspector_size d = mFileSize d div phc_size"

section \<open>The index loops\<close>

text \<open>\<^verbatim>\<open>mIndexFile.read(reinterpret_cast<char*>(\&lo), sizeof(index_key_t))\<close>.\<close>

definition read_off :: "int \<Rightarrow> u8 istream \<Rightarrow> int \<times> u8 istream" where
  "read_off v f =
     (let (got, f') = is_read 8 f
      in (sint (le_word (overwrite (le_bytes 8 (word_of_int v :: u64)) got) :: u64), f'))"

text \<open>The two \<^verbatim>\<open>do ... while\<close> loops, downwards for \<^verbatim>\<open>lo\<close> and upwards for \<^verbatim>\<open>hi\<close>; an
  empty slot of the index holds all ones, -1 as a signed offset.\<close>

partial_function (option) index_scan ::
  "int \<Rightarrow> int \<Rightarrow> int \<Rightarrow> u8 istream \<Rightarrow> nat \<Rightarrow> (int \<times> u8 istream \<times> nat) option" where
  "index_scan step v at f n =
     (let r = read_off v (seekg at f)
      in if fst r = - 1 then index_scan step (fst r) (to_s64 (at + step)) (snd r) (Suc n)
         else Some (fst r, snd r, Suc n))"

section \<open>The search loop\<close>

definition search_pos :: "int \<Rightarrow> int \<Rightarrow> int" where
  "search_pos lo hi =
     (let pos = to_u64 (to_u64 lo + to_u64 hi) div 2;
          pos = pos - pos mod phc_size
      in max 0 pos)"

partial_function (option) search_loop ::
  "hash \<Rightarrow> int \<Rightarrow> int \<Rightarrow> nat \<Rightarrow> phc \<Rightarrow> u8 istream \<Rightarrow> (phc \<times> nat \<times> u8 istream) option" where
  "search_loop h lo hi n p f =
     (if lo \<le> hi
      then let pos = search_pos lo hi;
               r = phc_read_at p f pos;
               p' = fst (snd r); f' = snd (snd r)
           in if hash_gt h (phc_hash p') then search_loop h (pos + phc_size) hi (Suc n) p' f'
              else if hash_lt h (phc_hash p') then search_loop h lo (pos - phc_size) (Suc n) p' f'
              else Some (p', Suc n, f')
      else Some (p\<lparr>phc_count := 0\<rparr>, n, f))"

definition index_offset :: "inspector \<Rightarrow> hash \<Rightarrow> int" where
  "index_offset d h = sint (drop_bit (mShift d) (upper (quad h)) * 8)"

text \<open>The bounds the search starts from, the index stream and the reads so far.\<close>

definition search_bounds :: "inspector \<Rightarrow> hash \<Rightarrow> (int \<times> int \<times> u8 istream \<times> nat) option" where
  "search_bounds d h =
     (if opened (mIndexFile d)
      then let idx = index_offset d h
           in case index_scan (- 8) 0 idx (mIndexFile d) 0 of
                None \<Rightarrow> None
              | Some (lo, f1, n1) \<Rightarrow>
                  (case index_scan 8 (mFileSize d) (to_s64 (idx + 8)) f1 n1 of
                     None \<Rightarrow> None
                   | Some (hi, f2, n2) \<Rightarrow> Some (lo, hi, f2, n2))
      else Some (0, mFileSize d, mIndexFile d, 0))"

definition binsearch :: "inspector \<Rightarrow> hash \<Rightarrow> (phc \<times> nat \<times> inspector) option" where
  "binsearch d h =
     (case search_bounds d h of
        None \<Rightarrow> None
      | Some (lo, hi, fi, n) \<Rightarrow>
          (case search_loop h lo hi n emptyPHC (mInputFile d) of
             None \<Rightarrow> None
           | Some (p, n', f) \<Rightarrow> Some (p, n', d\<lparr>mInputFile := f, mIndexFile := fi\<rparr>)))"

definition lookup :: "(string \<Rightarrow> u8 list) \<Rightarrow> inspector \<Rightarrow> string \<Rightarrow> (phc \<times> nat \<times> inspector) option" where
  "lookup md5 d pwd = binsearch d (hash_of_string md5 pwd)"

section \<open>The interpolating search\<close>

text \<open>
  \<^verbatim>\<open>smart_binsearch\<close>: \<open>hit\<close> is \<^verbatim>\<open>std::llround(float(mFileSize) * float(upper) / MaxUInt64)\<close>,
  an argument here because it is the result of single-precision arithmetic. C's remainder
  truncates towards zero. The loops move both ends of a window around the estimate; the code then
  calls \<^verbatim>\<open>binsearch\<close>, which does not use the window.
\<close>

definition c_rem :: "int \<Rightarrow> int \<Rightarrow> int" where
  "c_rem a b = sgn a * (\<bar>a\<bar> mod \<bar>b\<bar>)"

partial_function (option) smart_down ::
  "hash \<Rightarrow> int \<Rightarrow> int \<Rightarrow> hash \<Rightarrow> u8 istream \<Rightarrow> nat \<Rightarrow> (int \<times> u8 istream \<times> nat) option" where
  "smart_down h lo off h0 f n =
     (if hash_lt h h0 \<and> lo \<ge> off
      then let r = hash_read_at h0 f (lo - off)
           in smart_down h (lo - off) (off * 2) (fst (snd r)) (snd (snd r)) (Suc n)
      else Some (lo, f, n))"

partial_function (option) smart_up ::
  "int \<Rightarrow> hash \<Rightarrow> int \<Rightarrow> int \<Rightarrow> hash \<Rightarrow> u8 istream \<Rightarrow> nat \<Rightarrow> (int \<times> u8 istream \<times> nat) option" where
  "smart_up fileSize h hi off h1 f n =
     (if hash_gt h h1 \<and> hi \<le> fileSize - off - phc_size
      then let r = hash_read_at h1 f (hi + off)
           in smart_up fileSize h (hi + off) (off * 2) (fst (snd r)) (snd (snd r)) (Suc n)
      else Some (hi, f, n))"

definition smart_binsearch :: "int \<Rightarrow> inspector \<Rightarrow> hash \<Rightarrow> (phc \<times> nat \<times> inspector) option" where
  "smart_binsearch hit d h =
     (let potentialHitIdx = hit - c_rem hit phc_size;
          offset = max (mFileSize d div 2 ^ 12) phc_size;
          offset = offset - offset mod phc_size;
          lo = max 0 (potentialHitIdx - offset);
          hi = min (mFileSize d - phc_size) (potentialHitIdx + offset);
          r0 = hash_read_at emptyHash (mInputFile d) lo
      in case smart_down h lo offset (fst (snd r0)) (snd (snd r0)) 1 of
           None \<Rightarrow> None
         | Some (lo', f1, n1) \<Rightarrow>
             let r1 = hash_read_at emptyHash f1 hi
             in case smart_up (mFileSize d) h hi offset (fst (snd r1)) (snd (snd r1)) (Suc n1) of
                  None \<Rightarrow> None
                | Some (hi', f2, n2) \<Rightarrow>
                    (case binsearch (d\<lparr>mInputFile := f2\<rparr>) h of
                       None \<Rightarrow> None
                     | Some (p, n3, d') \<Rightarrow> Some (p, n2 + n3, d')))"

end
