(* ===== verification/Search.thy ===== *)
theory Search
  imports Inspector
begin

text \<open>
  The binary search of \<^verbatim>\<open>PasswordInspector::binsearch\<close> on a well-formed file: it returns, it
  finds a hash exactly when the file holds it, the number of reads is logarithmic, and what it
  leaves the stream in. The offsets are multiples of the record size, so the lemmas speak of
  record numbers \<open>a\<close> and \<open>b\<close>.
\<close>

section \<open>Positions\<close>

lemma search_pos_bounds:
  assumes "0 \<le> lo" and "lo \<le> hi" and "hi < 2 ^ 63"
  shows "lo - 20 < search_pos lo hi" and "search_pos lo hi \<le> hi" and "0 \<le> search_pos lo hi"
proof -
  have m: "to_u64 (to_u64 lo + to_u64 hi) div 2 = (lo + hi) div 2"
    using assms by simp
  let ?m = "(lo + hi) div 2"
  have "lo \<le> ?m" and "?m \<le> hi" and "0 \<le> ?m" using assms by auto
  moreover have "0 \<le> ?m mod 20" and "?m mod 20 < 20" and "?m mod 20 \<le> ?m"
    using \<open>0 \<le> ?m\<close> by (simp_all add: zmod_le_nonneg_dividend)
  ultimately show "lo - 20 < search_pos lo hi" and "search_pos lo hi \<le> hi" and "0 \<le> search_pos lo hi"
    by (simp_all add: search_pos_def m phc_size_def Let_def)
qed

lemma search_pos_records:
  assumes "0 \<le> a" and "a \<le> b" and "20 * b < 2 ^ 63"
  shows "search_pos (20 * a) (20 * b) = 20 * ((a + b) div 2)"
proof -
  have m: "to_u64 (to_u64 (20 * a) + to_u64 (20 * b)) div 2 = 10 * (a + b)"
    using assms by simp
  have "10 * (a + b) mod 20 = 10 * ((a + b) mod 2)"
    using mult_mod_right [of 10 "a + b" 2] by simp
  then have "10 * (a + b) - 10 * (a + b) mod 20 = 10 * (a + b - (a + b) mod 2)"
    by (simp only: right_diff_distrib)
  also have "\<dots> = 20 * ((a + b) div 2)"
    by (simp add: minus_mod_eq_mult_div)
  finally have "10 * (a + b) - 10 * (a + b) mod 20 = 20 * ((a + b) div 2)" .
  then show ?thesis
    using assms by (simp add: search_pos_def m phc_size_def Let_def)
qed

text \<open>One iteration, once the position and the outcome of the read are known.\<close>

lemma search_loop_step:
  assumes "lo \<le> hi" and "search_pos lo hi = pos" and "phc_read_at p f pos = (ok, p1, f1)"
  shows "search_loop h lo hi n p f =
    (if quad (phc_hash p1) < quad h then search_loop h (pos + 20) hi (Suc n) p1 f1
     else if quad h < quad (phc_hash p1) then search_loop h lo (pos - 20) (Suc n) p1 f1
     else Some (p1, Suc n, f1))"
  by (subst search_loop.simps) (simp add: assms Let_def phc_size_def)

lemma search_loop_done: "hi < lo \<Longrightarrow> search_loop h lo hi n p f = Some (p\<lparr>phc_count := 0\<rparr>, n, f)"
  by (subst search_loop.simps) simp

lemma records_step: "20 * m + 20 = 20 * (m + 1)" "20 * m - 20 = 20 * (m - (1 :: int))"
  by simp_all

section \<open>Termination\<close>

text \<open>From bounds that are not negative the loop returns, whatever the stream delivers.\<close>

lemma search_loop_returns:
  assumes "0 \<le> lo" and "hi < 2 ^ 63"
  shows "\<exists>r. search_loop h lo hi n p f = Some r"
  using assms
proof (induction "nat (hi - lo + 1)" arbitrary: lo hi n p f rule: less_induct)
  case less
  show ?case
  proof (cases "lo \<le> hi")
    case False
    then show ?thesis by (simp add: search_loop_done)
  next
    case True
    note pos = search_pos_bounds [OF less.prems(1) True less.prems(2)]
    have up: "\<exists>r. search_loop h (search_pos lo hi + phc_size) hi n p f = Some r" for n p f
      by (rule less.hyps) (use True pos less.prems in \<open>auto simp: phc_size_def\<close>)
    have down: "\<exists>r. search_loop h lo (search_pos lo hi - phc_size) n p f = Some r" for n p f
      by (rule less.hyps) (use True pos less.prems in \<open>auto simp: phc_size_def\<close>)
    show ?thesis
      using True up down by (subst search_loop.simps) (simp add: Let_def)
  qed
qed

text \<open>The number of reads: at most one more than the binary logarithm of the number of records
  in the range.\<close>

lemma search_loop_reads:
  assumes "0 \<le> a" and "a \<le> b" and "20 * b < 2 ^ 63"
    and "search_loop h (20 * a) (20 * b) n p f = Some (p', n', f')"
  shows "n < n' \<and> 2 ^ (n' - n) \<le> 2 * (b - a + 1)"
  using assms
proof (induction "nat (b - a + 1)" arbitrary: a b n p f rule: less_induct)
  case less
  let ?m = "(a + b) div 2"
  obtain ok p1 f1 where r: "phc_read_at p f (20 * ?m) = (ok, p1, f1)" by (cases "phc_read_at p f (20 * ?m)")
  have le: "20 * a \<le> 20 * b" using less.prems(2) by simp
  have pos: "search_pos (20 * a) (20 * b) = 20 * ?m"
    using less.prems by (intro search_pos_records)
  note eq = less.prems(4) [unfolded search_loop_step [OF le pos r] records_step]
  have step: "n < n' \<and> 2 ^ (n' - n) \<le> 2 * (b - a + 1)"
    if s: "search_loop h (20 * a') (20 * b') (Suc n) p1 f1 = Some (p', n', f')"
      and b: "0 \<le> a'" "20 * b' < 2 ^ 63" and half: "2 * (b' - a' + 1) \<le> b - a + 1" and w: "a' \<le> b' + 1" for a' b'
  proof (cases "a' \<le> b'")
    case True
    have small: "nat (b' - a' + 1) < nat (b - a + 1)" unfolding zless_nat_conj using half True by (intro conjI) presburger+
    have IH: "Suc n < n' \<and> 2 ^ (n' - Suc n) \<le> 2 * (b' - a' + 1)"
      by (rule less.hyps [OF small b(1) True b(2) s])
    then have "Suc (Suc n) \<le> n'" by simp
    then obtain k where "n' = Suc (Suc n) + k" using le_Suc_ex by blast
    then have k: "n' = Suc (Suc (n + k))" by simp
    with IH have "2 ^ Suc k \<le> 2 * (b' - a' + 1)" by (simp add: Suc_diff_le)
    with half have "2 ^ Suc (Suc k) \<le> 2 * (b - a + 1)" by simp
    then show ?thesis by (simp add: k Suc_diff_le)
  next
    case False
    with s have "n' = Suc n" by (simp add: search_loop_done)
    then show ?thesis using less.prems(2) by simp
  qed
  have m: "2 * ?m \<le> a + b" "a + b \<le> 2 * ?m + 1" by presburger+
  have up: "0 \<le> ?m + 1 \<and> 20 * b < 2 ^ 63 \<and> 2 * (b - (?m + 1) + 1) \<le> b - a + 1 \<and> ?m + 1 \<le> b + 1"
    using m less.prems(1-3) by (intro conjI) (assumption | presburger)+
  have down: "2 * (?m - 1 - a + 1) \<le> b - a + 1 \<and> a \<le> ?m - 1 + 1 \<and> ?m - 1 \<le> b"
    using m less.prems(1-2) by (intro conjI) presburger+
  consider "quad (phc_hash p1) < quad h" | "quad h < quad (phc_hash p1)" | "quad h = quad (phc_hash p1)"
    by fastforce
  then show ?case
  proof cases
    case 1
    with eq have "search_loop h (20 * (?m + 1)) (20 * b) (Suc n) p1 f1 = Some (p', n', f')" by simp
    then show ?thesis by (rule step) (use up in blast)+
  next
    case 2
    with eq have "search_loop h (20 * a) (20 * (?m - 1)) (Suc n) p1 f1 = Some (p', n', f')"
      using order_less_not_sym [OF 2] by (simp only: if_True if_False)
    moreover have "20 * (?m - 1) \<le> 20 * b" using down by (intro mult_left_mono) auto
    then have "20 * (?m - 1) < 2 ^ 63" using less.prems(3) by (rule order_le_less_trans)
    ultimately show ?thesis using less.prems(1) down by (intro step [of a "?m - 1"]) blast+
  next
    case 3
    with eq have "n' = Suc n" by simp
    then show ?thesis using less.prems(2) by simp
  qed
qed

section \<open>Correctness\<close>

text \<open>
  \<open>between es q a b\<close>: the entries before record \<open>a\<close> are smaller than \<open>q\<close>, those after
  record \<open>b\<close> are greater.
\<close>

definition between :: "entry list \<Rightarrow> quad \<Rightarrow> int \<Rightarrow> int \<Rightarrow> bool" where
  "between es q a b \<longleftrightarrow>
     (\<forall>i < length es. int i < a \<longrightarrow> fst (es ! i) < q) \<and>
     (\<forall>i < length es. b < int i \<longrightarrow> q < fst (es ! i))"

definition sorted_file :: "entry list \<Rightarrow> bool" where
  "sorted_file es \<longleftrightarrow> sorted (map fst es)"

lemma sorted_file_nth: "sorted_file es \<Longrightarrow> i \<le> j \<Longrightarrow> j < length es \<Longrightarrow> fst (es ! i) \<le> fst (es ! j)"
  by (auto simp: sorted_file_def sorted_iff_nth_mono)

text \<open>What a finished search has found, and the state of the stream it leaves.\<close>

definition found :: "entry list \<Rightarrow> quad \<Rightarrow> phc \<Rightarrow> bool" where
  "found es q p \<longleftrightarrow>
     (if q \<in> fst ` set es then quad (phc_hash p) = q \<and> (q, phc_count p) \<in> set es
      else phc_count p = 0)"

lemma between_none:
  assumes "between es q a b" and "b < a"
  shows "q \<notin> fst ` set es"
  using assms by (fastforce simp: between_def in_set_conv_nth)

lemma search_loop_failed:
  assumes "fail f" and "search_loop h lo hi n p f = Some (p', n', f')"
  shows "fail f' \<and> (phc_count p' = 0 \<or> p' = p)"
proof -
  have "fail f \<longrightarrow> fail (snd (snd r)) \<and> (phc_count (fst r) = 0 \<or> fst r = p)"
    if "search_loop h lo hi n p f = Some r" for r
  proof (rule search_loop.raw_induct
      [where P = "\<lambda>h lo hi n p f r. fail f \<longrightarrow> fail (snd (snd r)) \<and> (phc_count (fst r) = 0 \<or> fst r = p)", OF _ that])
    fix g h lo hi n p f r
    assume IH: "\<And>h lo hi n p f r. g h lo hi n p f = Some r \<Longrightarrow>
        fail f \<longrightarrow> fail (snd (snd r)) \<and> (phc_count (fst r) = 0 \<or> fst r = p)"
      and eq: "(if lo \<le> hi
      then let pos = search_pos lo hi;
               r = phc_read_at p f pos;
               p' = fst (snd r); f' = snd (snd r)
           in if hash_gt h (phc_hash p') then g h (pos + phc_size) hi (Suc n) p' f'
              else if hash_lt h (phc_hash p') then g h lo (pos - phc_size) (Suc n) p' f'
              else Some (p', Suc n, f')
      else Some (p\<lparr>phc_count := 0\<rparr>, n, f)) = Some r"
    show "fail f \<longrightarrow> fail (snd (snd r)) \<and> (phc_count (fst r) = 0 \<or> fst r = p)"
    proof
      assume "fail f"
      let ?f' = "f\<lparr>eofbit := False, failbit := True\<rparr>"
      have "fail ?f'" by (simp add: fail_def)
      with eq IH [of h _ _ "Suc n" p ?f' r] show "fail (snd (snd r)) \<and> (phc_count (fst r) = 0 \<or> fst r = p)"
        using \<open>fail f\<close> by (auto simp: phc_read_at_failed Let_def split: if_splits)
    qed
  qed
  with assms show ?thesis by force
qed

lemma search_loop_correct:
  assumes "reads f es" and "sorted_file es" and "20 * int (length es) < 2 ^ 63"
    and "0 \<le> a" and "a \<le> int (length es)" and "b \<le> int (length es)"
    and "between es (quad h) a b"
    and "a = int (length es) \<Longrightarrow> quad (phc_hash p) < quad h \<or> phc_count p = 0"
  shows "\<exists>p' n' f'. search_loop h (20 * a) (20 * b) n p f = Some (p', n', f') \<and>
           found es (quad h) p' \<and>
           (reads f' es \<or> fail f' \<and> b = int (length es) \<and> (\<forall>e \<in> set es. fst e < quad h))"
  using assms
proof (induction "nat (b - a + 1)" arbitrary: a b n p f rule: less_induct)
  case less
  let ?N = "int (length es)" and ?q = "quad h" and ?m = "(a + b) div 2"
  note bw = less.prems(7)
  show ?case
  proof (cases "a \<le> b")
    case False
    then have "?q \<notin> fst ` set es" using between_none [OF bw] by simp
    then have "found es ?q (p\<lparr>phc_count := 0\<rparr>)" by (simp only: found_def) simp
    with False less.prems(1) show ?thesis by (simp add: search_loop_done)
  next
    case True
    have pos: "search_pos (20 * a) (20 * b) = 20 * ?m"
      using less.prems True by (intro search_pos_records) auto
    show ?thesis
    proof (cases "?m = ?N")
      case True
      then have ab: "a = ?N" "b = ?N" using less.prems(5,6) \<open>a \<le> b\<close> by presburger+
      have all: "\<forall>e \<in> set es. fst e < ?q"
      proof
        fix e
        assume "e \<in> set es"
        then obtain i where "i < length es" "e = es ! i" by (metis in_set_conv_nth)
        then show "fst e < ?q" using bw ab by (simp add: between_def)
      qed
      then have nf: "?q \<notin> fst ` set es" by auto
      let ?f1 = "f\<lparr>position := 20 * length es, eofbit := True, failbit := True\<rparr>"
      have fl: "fail ?f1" by (simp add: fail_def)
      have r: "phc_read_at p f (20 * ?m) = (False, p, ?f1)"
        using phc_read_at_end [OF less.prems(1)] True by simp
      obtain p' n' f' where s: "search_loop h (20 * a) (20 * b) n p f = Some (p', n', f')"
        using search_loop_returns [of "20 * a" "20 * b" h n p f] less.prems by auto
      have le: "20 * a \<le> 20 * b" using \<open>a \<le> b\<close> by simp
      note s' = s [unfolded search_loop_step [OF le pos r]]
      have cnt: "phc_count p' = 0 \<and> fail f'"
      proof (cases "quad (phc_hash p) < ?q")
        case True
        with s' \<open>?m = ?N\<close> ab fl show ?thesis by (simp add: search_loop_done) auto
      next
        case False
        then have z: "phc_count p = 0" using less.prems(8) ab by simp
        show ?thesis
        proof (cases "?q < quad (phc_hash p)")
          case True
          with False s' search_loop_failed [OF fl, of h] z show ?thesis by fastforce
        next
          case False
          with \<open>\<not> quad (phc_hash p) < ?q\<close> s' z fl show ?thesis by auto
        qed
      qed
      with s nf all ab show ?thesis by (auto simp: found_def)
    next
      case False
      then have m: "0 \<le> ?m" "?m < ?N" "a \<le> ?m" "?m \<le> b" using less.prems True by presburger+
      define i where "i = nat ?m"
      have i: "int i = ?m" "i < length es" using m by (auto simp: i_def)
      let ?p1 = "set_entry p (es ! i)" and ?f1 = "f\<lparr>eofbit := False, position := 20 * Suc i\<rparr>"
      have r: "phc_read_at p f (20 * ?m) = (True, ?p1, ?f1)"
        using phc_read_at_entry [OF less.prems(1) i(2)] i(1) by simp
      have rd: "reads ?f1 es" using less.prems(1) by simp
      have le: "20 * a \<le> 20 * b" using True by simp
      consider (gt) "fst (es ! i) < ?q" | (lt) "?q < fst (es ! i)" | (eq) "?q = fst (es ! i)"
        by fastforce
      then show ?thesis
      proof cases
        case gt
        have "fst (es ! j) < ?q" if "j < length es" "int j < ?m + 1" for j
          using that i gt sorted_file_nth [OF less.prems(2), of j i] by (simp add: order_le_less_trans)
        then have "between es ?q (?m + 1) b" using bw by (simp add: between_def)
        moreover have "?m + 1 = ?N \<Longrightarrow> quad (phc_hash ?p1) < ?q \<or> phc_count ?p1 = 0" using gt by simp
        moreover have "nat (b - (?m + 1) + 1) < nat (b - a + 1)" using m True by simp
        ultimately obtain p' n' f' where
          s: "search_loop h (20 * (?m + 1)) (20 * b) (Suc n) ?p1 ?f1 = Some (p', n', f')"
          and "found es ?q p'" "reads f' es \<or> fail f' \<and> b = ?N \<and> (\<forall>e \<in> set es. fst e < ?q)"
          using less.hyps [of b "?m + 1" ?f1 ?p1 "Suc n"] rd less.prems m by auto
        moreover have "search_loop h (20 * a) (20 * b) n p f = Some (p', n', f')"
          unfolding search_loop_step [OF le pos r] records_step using s gt by simp
        ultimately show ?thesis by blast
      next
        case lt
        have "?q < fst (es ! j)" if "j < length es" "?m - 1 < int j" for j
          using that i lt sorted_file_nth [OF less.prems(2), of i j] by (simp add: order_less_le_trans)
        then have "between es ?q a (?m - 1)" using bw by (simp add: between_def)
        moreover have "a = ?N \<Longrightarrow> quad (phc_hash ?p1) < ?q \<or> phc_count ?p1 = 0" using m by simp
        moreover have "nat (?m - 1 - a + 1) < nat (b - a + 1)" using m True by simp
        ultimately obtain p' n' f' where
          s: "search_loop h (20 * a) (20 * (?m - 1)) (Suc n) ?p1 ?f1 = Some (p', n', f')"
          and "found es ?q p'" "reads f' es \<or> fail f' \<and> ?m - 1 = ?N \<and> (\<forall>e \<in> set es. fst e < ?q)"
          using less.hyps [of "?m - 1" a ?f1 ?p1 "Suc n"] rd less.prems m by auto
        moreover have "search_loop h (20 * a) (20 * b) n p f = Some (p', n', f')"
          unfolding search_loop_step [OF le pos r] records_step using s lt order_less_not_sym [OF lt] by simp
        ultimately show ?thesis using m by auto
      next
        case eq
        then have "search_loop h (20 * a) (20 * b) n p f = Some (?p1, Suc n, ?f1)"
          unfolding search_loop_step [OF le pos r] by simp
        moreover have "found es ?q ?p1"
          using eq nth_mem [OF i(2)] by (auto simp: found_def)
        ultimately show ?thesis using rd by blast
      qed
    qed
  qed
qed

end
