(* ===== verification/Lookup.thy ===== *)
theory Lookup
  imports Search
begin

text \<open>
  The contract of \<^verbatim>\<open>PasswordInspector\<close> without an index: what a lookup answers, what it
  leaves behind in the object, and that the interpolating search answers the same.
\<close>

text \<open>An inspector over a sorted file of entries whose stream is in order.\<close>

definition serves :: "inspector \<Rightarrow> entry list \<Rightarrow> bool" where
  "serves d es \<longleftrightarrow>
     reads (mInputFile d) es \<and> mFileSize d = 20 * int (length es) \<and> mFileSize d < 2 ^ 63 \<and> sorted_file es"

definition no_index :: "inspector \<Rightarrow> bool" where
  "no_index d \<longleftrightarrow> \<not> opened (mIndexFile d)"

lemma no_index_update [simp]: "no_index (d\<lparr>mInputFile := f\<rparr>) = no_index d"
  by (simp add: no_index_def)

lemma serves_update_input [simp]:
  "serves (d\<lparr>mInputFile := f\<rparr>) es \<longleftrightarrow>
     reads f es \<and> mFileSize d = 20 * int (length es) \<and> mFileSize d < 2 ^ 63 \<and> sorted_file es"
  by (simp add: serves_def)

lemma binsearch_no_index:
  "no_index d \<Longrightarrow> binsearch d h =
     (case search_loop h 0 (mFileSize d) 0 emptyPHC (mInputFile d) of
        None \<Rightarrow> None
      | Some (p, n, f) \<Rightarrow> Some (p, n, d\<lparr>mInputFile := f\<rparr>))"
  by (cases d) (auto simp: binsearch_def search_bounds_def no_index_def split: option.splits)

lemma between_all: "between es q 0 (int (length es))"
  by (simp add: between_def)

lemma emptyPHC_count [simp]: "phc_count emptyPHC = 0"
  by (simp add: emptyPHC_def)

lemma binsearch_serves:
  assumes "serves d es" and "no_index d"
  shows "\<exists>p n d'. binsearch d h = Some (p, n, d') \<and> found es (quad h) p \<and> no_index d' \<and>
           (serves d' es \<or> fail (mInputFile d') \<and> (\<forall>e \<in> set es. fst e < quad h))"
proof -
  let ?N = "int (length es)"
  have s: "reads (mInputFile d) es" "mFileSize d = 20 * ?N" "20 * ?N < 2 ^ 63" "sorted_file es"
    using assms(1) by (simp_all add: serves_def)
  obtain p n f where
    r: "search_loop h (20 * 0) (20 * ?N) 0 emptyPHC (mInputFile d) = Some (p, n, f)"
    and "found es (quad h) p"
    and f: "reads f es \<or> fail f \<and> ?N = ?N \<and> (\<forall>e \<in> set es. fst e < quad h)"
    using search_loop_correct [OF s(1,4,3), of 0 ?N h emptyPHC 0] between_all by auto
  moreover have "binsearch d h = Some (p, n, d\<lparr>mInputFile := f\<rparr>)"
    using r by (simp add: binsearch_no_index assms(2) s(2))
  ultimately show ?thesis
    using s assms(2) by auto
qed

text \<open>The number of reads is at most one more than the logarithm of the number of entries plus
  one: the interval of candidate positions holds one position more than there are entries.\<close>

lemma binsearch_read_count:
  assumes "serves d es" and "no_index d" and "binsearch d h = Some (p, n, d')"
  shows "2 ^ n \<le> 2 * (int (length es) + 1)"
proof -
  let ?N = "int (length es)"
  have s: "mFileSize d = 20 * ?N" "20 * ?N < 2 ^ 63"
    using assms(1) by (simp_all add: serves_def)
  obtain f where "search_loop h (20 * 0) (20 * ?N) 0 emptyPHC (mInputFile d) = Some (p, n, f)"
    using assms(3) by (auto simp: binsearch_no_index assms(2) s(1) split: option.splits)
  then show ?thesis
    using search_loop_reads [of 0 ?N h 0 emptyPHC "mInputFile d" p n f] s(2) by simp
qed

section \<open>A search past the end\<close>

text \<open>A hash greater than every entry drives the search to the end of the file; the read there
  fails and leaves \<^verbatim>\<open>failbit\<close> set.\<close>

lemma search_loop_overshoot:
  assumes "reads f es" and "20 * int (length es) < 2 ^ 63" and "\<forall>e \<in> set es. fst e < quad h"
    and "0 \<le> a" and "a \<le> int (length es)"
    and "search_loop h (20 * a) (20 * int (length es)) n p f = Some (p', n', f')"
  shows "fail f'"
  using assms
proof (induction "nat (int (length es) - a + 1)" arbitrary: a n p f rule: less_induct)
  case less
  let ?N = "int (length es)" and ?m = "(a + int (length es)) div 2"
  have le: "20 * a \<le> 20 * ?N" using less.prems(5) by simp
  have pos: "search_pos (20 * a) (20 * ?N) = 20 * ?m"
    using less.prems by (intro search_pos_records) auto
  show ?case
  proof (cases "?m = ?N")
    case True
    let ?f1 = "f\<lparr>position := 20 * length es, eofbit := True, failbit := True\<rparr>"
    have r: "phc_read_at p f (20 * ?m) = (False, p, ?f1)"
      using phc_read_at_end [OF less.prems(1)] True by simp
    have "fail ?f1" by (simp add: fail_def)
    with less.prems(6) search_loop_failed [of ?f1] show ?thesis
      unfolding search_loop_step [OF le pos r] by (auto split: if_splits)
  next
    case False
    then have m: "0 \<le> ?m" "?m < ?N" "a \<le> ?m" using less.prems(4,5) by presburger+
    define i where "i = nat ?m"
    have i: "int i = ?m" "i < length es" using m by (auto simp: i_def)
    let ?p1 = "set_entry p (es ! i)" and ?f1 = "f\<lparr>eofbit := False, position := 20 * Suc i\<rparr>"
    have r: "phc_read_at p f (20 * ?m) = (True, ?p1, ?f1)"
      using phc_read_at_entry [OF less.prems(1) i(2)] i(1) by simp
    have "fst (es ! i) < quad h" using less.prems(3) i(2) by simp
    with less.prems(6) have
      s: "search_loop h (20 * (?m + 1)) (20 * ?N) (Suc n) ?p1 ?f1 = Some (p', n', f')"
      unfolding search_loop_step [OF le pos r] records_step by simp
    have "nat (?N - (?m + 1) + 1) < nat (?N - a + 1)" using m by simp
    then show ?thesis
      by (rule less.hyps [OF _ _ less.prems(2,3) _ _ s]) (use less.prems(1) m in simp_all)
  qed
qed

lemma binsearch_overshoot:
  assumes "serves d es" and "no_index d" and "\<forall>e \<in> set es. fst e < quad h"
    and "binsearch d h = Some (p, n, d')"
  shows "fail (mInputFile d') \<and> no_index d' \<and> mFileSize d' = mFileSize d"
proof -
  let ?N = "int (length es)"
  have s: "reads (mInputFile d) es" "mFileSize d = 20 * ?N" "20 * ?N < 2 ^ 63"
    using assms(1) by (simp_all add: serves_def)
  obtain f where r: "search_loop h (20 * 0) (20 * ?N) 0 emptyPHC (mInputFile d) = Some (p, n, f)"
    and d': "d' = d\<lparr>mInputFile := f\<rparr>"
    using assms(4) by (auto simp: binsearch_no_index assms(2) s(2) split: option.splits)
  have "fail f"
    by (rule search_loop_overshoot [OF s(1,3) assms(3) _ _ r]) auto
  then show ?thesis using d' assms(2) by simp
qed

text \<open>Once the stream has failed, no lookup finds anything any more.\<close>

lemma binsearch_failed:
  assumes "fail (mInputFile d)" and "no_index d" and "mFileSize d < 2 ^ 63"
  shows "\<exists>p n d'. binsearch d h = Some (p, n, d') \<and> phc_count p = 0 \<and> fail (mInputFile d') \<and>
           no_index d' \<and> mFileSize d' = mFileSize d"
proof -
  obtain p n f where r: "search_loop h 0 (mFileSize d) 0 emptyPHC (mInputFile d) = Some (p, n, f)"
    using search_loop_returns [of 0 "mFileSize d" h 0 emptyPHC "mInputFile d"] assms(3) by auto
  with search_loop_failed [OF assms(1) r] assms(2) show ?thesis
    by (auto simp: binsearch_no_index)
qed

section \<open>The interpolating search\<close>

lemma hash_read_at_inside:
  assumes "reads f es" and "0 \<le> pos" and "pos + 16 \<le> 20 * int (length es)"
  shows "\<exists>h' f'. hash_read_at h f pos = (True, h', f') \<and> reads f' es"
proof -
  let ?f = "f\<lparr>eofbit := False, position := nat pos\<rparr>"
  have s: "seekg pos f = ?f" using assms by (simp add: reads_def seekg_ok)
  have "nat pos + 16 \<le> length (contents f)"
    using assms by (simp add: reads_def)
  then have "is_read 16 ?f = (take 16 (drop (nat pos) (contents f)), ?f\<lparr>position := nat pos + 16\<rparr>)"
    using assms(1) by (subst is_read_full) (auto simp: reads_def good_def fail_def)
  moreover have "length (take 16 (drop (nat pos) (contents f))) = 16"
    using \<open>nat pos + 16 \<le> length (contents f)\<close> by simp
  ultimately show ?thesis
    using assms(1) by (simp add: hash_read_at_def hash_read_def s reads_def fail_def)
qed

lemma smart_down_reads:
  assumes "reads f es" and "lo + 16 \<le> 20 * int (length es)" and "0 < off"
  shows "\<exists>lo' f' n'. smart_down h lo off h0 f n = Some (lo', f', n') \<and> reads f' es"
  using assms
proof (induction "nat lo" arbitrary: lo off h0 f n rule: less_induct)
  case less
  show ?case
  proof (cases "hash_lt h h0 \<and> lo \<ge> off")
    case False
    then have "smart_down h lo off h0 f n = Some (lo, f, n)" by (subst smart_down.simps) auto
    then show ?thesis using less.prems(1) by simp
  next
    case True
    then obtain h1 f1 where r: "hash_read_at h0 f (lo - off) = (True, h1, f1)" "reads f1 es"
      using hash_read_at_inside [OF less.prems(1), of "lo - off" h0] less.prems by auto
    have "smart_down h lo off h0 f n = smart_down h (lo - off) (off * 2) h1 f1 (Suc n)"
      using True by (subst smart_down.simps) (simp add: r Let_def)
    moreover have "nat (lo - off) < nat lo" using True less.prems(3) by simp
    ultimately show ?thesis
      using less.hyps [of "lo - off" f1 "off * 2" h1 "Suc n"] r(2) less.prems True by simp
  qed
qed

lemma smart_up_reads:
  assumes "reads f es" and "0 \<le> hi" and "0 < off"
  shows "\<exists>hi' f' n'. smart_up (20 * int (length es)) h hi off h1 f n = Some (hi', f', n') \<and> reads f' es"
  using assms
proof (induction "nat (20 * int (length es) - hi)" arbitrary: hi off h1 f n rule: less_induct)
  case less
  let ?S = "20 * int (length es)"
  show ?case
  proof (cases "hash_gt h h1 \<and> hi \<le> ?S - off - phc_size")
    case False
    then have "smart_up ?S h hi off h1 f n = Some (hi, f, n)" by (subst smart_up.simps) auto
    then show ?thesis using less.prems(1) by simp
  next
    case True
    then have b: "hi + off + 20 \<le> ?S" by (simp add: phc_size_def)
    then obtain h2 f1 where r: "hash_read_at h1 f (hi + off) = (True, h2, f1)" "reads f1 es"
      using hash_read_at_inside [OF less.prems(1), of "hi + off" h1] less.prems by auto
    have "smart_up ?S h hi off h1 f n = smart_up ?S h (hi + off) (off * 2) h2 f1 (Suc n)"
      using True by (subst smart_up.simps) (simp add: r Let_def)
    moreover have "nat (?S - (hi + off)) < nat (?S - hi)" using b less.prems(3) by simp
    ultimately show ?thesis
      using less.hyps [of "hi + off" f1 "off * 2" h2 "Suc n"] r(2) less.prems True by simp
  qed
qed

lemma smart_binsearch_leaves:
  assumes "serves d es" and "no_index d" and "es \<noteq> []" and "0 \<le> hit" and "hit \<le> mFileSize d"
  shows "\<exists>p n d'. smart_binsearch hit d h = Some (p, n, d') \<and> found es (quad h) p \<and> no_index d' \<and>
           (serves d' es \<or> (\<forall>e \<in> set es. fst e < quad h))"
proof -
  let ?S = "20 * int (length es)" and ?off = "max (mFileSize d div 2 ^ 12) phc_size"
  define pot where "pot = hit - c_rem hit phc_size"
  define off where "off = ?off - ?off mod phc_size"
  have size: "mFileSize d = ?S" "20 \<le> ?S" and rd: "reads (mInputFile d) es"
    using assms(1,3) by (cases es; simp add: serves_def)+
  have pot: "0 \<le> pot" "pot \<le> ?S"
  proof -
    have "c_rem hit phc_size = hit mod 20" using assms(4) by (simp add: c_rem_def phc_size_def sgn_if)
    moreover have "0 \<le> hit mod 20" and "hit mod 20 \<le> hit"
      using assms(4) by (simp_all add: zmod_le_nonneg_dividend)
    ultimately show "0 \<le> pot" "pot \<le> ?S"
      using assms(5) size(1) by (simp_all add: pot_def)
  qed
  have "0 < ?off div 20 * 20"
    using size(2) by (simp add: phc_size_def pos_imp_zdiv_pos_iff)
  then have off: "20 \<le> off"
    by (simp add: off_def phc_size_def minus_mod_eq_div_mult)
  define lo where "lo = max 0 (pot - off)"
  define hi where "hi = min (?S - phc_size) (pot + off)"
  have lo: "0 \<le> lo" "lo + 16 \<le> ?S" and hi: "0 \<le> hi" "hi + 16 \<le> ?S"
    using pot off size(2) by (auto simp: lo_def hi_def phc_size_def)
  obtain h0 f0 where r0: "hash_read_at emptyHash (mInputFile d) lo = (True, h0, f0)" "reads f0 es"
    using hash_read_at_inside [OF rd lo] by blast
  obtain lo' f1 n1 where s1: "smart_down h lo off h0 f0 1 = Some (lo', f1, n1)" "reads f1 es"
    using smart_down_reads [OF r0(2) lo(2), of off h h0 1] off by auto
  obtain h1 f2 where r1: "hash_read_at emptyHash f1 hi = (True, h1, f2)" "reads f2 es"
    using hash_read_at_inside [OF s1(2) hi] by blast
  obtain hi' f3 n2 where s2: "smart_up ?S h hi off h1 f2 (Suc n1) = Some (hi', f3, n2)" "reads f3 es"
    using smart_up_reads [OF r1(2) hi(1), of off h h1 "Suc n1"] off by auto
  have "serves (d\<lparr>mInputFile := f3\<rparr>) es"
    using assms(1) s2(2) by (simp add: serves_def)
  then obtain p n d' where "binsearch (d\<lparr>mInputFile := f3\<rparr>) h = Some (p, n, d')" "found es (quad h) p" "no_index d'"
      "serves d' es \<or> (\<forall>e \<in> set es. fst e < quad h)"
    using binsearch_serves [of "d\<lparr>mInputFile := f3\<rparr>" es h] assms(2) by auto
  moreover note r0(1) [unfolded lo_def] s1(1) [unfolded lo_def] r1(1) [unfolded hi_def] s2(1) [unfolded hi_def]
  ultimately show ?thesis
    unfolding smart_binsearch_def Let_def
    unfolding pot_def [symmetric] off_def [symmetric]
    unfolding size(1)
    by simp
qed

end
