(* ===== verification/Lookup_Cli.thy ===== *)
theory Lookup_Cli
  imports Lookup
begin

text \<open>
  \<^verbatim>\<open>pwned-lookup-cli/pwned-lookup-cli.cpp\<close>: the loop that asks for passwords and looks their
  hashes up in one long-lived inspector, and the properties of lookups that a user sees.
\<close>

datatype answer = Found u32 | NotFound

definition answer_of :: "phc \<Rightarrow> answer" where
  "answer_of p = (if phc_count p > 0 then Found (phc_count p) else NotFound)"

text \<open>The loop over the passwords typed; it stops only where a lookup does not return.\<close>

fun lookup_loop :: "(string \<Rightarrow> u8 list) \<Rightarrow> inspector \<Rightarrow> string list \<Rightarrow> (answer list \<times> inspector) option" where
  "lookup_loop md5 d [] = Some ([], d)"
| "lookup_loop md5 d (pwd # pwds) =
     (let soughtHash = hash_of_string md5 pwd in
      case binsearch d soughtHash of
        None \<Rightarrow> None
      | Some (p, n, d') \<Rightarrow>
          (case lookup_loop md5 d' pwds of
             None \<Rightarrow> None
           | Some (answers, d'') \<Rightarrow> Some (answer_of p # answers, d'')))"

datatype cli_exit = ExitFailure | ExitException fs_error | Answers "answer list" | NoReturn

text \<open>\<^verbatim>\<open>main\<close>, from the parsed options on: the input and index file names may be empty.\<close>

definition lookup_main ::
  "(string \<Rightarrow> u8 list) \<Rightarrow> files \<Rightarrow> string \<Rightarrow> string \<Rightarrow> string list \<Rightarrow> cli_exit" where
  "lookup_main md5 fs inputFilename indexFilename pwds =
     (if inputFilename = [] then ExitFailure
      else case inspector_open_index fs newInspector inputFilename indexFilename of
             Inl e \<Rightarrow> ExitException e
           | Inr (ok, d) \<Rightarrow>
               (case lookup_loop md5 d pwds of
                  None \<Rightarrow> NoReturn
                | Some (answers, d') \<Rightarrow> Answers answers))"

section \<open>What the answers are\<close>

text \<open>A database: entries sorted by hash, each hash once, with a positive count; and what it says
  of a hash.\<close>

definition database :: "entry list \<Rightarrow> bool" where
  "database es \<longleftrightarrow> sorted_wrt (<) (map fst es) \<and> (\<forall>e \<in> set es. 0 < snd e) \<and> 20 * int (length es) < 2 ^ 63"

definition db_answer :: "entry list \<Rightarrow> quad \<Rightarrow> answer" where
  "db_answer es q = (case map_of es q of None \<Rightarrow> NotFound | Some c \<Rightarrow> Found c)"

definition inspector_on :: "entry list \<Rightarrow> inspector" where
  "inspector_on es =
     newInspector\<lparr>mInputFile := open_stream (file_of es), mFileSize := 20 * int (length es)\<rparr>"

lemma database_sorted: "database es \<Longrightarrow> sorted_file es"
  by (simp add: database_def sorted_file_def strict_sorted_iff)

lemma database_distinct: "database es \<Longrightarrow> distinct (map fst es)"
  by (simp add: database_def strict_sorted_iff)

lemma serves_on: "database es \<Longrightarrow> serves (inspector_on es) es \<and> no_index (inspector_on es)"
  using database_sorted [of es]
  by (simp add: serves_def inspector_on_def newInspector_def no_index_def database_def)

lemma answer_found:
  assumes "database es" and "found es q p"
  shows "answer_of p = db_answer es q"
proof (cases "q \<in> fst ` set es")
  case True
  with assms(2) have "(q, phc_count p) \<in> set es" by (simp add: found_def)
  moreover from this assms(1) have "0 < phc_count p" by (force simp: database_def)
  ultimately show ?thesis
    using database_distinct [OF assms(1)] by (simp add: answer_of_def db_answer_def map_of_is_SomeI)
next
  case False
  then have "map_of es q = None" by (simp add: map_of_eq_None_iff)
  with False assms(2) show ?thesis by (simp add: found_def answer_of_def db_answer_def)
qed

lemma open_database:
  assumes "fs f = Some (file_of es, True)"
  shows "inspector_open_index fs newInspector f [] = Inr (True, inspector_on es)"
  using assms
  by (simp add: inspector_open_index_def inspector_open_def open_ifstream_def inspector_on_def Let_def
      newInspector_def)

lemma lookup_loop_answers:
  assumes "serves d es" and "no_index d" and "database es"
    and "\<forall>pwd \<in> set pwds. \<exists>e \<in> set es. quad (hash_of_string md5 pwd) \<le> fst e"
  shows "\<exists>d'. lookup_loop md5 d pwds = Some (map (\<lambda>pwd. db_answer es (quad (hash_of_string md5 pwd))) pwds, d')"
  using assms
proof (induction pwds arbitrary: d)
  case Nil
  then show ?case by simp
next
  case (Cons pwd pwds)
  let ?h = "hash_of_string md5 pwd"
  obtain p n d' where b: "binsearch d ?h = Some (p, n, d')" and f: "found es (quad ?h) p"
    and d': "no_index d'" "serves d' es \<or> (\<forall>e \<in> set es. fst e < quad ?h)"
    using binsearch_serves [OF Cons.prems(1,2), of ?h] by blast
  from Cons.prems(4) have "serves d' es" using d'(2) by (auto simp: not_le [symmetric])
  then obtain d'' where "lookup_loop md5 d' pwds =
      Some (map (\<lambda>pwd. db_answer es (quad (hash_of_string md5 pwd))) pwds, d'')"
    using Cons.IH [OF _ d'(1) Cons.prems(3)] Cons.prems(4) by auto
  then show ?case using b answer_found [OF Cons.prems(3) f] by simp
qed

lemma lookup_loop_failed:
  assumes "fail (mInputFile d)" and "no_index d" and "mFileSize d < 2 ^ 63"
  shows "\<exists>d'. lookup_loop md5 d pwds = Some (map (\<lambda>_. NotFound) pwds, d')"
  using assms
proof (induction pwds arbitrary: d)
  case Nil
  then show ?case by simp
next
  case (Cons pwd pwds)
  obtain p n d' where b: "binsearch d (hash_of_string md5 pwd) = Some (p, n, d')" "phc_count p = 0"
    and d': "fail (mInputFile d')" "no_index d'" "mFileSize d' = mFileSize d"
    using binsearch_failed [OF Cons.prems] by blast
  then obtain d'' where "lookup_loop md5 d' pwds = Some (map (\<lambda>_. NotFound) pwds, d'')"
    using Cons.IH [of d'] Cons.prems(3) by auto
  then show ?case using b by (simp add: answer_of_def)
qed

text \<open>The whole tool on a database.\<close>

lemma lookup_database:
  assumes "fs f = Some (file_of es, True)" and "f \<noteq> []" and "database es"
    and "\<forall>pwd \<in> set pwds. \<exists>e \<in> set es. quad (hash_of_string md5 pwd) \<le> fst e"
  shows "lookup_main md5 fs f [] pwds =
           Answers (map (\<lambda>pwd. db_answer es (quad (hash_of_string md5 pwd))) pwds)"
proof -
  obtain d' where "lookup_loop md5 (inspector_on es) pwds =
      Some (map (\<lambda>pwd. db_answer es (quad (hash_of_string md5 pwd))) pwds, d')"
    using lookup_loop_answers [OF _ _ assms(3,4)] serves_on [OF assms(3)] by blast
  with assms(2) show ?thesis
    by (simp add: lookup_main_def open_database [of fs f es, OF assms(1)])
qed

section \<open>Properties\<close>

text \<open>
  C2: Without an index the search always returns, and its answer is right for every hash: for a
  hash of the file it returns that hash with a count the file holds for it, for any other hash the
  count 0. Afterwards the inspector is as before, unless the hash was greater than every entry.
\<close>

theorem binsearch_decides:
  assumes "serves d es" and "no_index d"
  shows "\<exists>p n d'. binsearch d h = Some (p, n, d') \<and>
           (if quad h \<in> fst ` set es
            then quad (phc_hash p) = quad h \<and> (quad h, phc_count p) \<in> set es
            else phc_count p = 0) \<and>
           (serves d' es \<or> (\<forall>e \<in> set es. fst e < quad h))"
  using binsearch_serves [OF assms, of h] by (fastforce simp: found_def)

theorem binsearch_decides_witness:
  "\<exists>p n d'. binsearch (inspector_on [(Quad 1 0, 3), (Quad 2 5, 7)]) (hash_of_quad 2 5) = Some (p, n, d') \<and>
     quad (phc_hash p) = Quad 2 5 \<and> phc_count p = 7"
proof -
  let ?es = "[(Quad 1 0, 3), (Quad 2 5, 7)] :: entry list"
  have "database ?es" by (simp add: database_def less_quad_def)
  then have "serves (inspector_on ?es) ?es" "no_index (inspector_on ?es)" by (simp_all add: serves_on)
  from binsearch_decides [OF this, of "hash_of_quad 2 5"] show ?thesis
    by (auto simp: hash_of_quad_def)
qed

text \<open>
  C8: The search reads a logarithmic number of records: with \<open>n\<close> reads in a file of \<open>N\<close>
  entries, two to the power of \<open>n\<close> is at most twice \<open>N + 1\<close>.
\<close>

theorem binsearch_reads_bound:
  assumes "serves d es" and "no_index d" and "binsearch d h = Some (p, n, d')"
  shows "2 ^ n \<le> 2 * (length es + 1)"
  using binsearch_read_count [OF assms] by (simp add: of_nat_le_iff [where ?'a = int, symmetric] del: of_nat_le_iff)

theorem binsearch_reads_bound_witness:
  "\<exists>p n d'. binsearch (inspector_on [(Quad 1 0, 3)]) (hash_of_quad 1 0) = Some (p, n, d') \<and> 2 ^ n \<le> (4 :: nat)"
proof -
  let ?es = "[(Quad 1 0, 3)] :: entry list"
  have "database ?es" by (simp add: database_def)
  then have s: "serves (inspector_on ?es) ?es" "no_index (inspector_on ?es)" by (simp_all add: serves_on)
  then obtain p n d' where "binsearch (inspector_on ?es) (hash_of_quad 1 0) = Some (p, n, d')"
    using binsearch_serves by blast
  with binsearch_reads_bound [OF s this] show ?thesis by auto
qed

text \<open>
  C5: The lookup tool answers every password the way the database says, as long as no password
  hashes above the greatest entry.
\<close>

theorem lookup_main_correct:
  assumes "fs f = Some (file_of es, True)" and "f \<noteq> []" and "database es"
    and "\<forall>pwd \<in> set pwds. \<exists>e \<in> set es. quad (hash_of_string md5 pwd) \<le> fst e"
  shows "lookup_main md5 fs f [] pwds =
           Answers (map (\<lambda>pwd. db_answer es (quad (hash_of_string md5 pwd))) pwds)"
  using assms by (rule lookup_database)

lemma toy_hash: "quad (hash_of_string toy_md5 ''abc'') = Quad 0 3" "quad (hash_of_string toy_md5 ''ab'') = Quad 0 2"
    "quad (hash_of_string toy_md5 ''abcd'') = Quad 0 4"
  by code_simp+

theorem lookup_main_correct_witness:
  "lookup_main toy_md5 [''db'' \<mapsto> (file_of [(Quad 0 2, 9), (Quad 0 4, 1)], True)] ''db'' [] [''ab'', ''abc''] =
     Answers [Found 9, NotFound]"
proof -
  let ?es = "[(Quad 0 2, 9), (Quad 0 4, 1)] :: entry list"
  have db: "database ?es" by (simp add: database_def less_quad_def)
  have "lookup_main toy_md5 [''db'' \<mapsto> (file_of ?es, True)] ''db'' [] [''ab'', ''abc''] =
      Answers (map (\<lambda>pwd. db_answer ?es (quad (hash_of_string toy_md5 pwd))) [''ab'', ''abc''])"
    by (rule lookup_main_correct) (use db in \<open>auto simp: toy_hash less_eq_quad_def less_quad_def\<close>)
  then show ?thesis by (simp add: toy_hash db_answer_def)
qed

text \<open>
  C6: A password whose hash is above the greatest entry breaks the tool for good: it and every
  password after it are answered "not found", whatever the database holds for them.
\<close>

theorem lookup_main_lost:
  assumes "fs f = Some (file_of es, True)" and "f \<noteq> []" and "database es"
    and "\<forall>e \<in> set es. fst e < quad (hash_of_string md5 pwd)"
  shows "lookup_main md5 fs f [] (pwd # pwds) = Answers (map (\<lambda>_. NotFound) (pwd # pwds))"
proof -
  let ?d = "inspector_on es" and ?h = "hash_of_string md5 pwd"
  have s: "serves ?d es" "no_index ?d" using serves_on [OF assms(3)] by simp_all
  obtain p n d' where b: "binsearch ?d ?h = Some (p, n, d')" and f: "found es (quad ?h) p"
    using binsearch_serves [OF s, of ?h] by blast
  have "quad ?h \<notin> fst ` set es" using assms(4) by force
  with f have "phc_count p = 0" by (simp add: found_def)
  moreover have "fail (mInputFile d') \<and> no_index d' \<and> mFileSize d' = mFileSize ?d"
    using binsearch_overshoot [OF s assms(4) b] .
  moreover from this s(1) obtain d'' where "lookup_loop md5 d' pwds = Some (map (\<lambda>_. NotFound) pwds, d'')"
    using lookup_loop_failed [of d' md5 pwds] by (auto simp: serves_def)
  ultimately show ?thesis
    using b assms(2) by (simp add: lookup_main_def open_database [of fs f es, OF assms(1)] answer_of_def)
qed

theorem lookup_main_lost_witness:
  "lookup_main toy_md5 [''db'' \<mapsto> (file_of [(Quad 0 2, 9)], True)] ''db'' [] [''abc'', ''ab''] =
     Answers [NotFound, NotFound]"
proof -
  let ?es = "[(Quad 0 2, 9)] :: entry list"
  have "lookup_main toy_md5 [''db'' \<mapsto> (file_of ?es, True)] ''db'' [] (''abc'' # [''ab'']) =
      Answers (map (\<lambda>_. NotFound) (''abc'' # [''ab'']))"
    by (rule lookup_main_lost) (auto simp: toy_hash database_def less_quad_def)
  then show ?thesis by simp
qed

text \<open>
  C9: The interpolating search answers like the binary search, for every estimate of the position
  that lies within the file.
\<close>

theorem smart_binsearch_decides:
  assumes "serves d es" and "no_index d" and "es \<noteq> []" and "0 \<le> hit" and "hit \<le> mFileSize d"
  shows "\<exists>p n d'. smart_binsearch hit d h = Some (p, n, d') \<and>
           (if quad h \<in> fst ` set es
            then quad (phc_hash p) = quad h \<and> (quad h, phc_count p) \<in> set es
            else phc_count p = 0)"
  using smart_binsearch_leaves [OF assms, of h] unfolding found_def by blast

theorem smart_binsearch_decides_witness:
  "\<exists>p n d'. smart_binsearch 40 (inspector_on [(Quad 1 0, 3), (Quad 2 5, 7)]) (hash_of_quad 1 0) = Some (p, n, d') \<and>
     phc_count p = 3"
proof -
  let ?es = "[(Quad 1 0, 3), (Quad 2 5, 7)] :: entry list"
  have "database ?es" by (simp add: database_def less_quad_def)
  then have "serves (inspector_on ?es) ?es" "no_index (inspector_on ?es)" by (simp_all add: serves_on)
  moreover have "40 \<le> mFileSize (inspector_on ?es)" by (simp add: inspector_on_def)
  ultimately show ?thesis
    using smart_binsearch_decides [of "inspector_on ?es" ?es 40 "hash_of_quad 1 0"]
    by (auto simp: hash_of_quad_def)
qed

end
