(* ===== verification/Indexer.thy ===== *)
theory Indexer
  imports Lookup_Cli
begin

text \<open>
  \<^verbatim>\<open>pwned-index/index.cpp\<close>: building the index of a sorted MD5:count file, a table with the
  file position of the first record of every bucket (a bucket is the hashes with the same \<^verbatim>\<open>bits\<close>
  leading bits), and all ones for a bucket that is empty.
\<close>

section \<open>The scan\<close>

text \<open>\<^verbatim>\<open>while (!input.eof())\<close>: a stream that fails without reaching the end of the file, such as one
  that was never opened, keeps the loop running.\<close>

partial_function (option) index_loop ::
  "nat \<Rightarrow> u8 istream \<Rightarrow> phc \<Rightarrow> u64 list \<Rightarrow> u64 \<Rightarrow> u64 \<Rightarrow> u64 \<Rightarrow> (u64 list \<times> u64 \<times> u64) option" where
  "index_loop shift f p indexes lastIdx idx pos =
     (if eofbit f then Some (indexes, idx, pos)
      else let r = phc_read p f;
               p' = fst (snd r); f' = snd (snd r);
               idx' = drop_bit shift (upper (quad (phc_hash p')))
           in if idx' > lastIdx
              then let t = tellg f';
                       pos' = word_of_int (fst t) - 20
                   in index_loop shift (snd t) p' (indexes[unat idx' := pos']) idx' idx' pos'
              else index_loop shift f' p' indexes lastIdx idx' pos)"

text \<open>
  Lines 123 to 154: the index table for \<^verbatim>\<open>bits\<close> leading bits and the bytes written to the output
  file. The widths are those of the code: \<^verbatim>\<open>shift\<close> is an \<^verbatim>\<open>unsigned int\<close>, \<^verbatim>\<open>maxIdx\<close> a 64-bit
  word.
\<close>

definition index_shift :: "nat \<Rightarrow> nat" where
  "index_shift bits = nat ((64 - int bits) mod 2 ^ 32)"

definition index_size :: "nat \<Rightarrow> u64" where
  "index_size bits = 1 + drop_bit (index_shift bits) (- 1)"

definition build_table :: "nat \<Rightarrow> u8 istream \<Rightarrow> u64 list option" where
  "build_table bits input =
     (let shift = index_shift bits;
          indexes = replicate (unat (index_size bits)) (- 1);
          r = phc_read emptyPHC input;
          p = fst (snd r);
          lastIdx = drop_bit shift (upper (quad (phc_hash p)));
          indexes = indexes[unat lastIdx := 0]
      in case index_loop shift (snd (snd r)) p indexes lastIdx 0 0 of
           None \<Rightarrow> None
         | Some (indexes, idx, pos) \<Rightarrow> Some (indexes[unat idx := pos]))"

definition index_file :: "u64 list \<Rightarrow> u8 list" where
  "index_file indexes = concat (map (le_bytes 8) indexes)"

text \<open>
  \<^verbatim>\<open>main\<close>, from the parsed options on. A shift by 64 or more bits (\<^verbatim>\<open>bits\<close> is 0 or more than 64)
  is undefined, and for \<^verbatim>\<open>bits = 64\<close> the size of the array wraps to 0 and the first write is out of
  its bounds. \<^verbatim>\<open>new pwned::index_key_t[maxIdx]\<close> throws, and nothing catches it, when the array would
  have more than \<^verbatim>\<open>PTRDIFF_MAX\<close> bytes or when there is no memory for it: \<open>alloc n\<close> says whether
  the allocation of \<open>n\<close> bytes succeeds. \<open>writable name\<close> says whether the output file can be opened and
  takes all the bytes; the state of the output stream is never looked at, so that \<^verbatim>\<open>main\<close> ends
  with \<^verbatim>\<open>EXIT_SUCCESS\<close> either way.
\<close>

datatype index_exit =
    IndexFailure
  | IndexUndefined
  | IndexThrows
  | IndexNoReturn
  | IndexNotWritten
  | IndexWritten "u8 list"

definition index_main ::
  "(nat \<Rightarrow> bool) \<Rightarrow> (string \<Rightarrow> bool) \<Rightarrow> files \<Rightarrow> string \<Rightarrow> string \<Rightarrow> nat \<Rightarrow> index_exit" where
  "index_main alloc writable fs inputFilename outputFilename bits =
     (if inputFilename = [] then IndexFailure
      else if outputFilename = [] then IndexFailure
      else if bits = 0 \<or> 64 \<le> bits then IndexUndefined
      else let input = (case fs inputFilename of None \<Rightarrow> failed_open | Some e \<Rightarrow> open_ifstream e);
               bytes = 8 * unat (index_size bits)
           in if 2 ^ 63 \<le> bytes \<or> \<not> alloc bytes then IndexThrows
              else case build_table bits input of
                     None \<Rightarrow> IndexNoReturn
                   | Some indexes \<Rightarrow>
                       if writable outputFilename then IndexWritten (index_file indexes) else IndexNotWritten)"

section \<open>What the table holds\<close>

definition bucket :: "nat \<Rightarrow> quad \<Rightarrow> u64" where
  "bucket sh q = drop_bit sh (upper q)"

text \<open>The position of the first entry of bucket \<open>b\<close>, or all ones.\<close>

definition first_pos :: "nat \<Rightarrow> entry list \<Rightarrow> nat \<Rightarrow> u64" where
  "first_pos sh es b =
     (let i = length (takeWhile (\<lambda>e. unat (bucket sh (fst e)) \<noteq> b) es)
      in if i < length es then word_of_nat (20 * i) else - 1)"

definition index_table :: "nat \<Rightarrow> nat \<Rightarrow> entry list \<Rightarrow> u64 list" where
  "index_table bits sh es = map (first_pos sh es) [0 ..< 2 ^ bits]"

lemma length_index_table [simp]: "length (index_table bits sh es) = 2 ^ bits"
  by (simp add: index_table_def)

lemma length_takeWhile_found: "\<exists>x \<in> set xs. \<not> P x \<Longrightarrow> length (takeWhile P xs) < length xs"
  by (induction xs) auto

lemma first_pos_snoc:
  "first_pos sh (xs @ [e]) b =
     (if \<exists>x \<in> set xs. unat (bucket sh (fst x)) = b then first_pos sh xs b
      else if unat (bucket sh (fst e)) = b then word_of_nat (20 * length xs) else - 1)"
proof (cases "\<exists>x \<in> set xs. unat (bucket sh (fst x)) = b")
  case True
  then have "takeWhile (\<lambda>e. unat (bucket sh (fst e)) \<noteq> b) (xs @ [e]) =
      takeWhile (\<lambda>e. unat (bucket sh (fst e)) \<noteq> b) xs"
    by (auto intro: takeWhile_append1)
  moreover have "length (takeWhile (\<lambda>e. unat (bucket sh (fst e)) \<noteq> b) xs) < length xs"
    using True by (intro length_takeWhile_found) auto
  ultimately show ?thesis using True by (simp add: first_pos_def Let_def)
next
  case False
  then have "takeWhile (\<lambda>e. unat (bucket sh (fst e)) \<noteq> b) (xs @ [e]) =
      xs @ takeWhile (\<lambda>e. unat (bucket sh (fst e)) \<noteq> b) [e]"
    by (intro takeWhile_append2) auto
  then show ?thesis using False by (simp add: first_pos_def Let_def)
qed

lemma first_pos_none: "\<forall>x \<in> set es. unat (bucket sh (fst x)) \<noteq> b \<Longrightarrow> first_pos sh es b = - 1"
proof -
  assume a: "\<forall>x \<in> set es. unat (bucket sh (fst x)) \<noteq> b"
  then have "takeWhile (\<lambda>e. unat (bucket sh (fst e)) \<noteq> b) es = es"
    unfolding takeWhile_eq_all_conv .
  then show "first_pos sh es b = - 1" by (simp only: first_pos_def Let_def) simp
qed

text \<open>The buckets are ordered as the hashes are, and there are \<open>2 ^ bits\<close> of them.\<close>

lemma drop_bit_mono_word: "v \<le> w \<Longrightarrow> drop_bit n v \<le> drop_bit n (w :: 'a::len word)"
  unfolding word_le_nat_alt unat_drop_bit_eq drop_bit_eq_div [where ?'a = nat] by (rule div_le_mono)

lemma bucket_mono: "q \<le> q' \<Longrightarrow> bucket sh q \<le> bucket sh q'"
  by (auto simp: bucket_def less_eq_quad_def less_quad_def split: if_splits intro: drop_bit_mono_word order_less_imp_le)

lemma bucket_less: "bucket sh q < bucket sh q' \<Longrightarrow> q < q'"
  using bucket_mono [of q' q sh] by (meson leD leI)

lemma index_shift: "0 < bits \<Longrightarrow> bits < 64 \<Longrightarrow> index_shift bits = 64 - bits"
  by (simp add: index_shift_def nat_diff_distrib)

lemma unat_bucket:
  assumes "bits \<le> 64"
  shows "unat (bucket (64 - bits) q) < 2 ^ bits"
proof -
  have "unat (upper q) < 2 ^ bits * 2 ^ (64 - bits)"
    using unsigned_less [of "upper q", where ?'a = nat] assms by (simp add: power_add [symmetric])
  then have "unat (upper q) div 2 ^ (64 - bits) < 2 ^ bits"
    by (simp add: less_mult_imp_div_less)
  then show ?thesis unfolding bucket_def unat_drop_bit_eq drop_bit_eq_div [where ?'a = nat] .
qed

lemma index_size:
  assumes "0 < bits" and "bits < 64"
  shows "unat (index_size bits) = 2 ^ bits"
proof -
  have "unat (drop_bit (64 - bits) (- 1 :: u64)) = 2 ^ bits - 1"
  proof -
    have "(2 ^ 64 - 1) div 2 ^ (64 - bits) = (2 ^ bits - 1 :: nat)"
    proof -
      have e: "(2 :: nat) ^ 64 = 2 ^ bits * 2 ^ (64 - bits)"
        using assms by (simp add: power_add [symmetric])
      have "(2 :: nat) ^ 64 - 1 = (2 ^ bits - 1) * 2 ^ (64 - bits) + (2 ^ (64 - bits) - 1)"
        unfolding e by (simp add: algebra_simps)
      moreover have "(a * c + (c - 1)) div c = a" if "0 < c" for a c :: nat
        using that by (subst div_mult_self3) auto
      ultimately show ?thesis by (simp only: zero_less_power zero_less_numeral)
    qed
    moreover have "unat (- 1 :: u64) = 2 ^ 64 - 1" by (simp add: unsigned_minus_1_eq_mask mask_eq_exp_minus_1)
    ultimately show ?thesis by (simp only: unat_drop_bit_eq drop_bit_eq_div [where ?'a = nat])
  qed
  moreover have "(2 :: nat) ^ bits < 2 ^ 64" using assms by (intro power_strict_increasing) auto
  ultimately show ?thesis
    using assms by (simp add: index_size_def index_shift unat_word_ariths)
qed

section \<open>Correctness of the scan\<close>

lemma eofbit_phc_read:
  assumes "reads f es" and "\<not> eofbit f" and "position f = 20 * k" and "k < length es"
  shows "phc_read p f = (True, set_entry p (es ! k), f\<lparr>position := 20 * Suc k\<rparr>)"
  using assms by (intro phc_read_entry) (auto simp: reads_def good_def fail_def)

lemma index_loop_done: "eofbit f \<Longrightarrow> index_loop sh f p indexes lastIdx idx pos = Some (indexes, idx, pos)"
  by (subst index_loop.simps) simp

lemma index_loop_new:
  assumes "\<not> eofbit f" and "phc_read p f = (ok, p', f')" and "lastIdx < bucket sh (quad (phc_hash p'))"
    and "tellg f' = (at, f'')"
  shows "index_loop sh f p indexes lastIdx idx pos =
    index_loop sh f'' p' (indexes[unat (bucket sh (quad (phc_hash p'))) := word_of_int at - 20])
      (bucket sh (quad (phc_hash p'))) (bucket sh (quad (phc_hash p'))) (word_of_int at - 20)"
  using assms(1,3) unfolding bucket_def
  by (subst index_loop.simps) (simp only: assms Let_def fst_conv snd_conv if_True if_False)

lemma index_loop_same:
  assumes "\<not> eofbit f" and "phc_read p f = (ok, p', f')" and "\<not> lastIdx < bucket sh (quad (phc_hash p'))"
  shows "index_loop sh f p indexes lastIdx idx pos =
    index_loop sh f' p' indexes lastIdx (bucket sh (quad (phc_hash p'))) pos"
  using assms(1,3) unfolding bucket_def
  by (subst index_loop.simps) (simp only: assms Let_def fst_conv snd_conv if_True if_False)

text \<open>What the variables hold after \<open>k\<close> records.\<close>

definition scanned ::
  "nat \<Rightarrow> nat \<Rightarrow> entry list \<Rightarrow> nat \<Rightarrow> u8 istream \<Rightarrow> phc \<Rightarrow> u64 list \<Rightarrow> u64 \<Rightarrow> u64 \<Rightarrow> bool" where
  "scanned sh M es k f p indexes lastIdx pos \<longleftrightarrow>
     0 < k \<and> k \<le> length es \<and> reads f es \<and> \<not> eofbit f \<and> position f = 20 * k \<and>
     quad (phc_hash p) = fst (es ! (k - 1)) \<and> lastIdx = bucket sh (fst (es ! (k - 1))) \<and>
     indexes = map (first_pos sh (take k es)) [0 ..< M] \<and>
     pos = first_pos sh (take k es) (unat lastIdx)"

lemma scanned_le:
  assumes "sorted_file es" and "scanned sh M es k f p indexes lastIdx pos" and "x \<in> set (take k es)"
  shows "bucket sh (fst x) \<le> lastIdx"
proof -
  from assms(3) obtain i where i: "i < k" "i < length es" "x = es ! i"
    by (auto simp: in_set_conv_nth)
  moreover have "i \<le> k - 1" "k - 1 < length es" using i assms(2) by (auto simp: scanned_def)
  ultimately show ?thesis
    using assms(2) sorted_file_nth [OF assms(1), of i "k - 1"] by (simp add: bucket_mono scanned_def)
qed

lemma scanned_last: "scanned sh M es k f p indexes lastIdx pos \<Longrightarrow>
    \<exists>x \<in> set (take k es). bucket sh (fst x) = lastIdx"
  by (auto simp: scanned_def in_set_conv_nth intro!: bexI [of _ "es ! (k - 1)"] exI [of _ "k - 1"])

lemma scanned_new:
  assumes "sorted_file es" and s: "scanned sh M es k f p indexes lastIdx pos" and k: "k < length es"
    and new: "lastIdx < bucket sh (fst (es ! k))"
  defines "b \<equiv> bucket sh (fst (es ! k))"
  shows "scanned sh M es (Suc k) (f\<lparr>position := 20 * Suc k\<rparr>) (set_entry p (es ! k))
    (indexes[unat b := word_of_nat (20 * k)]) b (word_of_nat (20 * k))"
proof -
  have tk: "take (Suc k) es = take k es @ [es ! k]" using k by (simp add: take_Suc_conv_app_nth)
  have none: "\<forall>x \<in> set (take k es). unat (bucket sh (fst x)) \<noteq> unat b"
    using scanned_le [OF assms(1) s] new by (force simp: b_def word_unat_eq_iff [symmetric])
  then have old: "first_pos sh (take k es) (unat b) = - 1" by (rule first_pos_none)
  have row: "first_pos sh (take (Suc k) es) j =
      (if j = unat b then word_of_nat (20 * k) else first_pos sh (take k es) j)" for j
    using none old k first_pos_none [of "take k es" sh j]
    by (auto simp: tk first_pos_snoc b_def)
  have "indexes[unat b := word_of_nat (20 * k)] = map (first_pos sh (take (Suc k) es)) [0 ..< M]"
    using s by (intro nth_equalityI) (auto simp: scanned_def nth_list_update row)
  then show ?thesis
    using s k by (simp add: scanned_def row reads_def fail_def) (simp add: b_def)
qed

lemma scanned_same:
  assumes "sorted_file es" and s: "scanned sh M es k f p indexes lastIdx pos" and k: "k < length es"
    and same: "\<not> lastIdx < bucket sh (fst (es ! k))"
  shows "bucket sh (fst (es ! k)) = lastIdx \<and>
    scanned sh M es (Suc k) (f\<lparr>position := 20 * Suc k\<rparr>) (set_entry p (es ! k)) indexes lastIdx pos"
proof -
  have tk: "take (Suc k) es = take k es @ [es ! k]" using k by (simp add: take_Suc_conv_app_nth)
  have "lastIdx \<le> bucket sh (fst (es ! k))"
    using k s sorted_file_nth [OF assms(1), of "k - 1" k] by (simp add: bucket_mono scanned_def)
  with same have b: "bucket sh (fst (es ! k)) = lastIdx" by simp
  obtain x where x: "x \<in> set (take k es)" "bucket sh (fst x) = lastIdx"
    using scanned_last [OF s] by blast
  then have row: "first_pos sh (take (Suc k) es) j = first_pos sh (take k es) j" for j
    using first_pos_none [of "take k es" sh j] by (auto simp: tk first_pos_snoc b)
  show ?thesis
    using s k b by (simp add: scanned_def row reads_def fail_def)
qed

lemma index_loop_correct:
  assumes "sorted_file es" and "scanned sh M es k f p indexes lastIdx pos"
  shows "index_loop sh f p indexes lastIdx idx pos =
    Some (map (first_pos sh es) [0 ..< M], bucket sh (fst (last es)),
          first_pos sh es (unat (bucket sh (fst (last es)))))"
  using assms
proof (induction "length es - k" arbitrary: k f p indexes lastIdx idx pos)
  case 0
  note s = "0.prems"(2)
  let ?f' = "f\<lparr>eofbit := True, failbit := True\<rparr>"
  have k: "k = length es" using s 0 by (simp add: scanned_def)
  have r: "phc_read p f = (False, p, ?f')"
    using s k by (intro phc_read_eof) (auto simp: scanned_def reads_def good_def fail_def)
  have l: "last es = es ! (k - 1)" using s k by (subst last_conv_nth) (auto simp: scanned_def)
  have b: "bucket sh (quad (phc_hash p)) = lastIdx" using s by (simp add: scanned_def)
  have "index_loop sh f p indexes lastIdx idx pos = index_loop sh ?f' p indexes lastIdx lastIdx pos"
    using index_loop_same [OF _ r, of lastIdx sh indexes idx pos] s by (simp add: b scanned_def)
  then show ?case using s k by (simp add: index_loop_done scanned_def l)
next
  case (Suc m)
  note s = Suc.prems(2)
  let ?e = "es ! k"
  let ?p' = "set_entry p ?e" and ?f' = "f\<lparr>position := 20 * Suc k\<rparr>" and ?b = "bucket sh (fst ?e)"
  have k: "k < length es" and m: "m = length es - Suc k" using Suc.hyps(2) by simp_all
  have e: "\<not> eofbit f" using s by (simp add: scanned_def)
  have r: "phc_read p f = (True, ?p', ?f')"
    using s k by (intro eofbit_phc_read) (auto simp: scanned_def)
  show ?case
  proof (cases "lastIdx < ?b")
    case True
    have t: "tellg ?f' = (20 * int (Suc k), ?f')"
      using s by (simp add: tellg_def scanned_def reads_def good_def fail_def)
    have "word_of_int (20 * int (Suc k)) - 20 = (word_of_nat (20 * k) :: u64)" by simp
    then show ?thesis
      using index_loop_new [OF e r _ t, of lastIdx sh indexes idx pos] True
        Suc.hyps(1) [OF m assms(1) scanned_new [OF assms(1) s k True]]
      by simp
  next
    case False
    note n = scanned_same [OF assms(1) s k False]
    then show ?thesis
      using index_loop_same [OF e r, of lastIdx sh indexes idx pos] False
        Suc.hyps(1) [OF m assms(1)]
      by simp
  qed
qed

lemma build_table_correct:
  assumes "sorted_file es" and "es \<noteq> []" and "0 < bits" and "bits < 64"
  shows "build_table bits (open_stream (file_of es)) = Some (index_table bits (64 - bits) es)"
proof -
  let ?f = "open_stream (file_of es)" and ?sh = "64 - bits"
  let ?f1 = "?f\<lparr>position := 20\<rparr>" and ?p = "set_entry emptyPHC (es ! 0)"
  let ?b = "bucket ?sh (fst (es ! 0))" and ?M = "2 ^ bits :: nat"
  let ?tab = "(replicate ?M (- 1 :: u64))[unat ?b := 0]"
  have r: "phc_read emptyPHC ?f = (True, ?p, ?f1)"
    using phc_read_entry [of ?f es 0 emptyPHC] assms(2) by simp
  have tk: "take 1 es = [] @ [es ! 0]" using assms(2) by (cases es) auto
  have row: "first_pos ?sh (take 1 es) j = (if j = unat ?b then 0 else - 1)" for j
    unfolding tk first_pos_snoc by simp
  have "?tab = map (first_pos ?sh (take 1 es)) [0 ..< ?M]"
    by (intro nth_equalityI) (auto simp: nth_list_update row [unfolded One_nat_def])
  then have s: "scanned ?sh ?M es 1 ?f1 ?p ?tab ?b 0"
    using assms(2) by (simp add: scanned_def row [unfolded One_nat_def] reads_def fail_def Suc_leI)
  let ?l = "unat (bucket ?sh (fst (last es)))"
  have "?l < ?M" using assms(4) by (intro unat_bucket) simp
  then have "(map (first_pos ?sh es) [0 ..< ?M])[?l := first_pos ?sh es ?l] = index_table bits ?sh es"
    by (intro nth_equalityI) (auto simp: nth_list_update index_table_def)
  then show ?thesis
    using index_loop_correct [OF assms(1) s, of 0] assms(3,4)
    by (simp add: build_table_def Let_def index_shift index_size r bucket_def [symmetric])
qed

lemma build_table_empty:
  assumes "0 < bits" and "bits < 64"
  shows "build_table bits (open_stream (file_of [])) = Some (0 # replicate (2 ^ bits - 1) (- 1))"
proof -
  have r: "phc_read emptyPHC (open_stream (file_of [])) =
      (False, emptyPHC, (open_stream (file_of []))\<lparr>eofbit := True, failbit := True\<rparr>)"
    by (intro phc_read_eof [of _ "[]"]) auto
  have q: "drop_bit n (upper (quad (phc_hash emptyPHC))) = 0" for n
    by (simp add: emptyPHC_def emptyHash_def)
  have "replicate (2 ^ bits) (- 1 :: u64) = - 1 # replicate (2 ^ bits - 1) (- 1)"
    by (cases "(2 :: nat) ^ bits") simp_all
  then show ?thesis
    using assms by (simp add: build_table_def Let_def index_shift index_size r q index_loop_done)
qed

text \<open>A stream in the fail state never reaches the end of the file.\<close>

lemma index_loop_stuck:
  assumes "fail f" and "\<not> eofbit f"
  shows "index_loop sh f p indexes lastIdx idx pos = None"
proof (rule ccontr)
  assume "index_loop sh f p indexes lastIdx idx pos \<noteq> None"
  then obtain r where "index_loop sh f p indexes lastIdx idx pos = Some r" by blast
  then have "\<not> (fail f \<and> \<not> eofbit f)"
  proof (rule index_loop.raw_induct [rotated])
    fix g sh f p indexes lastIdx idx pos r
    assume IH: "\<And>sh f p indexes lastIdx idx pos r.
        g sh f p indexes lastIdx idx pos = Some r \<Longrightarrow> \<not> (fail f \<and> \<not> eofbit f)"
      and eq: "(if eofbit f then Some (indexes, idx, pos)
      else let r = phc_read p f;
               p' = fst (snd r); f' = snd (snd r);
               idx' = drop_bit sh (upper (quad (phc_hash p')))
           in if idx' > lastIdx
              then let t = tellg f';
                       pos' = word_of_int (fst t) - 20
                   in g sh (snd t) p' (indexes[unat idx' := pos']) idx' idx' pos'
              else g sh f' p' indexes lastIdx idx' pos) = Some r"
    show "\<not> (fail f \<and> \<not> eofbit f)"
    proof
      assume f: "fail f \<and> \<not> eofbit f"
      let ?f' = "f\<lparr>failbit := True\<rparr>"
      have st: "fail ?f' \<and> \<not> eofbit ?f'" using f by (simp add: fail_def)
      have r: "phc_read p f = (False, p, ?f')"
        using f by (intro phc_read_failed) (auto simp: good_def fail_def)
      have t: "tellg ?f' = (- 1, ?f')" by (simp add: tellg_def good_def)
      from eq f show False
        using IH [of sh ?f' p _ _ _ _ r] st by (simp only: r t Let_def fst_conv snd_conv) (auto split: if_splits)
    qed
  qed
  with assms show False by simp
qed

text \<open>How \<^verbatim>\<open>main\<close> ends, by the number of bits, the memory and the output file.\<close>

lemma index_bytes:
  assumes "0 < bits" and "bits < 64"
  shows "2 ^ 63 \<le> 8 * unat (index_size bits) \<longleftrightarrow> 60 \<le> bits"
proof -
  have "8 * unat (index_size bits) = (2 :: nat) ^ (3 + bits)"
    unfolding index_size [OF assms] power_add by simp
  moreover have "(2 :: nat) ^ 63 \<le> 2 ^ (3 + bits) \<longleftrightarrow> 63 \<le> 3 + bits"
    by (rule power_increasing_iff) simp
  ultimately show ?thesis by simp
qed

lemma index_main_unreadable:
  assumes "fs i = None \<or> fs i = Some (bs, False)" and "i \<noteq> []" and "out \<noteq> []"
    and "0 < bits" and "bits < 60" and "alloc (8 * 2 ^ bits)"
  shows "index_main alloc writable fs i out bits = IndexNoReturn"
proof -
  let ?f = "failed_open :: u8 istream"
  let ?f' = "?f\<lparr>failbit := True\<rparr>"
  have st: "fail ?f' \<and> \<not> eofbit ?f'" by (simp add: failed_open_def fail_def)
  have r: "phc_read emptyPHC ?f = (False, emptyPHC, ?f')"
    by (intro phc_read_failed) (simp add: failed_open_def good_def)
  have "build_table bits ?f = None"
    using st by (simp add: build_table_def Let_def r index_loop_stuck)
  then show ?thesis
    using assms index_bytes [of bits] index_size [of bits] by (auto simp: index_main_def open_ifstream_def)
qed

lemma index_main_correct:
  assumes "fs i = Some (file_of es, True)" and "i \<noteq> []" and "out \<noteq> []"
    and "sorted_file es" and "es \<noteq> []" and "0 < bits" and "bits < 64"
  shows "index_main alloc writable fs i out bits =
    (if 60 \<le> bits \<or> \<not> alloc (8 * 2 ^ bits) then IndexThrows
     else if writable out then IndexWritten (index_file (index_table bits (64 - bits) es))
     else IndexNotWritten)"
  using assms index_bytes [OF assms(6,7)] index_size [OF assms(6,7)]
  by (simp add: index_main_def open_ifstream_def build_table_correct)

lemma index_main_ok:
  assumes "fs i = Some (file_of es, True)" and "i \<noteq> []" and "out \<noteq> []"
    and "sorted_file es" and "es \<noteq> []" and "0 < bits" and "bits < 60"
  shows "index_main (\<lambda>n. True) (\<lambda>name. True) fs i out bits =
    IndexWritten (index_file (index_table bits (64 - bits) es))"
  using assms by (simp add: index_main_correct)

end
