(* ===== verification/Indexed_Lookup.thy ===== *)
theory Indexed_Lookup
  imports Indexer
begin

text \<open>
  Looking hashes up through an index: the two scans of the index around the bucket of the hash,
  the bounds they give, when they are right and when they never end.
\<close>

section \<open>Reading the index\<close>

definition keys :: "u8 istream \<Rightarrow> u64 list \<Rightarrow> bool" where
  "keys f tab \<longleftrightarrow> opened f \<and> \<not> fail f \<and> contents f = index_file tab"

lemma keys_step [simp]: "keys (f\<lparr>eofbit := b, position := k\<rparr>) tab = keys f tab"
  by (simp add: keys_def fail_def)

lemma sint_keep: "- (2 ^ 63) \<le> v \<Longrightarrow> v < 2 ^ 63 \<Longrightarrow> sint (word_of_int v :: u64) = v"
  by (simp add: sint_sbintrunc' signed_take_bit_int_eq_self)

lemma read_off_slot:
  assumes "keys f tab" and "k < length tab"
  shows "read_off v (seekg (8 * int k) f) =
    (sint (tab ! k), f\<lparr>eofbit := False, position := 8 * Suc k\<rparr>)"
proof -
  have s: "seekg (8 * int k) f = f\<lparr>eofbit := False, position := 8 * k\<rparr>"
    using assms(1) by (simp add: keys_def seekg_ok nat_mult_distrib)
  have "is_read 8 (f\<lparr>eofbit := False, position := 8 * k\<rparr>) =
      (le_bytes 8 (tab ! k), f\<lparr>eofbit := False, position := 8 * k\<rparr>\<lparr>position := 8 * Suc k\<rparr>)"
    using assms by (intro key_file.read_record) (auto simp: keys_def good_def fail_def index_file_def)
  then show ?thesis by (simp add: read_off_def s)
qed

lemma read_off_nothing:
  assumes "is_read 8 f = ([], f')" and "- (2 ^ 63) \<le> v" and "v < 2 ^ 63"
  shows "read_off v f = (v, f')"
  using assms by (simp add: read_off_def sint_keep)

lemma read_off_end:
  assumes "keys f tab" and "- (2 ^ 63) \<le> v" and "v < 2 ^ 63"
  shows "\<exists>f'. read_off v (seekg (8 * int (length tab)) f) = (v, f') \<and> fail f' \<and> opened f'"
proof -
  let ?f = "f\<lparr>eofbit := False, position := 8 * length tab\<rparr>"
  have s: "seekg (8 * int (length tab)) f = ?f"
    using assms(1) by (simp add: keys_def seekg_ok nat_mult_distrib)
  have "is_read 8 ?f = ([], ?f\<lparr>eofbit := True, failbit := True\<rparr>)"
    using assms(1) by (intro key_file.read_at_end) (auto simp: keys_def good_def fail_def index_file_def)
  then show ?thesis
    using assms by (simp add: s read_off_nothing keys_def fail_def)
qed

lemma read_off_failed:
  assumes "fail f" and "- (2 ^ 63) \<le> v" and "v < 2 ^ 63"
  shows "\<exists>f'. read_off v (seekg p f) = (v, f') \<and> fail f' \<and> opened f' = opened f"
proof -
  have "is_read 8 (seekg p f) = ([], (seekg p f)\<lparr>failbit := True\<rparr>)"
    using fail_seekg [OF assms(1)] by (simp add: is_read_fail)
  then show ?thesis using assms(2,3) by (simp add: read_off_nothing fail_def)
qed

lemma index_scan_step:
  assumes "read_off v (seekg at f) = (w, f')"
  shows "index_scan step v at f n =
    (if w = - 1 then index_scan step w (to_s64 (at + step)) f' (Suc n) else Some (w, f', Suc n))"
  by (subst index_scan.simps) (simp add: assms Let_def)

text \<open>A stream that has failed answers with the value it was given, at once unless that is -1, in
  which case the loop does not end.\<close>

lemma index_scan_failed:
  assumes "fail f" and "v \<noteq> - 1" and "- (2 ^ 63) \<le> v" and "v < 2 ^ 63"
  shows "\<exists>f'. index_scan step v at f n = Some (v, f', Suc n) \<and> fail f' \<and> opened f' = opened f"
  using read_off_failed [OF assms(1,3,4), of at] assms(2) index_scan_step [of v at f v _ step n] by auto

lemma index_scan_stuck:
  assumes "fail f"
  shows "index_scan step (- 1) at f n = None"
proof (rule ccontr)
  assume "index_scan step (- 1) at f n \<noteq> None"
  then obtain r where "index_scan step (- 1) at f n = Some r" by blast
  then have "\<not> (fail f \<and> (- 1 :: int) = - 1)"
  proof (rule index_scan.raw_induct [where P = "\<lambda>step v at f n r. \<not> (fail f \<and> v = - 1)", rotated])
    fix g step v at f n r
    assume IH: "\<And>step v at f n r. g step v at f n = Some r \<Longrightarrow> \<not> (fail f \<and> v = - 1)"
      and eq: "(let r = read_off v (seekg at f)
        in if fst r = - 1 then g step (fst r) (to_s64 (at + step)) (snd r) (Suc n)
           else Some (fst r, snd r, Suc n)) = Some r"
    show "\<not> (fail f \<and> v = - 1)"
    proof
      assume "fail f \<and> v = - 1"
      with read_off_failed [of f v at] obtain f' where "read_off v (seekg at f) = (- 1, f')" "fail f'" by auto
      with eq IH [of step "- 1" _ f' "Suc n" r] show False by (simp add: Let_def)
    qed
  qed
  with assms show False by simp
qed

section \<open>The two scans\<close>

abbreviation bk :: "nat \<Rightarrow> entry \<Rightarrow> nat" where
  "bk sh e \<equiv> unat (bucket sh (fst e))"

lemma find_snoc: "find P (xs @ [x]) = (case find P xs of None \<Rightarrow> if P x then Some x else None | Some y \<Rightarrow> Some y)"
  by (induction xs) auto

lemma first_pos_find:
  "first_pos sh es k =
     (case find (\<lambda>i. bk sh (es ! i) = k) [0 ..< length es] of None \<Rightarrow> - 1 | Some i \<Rightarrow> word_of_nat (20 * i))"
proof (induction es rule: rev_induct)
  case (snoc e es)
  have "find (\<lambda>i. bk sh ((es @ [e]) ! i) = k) [0 ..< length es] = find (\<lambda>i. bk sh (es ! i) = k) [0 ..< length es]"
    by (intro find_cong) (auto simp: nth_append)
  then have f: "find (\<lambda>i. bk sh ((es @ [e]) ! i) = k) [0 ..< length (es @ [e])] =
      (case find (\<lambda>i. bk sh (es ! i) = k) [0 ..< length es] of
         None \<Rightarrow> if bk sh e = k then Some (length es) else None | Some i \<Rightarrow> Some i)"
    by (simp add: find_snoc)
  show ?case
  proof (cases "find (\<lambda>i. bk sh (es ! i) = k) [0 ..< length es]")
    case None
    then have "\<not> (\<exists>x \<in> set es. bk sh x = k)" by (fastforce simp: find_None_iff in_set_conv_nth)
    then show ?thesis using f None by (simp add: first_pos_snoc)
  next
    case (Some i)
    then have "\<exists>x \<in> set es. bk sh x = k" by (auto simp: find_Some_iff)
    then show ?thesis using f Some snoc by (simp add: first_pos_snoc)
  qed
qed (simp add: first_pos_def)

text \<open>Slot \<open>k\<close> of the table, as the scans see it.\<close>

lemma slot_occupied:
  assumes "sorted_file es" and "20 * int (length es) < 2 ^ 63" and "\<exists>e \<in> set es. bk sh e = k"
  shows "\<exists>i < length es. sint (first_pos sh es k) = 20 * int i \<and> bk sh (es ! i) = k \<and> (\<forall>j < i. bk sh (es ! j) < k)"
proof -
  let ?P = "\<lambda>e. bk sh e \<noteq> k"
  define i where "i = length (takeWhile ?P es)"
  have i: "i < length es" unfolding i_def using assms(3) by (intro length_takeWhile_found) auto
  have b: "bk sh (es ! i) = k" using nth_length_takeWhile [of ?P es] i by (simp add: i_def)
  have lt: "bk sh (es ! j) < k" if "j < i" for j
  proof -
    have "es ! j \<in> set (takeWhile ?P es)" using that by (metis i_def nth_mem takeWhile_nth)
    then have "bk sh (es ! j) \<noteq> k" by (auto dest: set_takeWhileD)
    moreover have "bk sh (es ! j) \<le> bk sh (es ! i)"
      using sorted_file_nth [OF assms(1), of j i] that i by (simp add: bucket_mono word_le_nat_alt [symmetric])
    ultimately show ?thesis using b by simp
  qed
  have "first_pos sh es k = word_of_int (20 * int i)"
    using i by (simp add: first_pos_def Let_def i_def [symmetric])
  moreover have "20 * int i < 2 ^ 63" using i assms(2) by simp
  ultimately have "sint (first_pos sh es k) = 20 * int i" using sint_keep [of "20 * int i"] by simp
  with i b lt show ?thesis by blast
qed

lemma slot_empty: "\<not> (\<exists>e \<in> set es. bk sh e = k) \<Longrightarrow> sint (first_pos sh es k) = - 1"
  by (simp add: first_pos_none)

text \<open>A sorted file and an index width for which all offsets are positive 64-bit numbers.\<close>

definition indexable :: "entry list \<Rightarrow> nat \<Rightarrow> bool" where
  "indexable es bits \<longleftrightarrow> sorted_file es \<and> 20 * int (length es) < 2 ^ 63 \<and> 0 < bits \<and> bits < 60"

lemma small_offset: "indexable es bits \<Longrightarrow> k \<le> 2 ^ bits \<Longrightarrow> 8 * int k < 2 ^ 63"
proof -
  assume "indexable es bits" "k \<le> 2 ^ bits"
  moreover from this(1) have "(2 :: nat) ^ bits < 2 ^ 60"
    by (intro power_strict_increasing) (auto simp: indexable_def)
  ultimately show ?thesis by simp
qed

lemma read_off_table:
  assumes "keys f (index_table bits sh es)" and "k < 2 ^ bits"
  shows "read_off v (seekg (8 * int k) f) = (sint (first_pos sh es k), f\<lparr>eofbit := False, position := 8 * Suc k\<rparr>)"
  using read_off_slot [OF assms(1), of k v] assms(2) by (simp add: index_table_def)

text \<open>A scan that starts in an occupied slot stops there; in an empty one it moves on.\<close>

lemma scan_here:
  assumes "indexable es bits" and "keys f (index_table bits sh es)" and "k < 2 ^ bits" and "\<exists>e \<in> set es. bk sh e = k"
  shows "\<exists>i f'. index_scan step v (8 * int k) f n = Some (20 * int i, f', Suc n) \<and> keys f' (index_table bits sh es) \<and>
    i < length es \<and> bk sh (es ! i) = k \<and> (\<forall>j < i. bk sh (es ! j) < bk sh (es ! i))"
proof -
  obtain i where i: "i < length es" "sint (first_pos sh es k) = 20 * int i" "bk sh (es ! i) = k"
      "\<forall>j < i. bk sh (es ! j) < k"
    using slot_occupied [OF _ _ assms(4)] assms(1) by (auto simp: indexable_def)
  have "20 * int i \<noteq> - 1" by presburger
  then show ?thesis
    using i assms(2) index_scan_step [OF read_off_table [OF assms(2,3), of v], of step n] by auto
qed

lemma scan_on:
  assumes "keys f (index_table bits sh es)" and "k < 2 ^ bits" and "\<not> (\<exists>e \<in> set es. bk sh e = k)"
  shows "\<exists>f'. index_scan step v (8 * int k) f n = index_scan step (- 1) (to_s64 (8 * int k + step)) f' (Suc n) \<and>
    keys f' (index_table bits sh es)"
  using index_scan_step [OF read_off_table [OF assms(1,2), of v], of step n] slot_empty [OF assms(3)] assms(1) by auto

lemma scan_down:
  assumes "indexable es bits" and "keys f (index_table bits sh es)" and "k < 2 ^ bits" and "\<exists>e \<in> set es. bk sh e \<le> k"
  shows "\<exists>i f' n'. index_scan (- 8) v (8 * int k) f n = Some (20 * int i, f', n') \<and> keys f' (index_table bits sh es) \<and>
    i < length es \<and> bk sh (es ! i) \<le> k \<and> (\<forall>j < i. bk sh (es ! j) < bk sh (es ! i))"
  using assms(2-)
proof (induction k arbitrary: f v n)
  case 0
  then show ?case using scan_here [OF assms(1), of f sh 0 "- 8" v n] by fastforce
next
  case (Suc k)
  show ?case
  proof (cases "\<exists>e \<in> set es. bk sh e = Suc k")
    case True
    then show ?thesis using scan_here [OF assms(1) Suc.prems(1,2), of "- 8" v n] by fastforce
  next
    case False
    then have le: "\<exists>e \<in> set es. bk sh e \<le> k" using Suc.prems(3) by (auto simp: le_Suc_eq)
    have at: "to_s64 (8 * int (Suc k) + - 8) = 8 * int k" using small_offset [OF assms(1), of "Suc k"] Suc.prems(2) by simp
    obtain f' where f': "keys f' (index_table bits sh es)"
      "index_scan (- 8) v (8 * int (Suc k)) f n = index_scan (- 8) (- 1) (8 * int k) f' (Suc n)"
      using scan_on [OF Suc.prems(1,2) False, of "- 8" v n] unfolding at by blast
    then show ?thesis using Suc.IH [OF f'(1) _ le, of "- 1" "Suc n"] Suc.prems(2) by (force intro: le_SucI)
  qed
qed

lemma scan_down_stuck:
  assumes "indexable es bits" and "keys f (index_table bits sh es)" and "k < 2 ^ bits" and "\<forall>e \<in> set es. k < bk sh e"
  shows "index_scan (- 8) v (8 * int k) f n = None"
  using assms(2-)
proof (induction k arbitrary: f v n)
  case 0
  then obtain f' where f': "index_scan (- 8) v (8 * int 0) f n = index_scan (- 8) (- 1) (- 8) f' (Suc n)"
    using scan_on [OF "0.prems"(1,2), of "- 8" v n] by auto
  have "is_read 8 (seekg (- 8) f') = ([], f'\<lparr>eofbit := False, failbit := True\<rparr>)"
    by (simp add: seekg_negative is_read_def good_def)
  then have r: "read_off (- 1) (seekg (- 8) f') = (- 1, f'\<lparr>eofbit := False, failbit := True\<rparr>)"
    by (simp add: read_off_nothing)
  then show ?case
    unfolding f' index_scan_step [OF r] by (simp add: index_scan_stuck fail_def)
next
  case (Suc k)
  have at: "to_s64 (8 * int (Suc k) + - 8) = 8 * int k" using small_offset [OF assms(1), of "Suc k"] Suc.prems(2) by simp
  have "\<not> (\<exists>e \<in> set es. bk sh e = Suc k)" and lt: "\<forall>e \<in> set es. k < bk sh e" using Suc.prems(3) by auto
  then obtain f' where f': "keys f' (index_table bits sh es)"
      "index_scan (- 8) v (8 * int (Suc k)) f n = index_scan (- 8) (- 1) (8 * int k) f' (Suc n)"
    using scan_on [OF Suc.prems(1,2), of "- 8" v n] unfolding at by blast
  then show ?case using Suc.IH [OF f'(1) _ lt] Suc.prems(2) by simp
qed

lemma scan_up:
  assumes "indexable es bits" and "keys f (index_table bits sh es)" and "\<exists>e \<in> set es. k \<le> bk sh e"
    and "\<forall>e \<in> set es. bk sh e < 2 ^ bits"
  shows "\<exists>i f' n'. index_scan 8 v (8 * int k) f n = Some (20 * int i, f', n') \<and> keys f' (index_table bits sh es) \<and>
    i < length es \<and> k \<le> bk sh (es ! i)"
  using assms(2-3)
proof (induction "2 ^ bits - k" arbitrary: f v n k)
  case 0
  then show ?case using assms(4) by fastforce
next
  case (Suc m)
  have k: "k < 2 ^ bits" and m: "m = 2 ^ bits - Suc k" using Suc.hyps(2) by simp_all
  show ?case
  proof (cases "\<exists>e \<in> set es. bk sh e = k")
    case True
    then show ?thesis using scan_here [OF assms(1) Suc.prems(1) k, of 8 v n] by fastforce
  next
    case False
    then have le: "\<exists>e \<in> set es. Suc k \<le> bk sh e" using Suc.prems(2) by (metis le_eq_less_or_eq Suc_leI)
    have at: "to_s64 (8 * int k + 8) = 8 * int (Suc k)" using small_offset [OF assms(1), of "Suc k"] k by simp
    obtain f' where f': "keys f' (index_table bits sh es)"
      "index_scan 8 v (8 * int k) f n = index_scan 8 (- 1) (8 * int (Suc k)) f' (Suc n)"
      using scan_on [OF Suc.prems(1) k False, of 8 v n] unfolding at by blast
    then show ?thesis using Suc.hyps(1) [OF m f'(1) le, of "- 1" "Suc n"] by (force intro: Suc_leD)
  qed
qed

lemma scan_up_stuck:
  assumes "indexable es bits" and "keys f (index_table bits sh es)" and "\<forall>e \<in> set es. bk sh e < k" and "k \<le> 2 ^ bits"
    and "k < 2 ^ bits \<or> v = - 1"
  shows "index_scan 8 v (8 * int k) f n = None"
  using assms(2-)
proof (induction "2 ^ bits - k" arbitrary: f v n k)
  case 0
  then have k: "k = 2 ^ bits" "v = - 1" by auto
  obtain f' where r: "read_off (- 1) (seekg (8 * int k) f) = (- 1, f')" and "fail f'"
    using read_off_end [OF "0.prems"(1), of "- 1"] k(1) by auto
  then show ?case unfolding k(2) index_scan_step [OF r] by (simp add: index_scan_stuck)
next
  case (Suc m)
  have k: "k < 2 ^ bits" and m: "m = 2 ^ bits - Suc k" using Suc.hyps(2) by simp_all
  have at: "to_s64 (8 * int k + 8) = 8 * int (Suc k)" using small_offset [OF assms(1), of "Suc k"] k by simp
  have "\<not> (\<exists>e \<in> set es. bk sh e = k)" using Suc.prems(2) by auto
  then obtain f' where f': "keys f' (index_table bits sh es)"
      "index_scan 8 v (8 * int k) f n = index_scan 8 (- 1) (8 * int (Suc k)) f' (Suc n)"
    using scan_on [OF Suc.prems(1) k, of 8 v n] unfolding at by blast
  then show ?case using Suc.hyps(1) [OF m f'(1), of "- 1" "Suc n"] Suc.prems(2) k by (simp add: less_SucI)
qed

section \<open>Indexed search\<close>

text \<open>An inspector over a file and its index. The index stream may have failed: a scan that ran
  past the last slot leaves it so, and later scans then keep the whole file as their range.\<close>

definition indexed :: "inspector \<Rightarrow> entry list \<Rightarrow> nat \<Rightarrow> bool" where
  "indexed d es bits \<longleftrightarrow>
     serves d es \<and> indexable es bits \<and> mShift d = 64 - bits \<and> opened (mIndexFile d) \<and>
     (keys (mIndexFile d) (index_table bits (64 - bits) es) \<or> fail (mIndexFile d))"

text \<open>The hashes whose two scans end: some entry is in its bucket or before, and some entry is in a
  later bucket unless the bucket is the last of the table.\<close>

definition covered :: "entry list \<Rightarrow> nat \<Rightarrow> quad \<Rightarrow> bool" where
  "covered es bits q \<longleftrightarrow>
     (\<exists>e \<in> set es. bk (64 - bits) e \<le> unat (bucket (64 - bits) q)) \<and>
     (unat (bucket (64 - bits) q) = 2 ^ bits - 1 \<or>
      (\<exists>e \<in> set es. unat (bucket (64 - bits) q) < bk (64 - bits) e))"

lemma index_offset_bucket:
  assumes "indexable es bits" and "mShift d = 64 - bits"
  shows "index_offset d h = 8 * int (unat (bucket (64 - bits) (quad h)))"
proof -
  let ?w = "bucket (64 - bits) (quad h)"
  have "unat ?w < 2 ^ bits" using assms(1) by (intro unat_bucket) (simp add: indexable_def)
  then have "8 * int (unat ?w) < 2 ^ 63" by (intro small_offset [OF assms(1)]) simp
  moreover have "?w * 8 = word_of_int (8 * int (unat ?w))" by simp
  ultimately show ?thesis
    unfolding index_offset_def assms(2) bucket_def [symmetric]
    by (simp only:) (rule sint_keep, rule order_trans [of _ 0], simp_all)
qed

text \<open>The bounds are file positions of records (or the end of the file) that enclose the hash.\<close>

lemma search_bounds_indexed:
  assumes "indexed d es bits" and "covered es bits (quad h) \<or> fail (mIndexFile d)"
  shows "\<exists>a b f n. search_bounds d h = Some (20 * a, 20 * b, f, n) \<and> 0 \<le> a \<and> (a < int (length es) \<or> a = 0) \<and>
    b \<le> int (length es) \<and> between es (quad h) a b \<and> opened f \<and>
    (keys f (index_table bits (64 - bits) es) \<or> fail f)"
proof (cases "fail (mIndexFile d)")
  case True
  let ?f = "mIndexFile d" and ?S = "20 * int (length es)"
  have o: "opened ?f" and s: "mFileSize d = ?S" "?S < 2 ^ 63"
    using assms(1) by (simp_all add: indexed_def serves_def)
  obtain f1 where f1: "index_scan (- 8) 0 (index_offset d h) ?f 0 = Some (0, f1, 1)" "fail f1" "opened f1"
    using index_scan_failed [OF True, of 0 "- 8"] o by auto
  have "- (2 ^ 63) \<le> ?S" by simp
  then obtain f2 where "index_scan 8 ?S (to_s64 (index_offset d h + 8)) f1 1 = Some (?S, f2, Suc 1)" "fail f2" "opened f2"
    using index_scan_failed [OF f1(2) _ _ s(2), of 8 _ 1] f1(3) by auto
  then have "search_bounds d h = Some (20 * 0, ?S, f2, Suc 1)"
    using o f1 s by (simp add: search_bounds_def)
  then show ?thesis using between_all [of es "quad h"] \<open>fail f2\<close> \<open>opened f2\<close> by (intro exI conjI) auto
next
  case False
  let ?sh = "64 - bits" and ?f = "mIndexFile d" and ?k = "unat (bucket (64 - bits) (quad h))"
  let ?tab = "index_table bits ?sh es"
  have ix: "indexable es bits" and f: "keys ?f ?tab" and o: "opened ?f"
    and sz: "mFileSize d = 20 * int (length es)" "20 * int (length es) < 2 ^ 63" and so: "sorted_file es"
    using assms(1) False by (auto simp: indexed_def serves_def)
  have at: "index_offset d h = 8 * int ?k"
    using index_offset_bucket [OF ix] assms(1) by (simp add: indexed_def)
  have lt: "unat (bucket ?sh q) < 2 ^ bits" for q using ix by (intro unat_bucket) (simp add: indexable_def)
  have at': "to_s64 (8 * int ?k + 8) = 8 * int (Suc ?k)"
    using small_offset [OF ix, of "Suc ?k"] lt [of "quad h"] by simp
  have cov: "covered es bits (quad h)" using assms(2) False by simp
  obtain a f1 n1 where a: "index_scan (- 8) 0 (8 * int ?k) ?f 0 = Some (20 * int a, f1, n1)" "keys f1 ?tab"
      "a < length es" "bk ?sh (es ! a) \<le> ?k" "\<forall>j < a. bk ?sh (es ! j) < bk ?sh (es ! a)"
    using scan_down [OF ix f lt, of "quad h" 0 0] cov unfolding covered_def by blast
  have low: "fst (es ! j) < quad h" if "j < a" for j
    using a(4) a(5) that by (intro bucket_less [of ?sh]) (force simp: word_less_nat_alt)
  have "\<exists>b f2 n2. index_scan 8 (mFileSize d) (8 * int (Suc ?k)) f1 n1 = Some (20 * int b, f2, n2) \<and> opened f2 \<and>
      (keys f2 ?tab \<or> fail f2) \<and> b \<le> length es \<and> (\<forall>j < length es. b < j \<longrightarrow> quad h < fst (es ! j))"
  proof (cases "\<exists>e \<in> set es. Suc ?k \<le> bk ?sh e")
    case True
    then obtain b f2 n2 where b: "index_scan 8 (mFileSize d) (8 * int (Suc ?k)) f1 n1 = Some (20 * int b, f2, n2)"
        "keys f2 ?tab" "b < length es" "Suc ?k \<le> bk ?sh (es ! b)"
      using scan_up [OF ix a(2) True, of "mFileSize d" n1] lt by blast
    have "quad h < fst (es ! j)" if "j < length es" "b < j" for j
      using that b(4) sorted_file_nth [OF so, of b j]
      by (intro bucket_less [of ?sh]) (auto simp: word_less_nat_alt word_le_nat_alt dest: bucket_mono [of _ _ ?sh])
    with b show ?thesis by (auto simp: keys_def)
  next
    case none: False
    with cov have "\<not> (\<exists>e \<in> set es. ?k < bk ?sh e)" "?k = 2 ^ bits - 1" by (auto simp: covered_def Suc_le_eq)
    then have k: "Suc ?k = 2 ^ bits" by simp
    obtain f2 where "read_off (mFileSize d) (seekg (8 * int (Suc ?k)) f1) = (mFileSize d, f2)" "fail f2" "opened f2"
      using read_off_end [OF a(2), of "mFileSize d"] k sz by auto
    then show ?thesis
      using index_scan_step [of "mFileSize d" "8 * int (Suc ?k)" f1 "mFileSize d" f2 8 n1] sz by auto
  qed
  then obtain b f2 n2 where b: "index_scan 8 (mFileSize d) (8 * int (Suc ?k)) f1 n1 = Some (20 * int b, f2, n2)"
      "opened f2" "keys f2 ?tab \<or> fail f2" "b \<le> length es" "\<forall>j < length es. b < j \<longrightarrow> quad h < fst (es ! j)"
    by blast
  have "search_bounds d h = Some (20 * int a, 20 * int b, f2, n2)"
    by (simp only: search_bounds_def Let_def o if_True at at' a(1) b(1) option.case prod.case)
  moreover have "between es (quad h) (int a) (int b)" using low b(5) by (simp add: between_def)
  ultimately show ?thesis using a(3) b(2-4) by (intro exI conjI) auto
qed

lemma binsearch_indexed:
  assumes "indexed d es bits" and "covered es bits (quad h) \<or> fail (mIndexFile d)"
  shows "\<exists>p n d'. binsearch d h = Some (p, n, d') \<and> found es (quad h) p \<and>
           (indexed d' es bits \<or> (\<forall>e \<in> set es. fst e < quad h))"
proof -
  let ?N = "int (length es)"
  have s: "reads (mInputFile d) es" "mFileSize d = 20 * ?N" "20 * ?N < 2 ^ 63" "sorted_file es"
    using assms(1) by (simp_all add: indexed_def serves_def)
  obtain a b f n where bounds: "search_bounds d h = Some (20 * a, 20 * b, f, n)" "0 \<le> a" "a < ?N \<or> a = 0" "b \<le> ?N"
      "between es (quad h) a b" "opened f" "keys f (index_table bits (64 - bits) es) \<or> fail f"
    using search_bounds_indexed [OF assms] by blast
  moreover have "a = ?N \<Longrightarrow> quad (phc_hash emptyPHC) < quad h \<or> phc_count emptyPHC = 0" by simp
  moreover have "a \<le> ?N" using bounds(3) by auto
  ultimately obtain p n' f' where
    "search_loop h (20 * a) (20 * b) n emptyPHC (mInputFile d) = Some (p, n', f')" "found es (quad h) p"
    "reads f' es \<or> fail f' \<and> b = ?N \<and> (\<forall>e \<in> set es. fst e < quad h)"
    using search_loop_correct [OF s(1,4,3), of a b h emptyPHC n] by auto
  moreover from this(1) bounds(1) have "binsearch d h = Some (p, n', d\<lparr>mInputFile := f', mIndexFile := f\<rparr>)"
    by (simp add: binsearch_def)
  ultimately show ?thesis
    using assms(1) bounds(6,7) by (auto simp: indexed_def serves_def)
qed

lemma binsearch_indexed_stuck:
  assumes "indexed d es bits" and "\<not> covered es bits (quad h)" and "\<not> fail (mIndexFile d)"
  shows "binsearch d h = None"
proof -
  let ?sh = "64 - bits" and ?f = "mIndexFile d" and ?k = "unat (bucket (64 - bits) (quad h))"
  let ?tab = "index_table bits ?sh es"
  have ix: "indexable es bits" and f: "keys ?f ?tab" and o: "opened ?f"
    using assms(1,3) by (auto simp: indexed_def)
  have at: "index_offset d h = 8 * int ?k"
    using index_offset_bucket [OF ix] assms(1) by (simp add: indexed_def)
  have lt: "unat (bucket ?sh q) < 2 ^ bits" for q using ix by (intro unat_bucket) (simp add: indexable_def)
  have at': "to_s64 (8 * int ?k + 8) = 8 * int (Suc ?k)"
    using small_offset [OF ix, of "Suc ?k"] lt [of "quad h"] by simp
  have "search_bounds d h = None"
  proof (cases "\<exists>e \<in> set es. bk ?sh e \<le> ?k")
    case False
    then have "\<forall>e \<in> set es. ?k < bk ?sh e" by (auto simp: not_le)
    then have "index_scan (- 8) 0 (8 * int ?k) ?f 0 = None" by (rule scan_down_stuck [OF ix f lt])
    then show ?thesis by (simp only: search_bounds_def Let_def o if_True at option.case)
  next
    case True
    then obtain a f1 n1 where a: "index_scan (- 8) 0 (8 * int ?k) ?f 0 = Some (20 * int a, f1, n1)" "keys f1 ?tab"
      using scan_down [OF ix f lt, of "quad h" 0 0] by blast
    have "?k \<noteq> 2 ^ bits - 1" and "\<forall>e \<in> set es. bk ?sh e < Suc ?k"
      using assms(2) True by (auto simp: covered_def not_less less_Suc_eq_le)
    then have "index_scan 8 (mFileSize d) (8 * int (Suc ?k)) f1 n1 = None"
      using lt [of "quad h"] by (intro scan_up_stuck [OF ix a(2)]) auto
    then show ?thesis by (simp only: search_bounds_def Let_def o if_True at at' a(1) option.case prod.case)
  qed
  then show ?thesis by (simp add: binsearch_def)
qed

section \<open>The tool with an index\<close>

lemma length_index_file: "length (index_file tab) = 8 * length tab"
  by (simp add: index_file_def key_file.length_file)

lemma open_indexed:
  assumes "fs f = Some (file_of es, True)" and "fs i = Some (index_file (index_table bits (64 - bits) es), True)"
    and "i \<noteq> []" and "indexable es bits"
  shows "\<exists>d. inspector_open_index fs newInspector f i = Inr (True, d) \<and> indexed d es bits \<and> \<not> fail (mIndexFile d)"
proof -
  have b: "bits \<le> 64" using assms(4) by (simp add: indexable_def)
  have "popcnt64 (word_of_nat (2 ^ bits) - 1) = bits"
    using popcnt64_mask [OF b] by simp
  then show ?thesis
    using assms
    by (auto simp: inspector_open_index_def inspector_open_def open_ifstream_def newInspector_def Let_def
        length_index_file indexed_def serves_def indexable_def keys_def fail_def)
qed

lemma lookup_loop_indexed:
  assumes "indexed d es bits" and "database es"
    and "\<forall>pwd \<in> set pwds. covered es bits (quad (hash_of_string md5 pwd)) \<and>
           (\<exists>e \<in> set es. quad (hash_of_string md5 pwd) \<le> fst e)"
  shows "\<exists>d'. lookup_loop md5 d pwds = Some (map (\<lambda>pwd. db_answer es (quad (hash_of_string md5 pwd))) pwds, d')"
  using assms
proof (induction pwds arbitrary: d)
  case Nil
  then show ?case by simp
next
  case (Cons pwd pwds)
  let ?h = "hash_of_string md5 pwd"
  obtain p n d' where b: "binsearch d ?h = Some (p, n, d')" and f: "found es (quad ?h) p"
    and d': "indexed d' es bits \<or> (\<forall>e \<in> set es. fst e < quad ?h)"
    using binsearch_indexed [OF Cons.prems(1), of ?h] Cons.prems(3) by auto
  from Cons.prems(3) have "indexed d' es bits" using d' by (auto simp: not_le [symmetric])
  then obtain d'' where "lookup_loop md5 d' pwds =
      Some (map (\<lambda>pwd. db_answer es (quad (hash_of_string md5 pwd))) pwds, d'')"
    using Cons.IH [OF _ Cons.prems(2)] Cons.prems(3) by auto
  then show ?case using b answer_found [OF Cons.prems(2) f] by simp
qed

text \<open>A lookup in a bucket with an entry after it leaves the index stream readable.\<close>

lemma binsearch_keeps_index:
  assumes "indexed d es bits" and "\<not> fail (mIndexFile d)" and "covered es bits (quad h)"
    and "unat (bucket (64 - bits) (quad h)) \<noteq> 2 ^ bits - 1"
  shows "\<exists>p n d'. binsearch d h = Some (p, n, d') \<and> indexed d' es bits \<and> \<not> fail (mIndexFile d')"
proof -
  let ?sh = "64 - bits" and ?f = "mIndexFile d" and ?k = "unat (bucket (64 - bits) (quad h))"
  let ?tab = "index_table bits ?sh es"
  have ix: "indexable es bits" and f: "keys ?f ?tab" and o: "opened ?f"
    using assms(1,2) by (auto simp: indexed_def)
  have at: "index_offset d h = 8 * int ?k"
    using index_offset_bucket [OF ix] assms(1) by (simp add: indexed_def)
  have lt: "unat (bucket ?sh q) < 2 ^ bits" for q using ix by (intro unat_bucket) (simp add: indexable_def)
  have at': "to_s64 (8 * int ?k + 8) = 8 * int (Suc ?k)"
    using small_offset [OF ix, of "Suc ?k"] lt [of "quad h"] by simp
  have le: "\<exists>e \<in> set es. bk ?sh e \<le> ?k" and gt: "\<exists>e \<in> set es. Suc ?k \<le> bk ?sh e"
    using assms(3,4) by (simp_all add: covered_def Suc_le_eq)
  obtain a f1 n1 where a: "index_scan (- 8) 0 (8 * int ?k) ?f 0 = Some (20 * int a, f1, n1)" "keys f1 ?tab"
    using scan_down [OF ix f lt le] by blast
  obtain b f2 n2 where b: "index_scan 8 (mFileSize d) (8 * int (Suc ?k)) f1 n1 = Some (20 * int b, f2, n2)" "keys f2 ?tab"
    using scan_up [OF ix a(2) gt] lt by blast
  have bounds: "search_bounds d h = Some (20 * int a, 20 * int b, f2, n2)"
    by (simp only: search_bounds_def Let_def o if_True at at' a(1) b(1) option.case prod.case)
  obtain p n d' where s: "binsearch d h = Some (p, n, d')" "indexed d' es bits \<or> (\<forall>e \<in> set es. fst e < quad h)"
    using binsearch_indexed [OF assms(1)] assms(3) by blast
  have "\<not> (\<forall>e \<in> set es. fst e < quad h)"
  proof
    assume all: "\<forall>e \<in> set es. fst e < quad h"
    from gt obtain e where e: "e \<in> set es" "Suc ?k \<le> bk ?sh e" by blast
    then have "bucket ?sh (fst e) \<le> bucket ?sh (quad h)" using all by (intro bucket_mono) (simp add: less_imp_le)
    then have "bk ?sh e \<le> ?k" by (simp add: word_le_nat_alt)
    with e(2) show False by simp
  qed
  moreover have "mIndexFile d' = f2"
    using s(1) unfolding binsearch_def bounds by (auto split: option.splits)
  ultimately show ?thesis using s b(2) by (auto simp: keys_def)
qed

lemma lookup_loop_indexed_stuck:
  assumes "indexed d es bits" and "\<not> fail (mIndexFile d)"
    and "\<not> covered es bits (quad (hash_of_string md5 pwd))"
    and "\<forall>p \<in> set pre. unat (bucket (64 - bits) (quad (hash_of_string md5 p))) \<noteq> 2 ^ bits - 1"
  shows "lookup_loop md5 d (pre @ pwd # post) = None"
  using assms(1,2,4)
proof (induction pre arbitrary: d)
  case Nil
  then show ?case using binsearch_indexed_stuck [OF Nil.prems(1) assms(3)] by simp
next
  case (Cons p pre)
  let ?h = "hash_of_string md5 p"
  show ?case
  proof (cases "covered es bits (quad ?h)")
    case False
    then show ?thesis using binsearch_indexed_stuck [OF Cons.prems(1) False Cons.prems(2)] by simp
  next
    case True
    then obtain q n d' where b: "binsearch d ?h = Some (q, n, d')" "indexed d' es bits" "\<not> fail (mIndexFile d')"
      using binsearch_keeps_index [OF Cons.prems(1,2) True] Cons.prems(3) by auto
    then show ?thesis using Cons.IH [OF b(2,3)] Cons.prems(3) by simp
  qed
qed

lemma index_written:
  assumes "index_main alloc writable fs f i bits = IndexWritten bs" and "fs f = Some (file_of es, True)" and "f \<noteq> []"
    and "indexable es bits" and "es \<noteq> []"
  shows "i \<noteq> [] \<and> bs = index_file (index_table bits (64 - bits) es)"
proof (cases "i = []")
  case True
  with assms(1,3) show ?thesis by (simp add: index_main_def)
next
  case False
  have "bits < 64" and "0 < bits" and "sorted_file es" using assms(4) by (simp_all add: indexable_def)
  then show ?thesis
    using index_main_correct [of fs f es i bits alloc writable, OF assms(2,3) False _ assms(5)] assms(1) False
    by (simp split: if_splits)
qed

section \<open>Properties\<close>

text \<open>
  C4: Indexing a sorted, non-empty file by 1 to 63 leading bits throws when the table has 60 bits or
  more or does not fit into memory. Otherwise it computes, for every value of the leading bits, the
  position of the first record whose hash starts with these bits, or all ones if there is none, and
  writes this table, unless the output file cannot be written, which goes unnoticed.
\<close>

theorem index_main_table:
  assumes "fs f = Some (file_of es, True)" and "f \<noteq> []" and "out \<noteq> []"
    and "sorted_file es" and "es \<noteq> []" and "0 < bits" and "bits < 64"
  shows "\<exists>tab :: u64 list.
    index_main alloc writable fs f out bits =
      (if 60 \<le> bits \<or> \<not> alloc (8 * 2 ^ bits) then IndexThrows
       else if writable out then IndexWritten (concat (map (le_bytes 8) tab))
       else IndexNotWritten) \<and>
    length tab = 2 ^ bits \<and>
    (\<forall>k < 2 ^ bits. tab ! k =
       (case find (\<lambda>i. unat (drop_bit (64 - bits) (upper (fst (es ! i)))) = k) [0 ..< length es] of
          None \<Rightarrow> - 1
        | Some i \<Rightarrow> word_of_nat (20 * i)))"
  unfolding index_main_correct [of fs f es out bits, OF assms]
  by (rule exI [of _ "index_table bits (64 - bits) es"])
    (simp add: index_file_def index_table_def first_pos_find bucket_def)

text \<open>A file with one hash that starts with a zero bit and one that starts with a one bit.\<close>

definition two_entries :: "entry list" where
  "two_entries = [(Quad 0 2, 9), (Quad 0x8000000000000000 0, 1)]"

lemma two_entries: "sorted_file two_entries" "two_entries \<noteq> []" "database two_entries"
    "upper (fst (two_entries ! 0)) = 0" "upper (fst (two_entries ! 1)) = 0x8000000000000000"
    "length two_entries = 2"
  by (simp_all add: two_entries_def sorted_file_def database_def less_quad_def less_eq_quad_def)

theorem index_main_table_witness:
  "index_main (\<lambda>n. True) (\<lambda>name. True) [''db'' \<mapsto> (file_of two_entries, True)] ''db'' ''ix'' 1 =
     IndexWritten (le_bytes 8 (0 :: u64) @ le_bytes 8 (20 :: u64))"
proof -
  let ?fs = "[''db'' \<mapsto> (file_of two_entries, True)]"
  have b: "drop_bit 63 (0x8000000000000000 :: u64) = 1" by code_simp
  obtain tab :: "u64 list" where tab: "index_main (\<lambda>n. True) (\<lambda>name. True) ?fs ''db'' ''ix'' 1 = IndexWritten (concat (map (le_bytes 8) tab))"
      "length tab = 2" and
    k: "\<forall>k < 2. tab ! k =
       (case find (\<lambda>i. unat (drop_bit 63 (upper (fst (two_entries ! i)))) = k) [0, 1] of
          None \<Rightarrow> - 1
        | Some i \<Rightarrow> word_of_nat (20 * i))"
    using index_main_table [of ?fs "''db''" two_entries "''ix''" 1 "\<lambda>n. True" "\<lambda>name. True"] two_entries by (auto simp: upt_rec)
  have "tab ! 0 = 0" "tab ! 1 = 20"
    using k [THEN spec, of 0] k [THEN spec, of 1] two_entries b by simp_all
  moreover have "tab = [tab ! 0, tab ! 1]" using tab(2) by (auto simp: length_Suc_conv numeral_2_eq_2)
  ultimately have "tab = [0, 20]" by simp
  then show ?thesis using tab(1) by simp
qed

text \<open>
  C3: An index made by the index tool is right for the lookup tool: with it, every password is
  answered the way the database says, provided the scans of the index around its bucket end
  (\<open>covered\<close>) and no password hashes above the greatest entry.
\<close>

theorem lookup_with_index_correct:
  assumes "fs f = Some (file_of es, True)" and "f \<noteq> []" and "database es" and "es \<noteq> []" and "0 < bits" and "bits < 60"
    and "index_main alloc writable fs f i bits = IndexWritten bs" and "fs i = Some (bs, True)"
    and "\<forall>pwd \<in> set pwds. covered es bits (quad (hash_of_string md5 pwd)) \<and>
           (\<exists>e \<in> set es. quad (hash_of_string md5 pwd) \<le> fst e)"
  shows "lookup_main md5 fs f i pwds =
           Answers (map (\<lambda>pwd. db_answer es (quad (hash_of_string md5 pwd))) pwds)"
proof -
  have ix: "indexable es bits"
    using assms(3,5,6) database_sorted by (simp add: indexable_def database_def)
  have i: "i \<noteq> []" "bs = index_file (index_table bits (64 - bits) es)"
    using index_written [OF assms(7,1,2) ix assms(4)] by simp_all
  obtain d where d: "inspector_open_index fs newInspector f i = Inr (True, d)" "indexed d es bits"
    using open_indexed [of fs f es i bits, OF assms(1) _ i(1) ix] assms(8) i(2) by blast
  then show ?thesis
    using lookup_loop_indexed [OF d(2) assms(3,9)] assms(2) by (auto simp: lookup_main_def)
qed

lemma two_entries_covered: "covered two_entries 1 (Quad 0 c)"
proof -
  have "drop_bit 63 (0x8000000000000000 :: u64) = 1" by code_simp
  then show ?thesis by (simp add: covered_def two_entries_def bucket_def)
qed

lemma two_entries_indexed:
  "index_main (\<lambda>n. True) (\<lambda>name. True) [''db'' \<mapsto> (file_of two_entries, True), ''ix'' \<mapsto> b] ''db'' ''ix'' 1 =
     IndexWritten (index_file (index_table 1 63 two_entries))"
  using index_main_ok [of "[''db'' \<mapsto> (file_of two_entries, True), ''ix'' \<mapsto> b]" "''db''" two_entries "''ix''" 1]
    two_entries by simp

theorem lookup_with_index_correct_witness:
  "lookup_main toy_md5
     [''db'' \<mapsto> (file_of two_entries, True), ''ix'' \<mapsto> (index_file (index_table 1 63 two_entries), True)]
     ''db'' ''ix'' [''ab'', ''abc''] = Answers [Found 9, NotFound]"
proof -
  let ?fs = "[''db'' \<mapsto> (file_of two_entries, True), ''ix'' \<mapsto> (index_file (index_table 1 63 two_entries), True)]"
  have le: "\<exists>e \<in> set two_entries. Quad 0 c \<le> fst e" for c
    by (simp add: two_entries_def less_eq_quad_def less_quad_def)
  have "lookup_main toy_md5 ?fs ''db'' ''ix'' [''ab'', ''abc''] =
      Answers (map (\<lambda>pwd. db_answer two_entries (quad (hash_of_string toy_md5 pwd))) [''ab'', ''abc''])"
    by (rule lookup_with_index_correct [of ?fs "''db''" two_entries 1 "\<lambda>n. True" "\<lambda>name. True" "''ix''"])
      (use two_entries two_entries_indexed two_entries_covered le in \<open>simp_all add: toy_hash\<close>)
  then show ?thesis by (simp add: toy_hash db_answer_def two_entries_def)
qed

text \<open>
  C7: A password whose bucket is not covered - no entry in its bucket or an earlier one, or no entry
  in a later bucket although its own is not the last of the table - makes the tool loop forever,
  wherever it stands in the list, as long as no earlier password falls into the last bucket: the
  scan for such a one runs over the end of the index, whose stream then fails and is not used again.
\<close>

theorem lookup_with_index_hangs:
  assumes "fs f = Some (file_of es, True)" and "f \<noteq> []" and "database es" and "es \<noteq> []" and "0 < bits" and "bits < 60"
    and "index_main alloc writable fs f i bits = IndexWritten bs" and "fs i = Some (bs, True)"
    and "\<not> covered es bits (quad (hash_of_string md5 pwd))"
    and "\<forall>p \<in> set pre. unat (bucket (64 - bits) (quad (hash_of_string md5 p))) \<noteq> 2 ^ bits - 1"
  shows "lookup_main md5 fs f i (pre @ pwd # post) = NoReturn"
proof -
  have ix: "indexable es bits"
    using assms(3,5,6) database_sorted by (simp add: indexable_def database_def)
  have i: "i \<noteq> []" "bs = index_file (index_table bits (64 - bits) es)"
    using index_written [OF assms(7,1,2) ix assms(4)] by simp_all
  obtain d where d: "inspector_open_index fs newInspector f i = Inr (True, d)" "indexed d es bits" "\<not> fail (mIndexFile d)"
    using open_indexed [of fs f es i bits, OF assms(1) _ i(1) ix] assms(8) i(2) by blast
  then show ?thesis
    using lookup_loop_indexed_stuck [OF d(2,3) assms(9,10)] assms(2) by (simp add: lookup_main_def)
qed

theorem lookup_with_index_hangs_witness:
  "\<exists>bs. index_main (\<lambda>n. True) (\<lambda>name. True) [''db'' \<mapsto> (file_of [(Quad (- 1) 0, 1)], True)] ''db'' ''ix'' 1 = IndexWritten bs \<and>
     lookup_main toy_md5 [''db'' \<mapsto> (file_of [(Quad (- 1) 0, 1)], True), ''ix'' \<mapsto> (bs, True)] ''db'' ''ix'' [''abc'', ''ab''] = NoReturn"
proof -
  let ?es = "[(Quad (- 1) 0, 1)] :: entry list"
  let ?bs = "index_file (index_table 1 63 ?es)"
  let ?fs = "[''db'' \<mapsto> (file_of ?es, True), ''ix'' \<mapsto> (?bs, True)]"
  have ix: "index_main (\<lambda>n. True) (\<lambda>name. True) (fs(''db'' \<mapsto> (file_of ?es, True))) ''db'' ''ix'' 1 = IndexWritten ?bs" for fs
    using index_main_ok [of "fs(''db'' \<mapsto> (file_of ?es, True))" "''db''" ?es "''ix''" 1]
    by (simp add: sorted_file_def)
  have db: "database ?es" by (simp add: database_def)
  have "drop_bit 63 (- 1 :: u64) = 1" by code_simp
  then have c: "\<not> covered ?es 1 (Quad 0 2)" by (simp add: covered_def bucket_def)
  have "lookup_main toy_md5 ?fs ''db'' ''ix'' ([''abc''] @ ''ab'' # []) = NoReturn"
    by (rule lookup_with_index_hangs [of ?fs "''db''" ?es 1 "\<lambda>n. True" "\<lambda>name. True" "''ix''" ?bs])
      (use db c ix [of "[''ix'' \<mapsto> (?bs, True)]"] in \<open>simp_all add: toy_hash fun_upd_twist bucket_def\<close>)
  then show ?thesis using ix [of Map.empty] by auto
qed

end
