(* ===== verification/Cpp_Regex.thy ===== *)
theory Cpp_Regex
  imports Pwned_Prelude
begin

text \<open>
  The part of \<^verbatim>\<open>std::regex\<close> (ECMAScript grammar) the sources use: character classes,
  sequences, alternatives, greedy and lazy repetition and capture groups. A pattern gives the list
  of all its matches at the front of a string in the order a backtracking matcher tries them, each
  with the unmatched rest and the captures; the first one of the right shape is the match the
  library reports.
\<close>

type_synonym captures = "nat \<rightharpoonup> string"
type_synonym rmatch = "string \<times> captures"

datatype regex =
    Eps
  | Cls "char \<Rightarrow> bool"
  | Seq regex regex
  | Alt regex regex
  | Greedy regex
  | Lazy regex
  | Group nat regex

text \<open>Repetition: at most \<open>n\<close> rounds, each of which must consume something, so that the
  length of the string is a sufficient bound.\<close>

definition consumes :: "rmatch \<Rightarrow> rmatch \<Rightarrow> bool" where
  "consumes x y \<longleftrightarrow> length (fst y) < length (fst x)"

primrec rep_greedy :: "nat \<Rightarrow> (rmatch \<Rightarrow> rmatch list) \<Rightarrow> rmatch \<Rightarrow> rmatch list" where
  "rep_greedy 0 m x = [x]"
| "rep_greedy (Suc n) m x = concat (map (rep_greedy n m) (filter (consumes x) (m x))) @ [x]"

primrec rep_lazy :: "nat \<Rightarrow> (rmatch \<Rightarrow> rmatch list) \<Rightarrow> rmatch \<Rightarrow> rmatch list" where
  "rep_lazy 0 m x = [x]"
| "rep_lazy (Suc n) m x = x # concat (map (rep_lazy n m) (filter (consumes x) (m x)))"

primrec matches :: "regex \<Rightarrow> rmatch \<Rightarrow> rmatch list" where
  "matches Eps x = [x]"
| "matches (Cls P) x = (case fst x of [] \<Rightarrow> [] | c # s \<Rightarrow> if P c then [(s, snd x)] else [])"
| "matches (Seq r1 r2) x = concat (map (matches r2) (matches r1 x))"
| "matches (Alt r1 r2) x = matches r1 x @ matches r2 x"
| "matches (Greedy r) x = rep_greedy (length (fst x)) (matches r) x"
| "matches (Lazy r) x = rep_lazy (length (fst x)) (matches r) x"
| "matches (Group k r) x =
     map (\<lambda>y. (fst y, (snd y)(k \<mapsto> take (length (fst x) - length (fst y)) (fst x)))) (matches r x)"

text \<open>\<^verbatim>\<open>std::regex_match\<close>: the whole string; the captures of the match, if there is one.
  \<^verbatim>\<open>std::regex_search\<close>: any part of the string.\<close>

definition regex_match :: "regex \<Rightarrow> string \<Rightarrow> captures option" where
  "regex_match r s = map_option snd (find (\<lambda>y. fst y = []) (matches r (s, Map.empty)))"

fun regex_search :: "regex \<Rightarrow> string \<Rightarrow> bool" where
  "regex_search r [] = (matches r ([], Map.empty) \<noteq> [])"
| "regex_search r (c # s) = (matches r (c # s, Map.empty) \<noteq> [] \<or> regex_search r s)"

section \<open>Building patterns\<close>

definition opt :: "regex \<Rightarrow> regex" where
  "opt r = Alt r Eps"

definition plus :: "regex \<Rightarrow> regex" where
  "plus r = Seq r (Greedy r)"

definition lazy_plus :: "regex \<Rightarrow> regex" where
  "lazy_plus r = Seq r (Lazy r)"

primrec times :: "nat \<Rightarrow> regex \<Rightarrow> regex" where
  "times 0 r = Eps"
| "times (Suc n) r = Seq r (times n r)"

primrec literal :: "string \<Rightarrow> regex" where
  "literal [] = Eps"
| "literal (c # s) = Seq (Cls (\<lambda>d. d = c)) (literal s)"

definition is_alnum :: "char \<Rightarrow> bool" where
  "is_alnum c \<longleftrightarrow>
     (let n = (of_char c :: nat) in 97 \<le> n \<and> n \<le> 122 \<or> 65 \<le> n \<and> n \<le> 90 \<or> 48 \<le> n \<and> n \<le> 57)"

definition is_digit :: "char \<Rightarrow> bool" where
  "is_digit c \<longleftrightarrow> (let n = (of_char c :: nat) in 48 \<le> n \<and> n \<le> 57)"

section \<open>What the patterns match\<close>

text \<open>Matching consumes a prefix: the rest is a suffix of the string.\<close>

lemma matches_literal [simp]:
  "matches (literal l) (s, c) = (if take (length l) s = l then [(drop (length l) s, c)] else [])"
  by (induction l arbitrary: s) (auto split: list.splits)

lemma matches_times:
  "matches (times n (Cls P)) (s, c) =
     (if n \<le> length s \<and> list_all P (take n s) then [(drop n s, c)] else [])"
  by (induction n arbitrary: s) (auto split: list.splits)

text \<open>A repeated class: every prefix of characters of the class, the longest first (greedy) or the
  shortest first (lazy).\<close>

lemma set_rep_lazy:
  "set (rep_lazy n m x) = set (rep_greedy n m x)"
  by (induction n arbitrary: x) auto

lemma set_matches_Lazy: "set (matches (Lazy r) x) = set (matches (Greedy r) x)"
  by (simp add: set_rep_lazy)

lemma rep_times:
  assumes "0 < w" and "length s \<le> n"
  shows "set (rep_greedy n (matches (times w (Cls P))) (s, c)) =
    {(drop (w * k) s, c) | k. w * k \<le> length s \<and> list_all P (take (w * k) s)}"
  using assms(2)
proof (induction n arbitrary: s)
  case 0
  then show ?case using assms(1) by auto
next
  case (Suc n)
  let ?R = "\<lambda>s. {(drop (w * k) s, c) | k. w * k \<le> length s \<and> list_all P (take (w * k) s)}"
  have zero: "(s, c) \<in> ?R s" by (auto intro!: exI [of _ 0])
  show ?case
  proof (cases "w \<le> length s \<and> list_all P (take w s)")
    case False
    have "?R s \<subseteq> {(s, c)}"
    proof
      fix y
      assume "y \<in> ?R s"
      then obtain k where k: "y = (drop (w * k) s, c)" "w * k \<le> length s" "list_all P (take (w * k) s)" by blast
      show "y \<in> {(s, c)}"
      proof (cases k)
        case (Suc j)
        with k(2,3) False show ?thesis by (auto simp: list_all_iff take_add)
      qed (use k in simp)
    qed
    then show ?thesis using False zero by (auto simp: matches_times)
  next
    case True
    have len: "length (drop w s) \<le> n" "length (drop w s) < length s" using True assms(1) Suc.prems by auto
    have "?R s = insert (s, c) (?R (drop w s))"
    proof (intro equalityI subsetI)
      fix y
      assume "y \<in> ?R s"
      then obtain k where k: "y = (drop (w * k) s, c)" "w * k \<le> length s" "list_all P (take (w * k) s)" by blast
      show "y \<in> insert (s, c) (?R (drop w s))"
      proof (cases k)
        case (Suc j)
        moreover have "drop (w * j) (drop w s) = drop (w + w * j) s" by (simp add: add.commute)
        ultimately show ?thesis using k True
          by (intro insertI2 CollectI exI [of _ j]) (auto simp: list_all_iff take_add)
      qed (use k in simp)
    next
      fix y
      assume "y \<in> insert (s, c) (?R (drop w s))"
      then show "y \<in> ?R s"
      proof
        assume "y \<in> ?R (drop w s)"
        then obtain j where j: "y = (drop (w * j) (drop w s), c)" "w * j \<le> length (drop w s)"
          "list_all P (take (w * j) (drop w s))" by blast
        with True show ?thesis
          by (intro CollectI exI [of _ "Suc j"]) (auto simp: list_all_iff take_add ac_simps)
      qed (use zero in simp)
    qed
    then show ?thesis
      using Suc.IH [OF len(1)] len(2) True by (auto simp: matches_times consumes_def)
  qed
qed

lemma regex_match_None: "regex_match r s = None \<longleftrightarrow> (\<forall>y \<in> set (matches r (s, Map.empty)). fst y \<noteq> [])"
  unfolding regex_match_def option.map_disc_iff find_None_iff by blast

lemma regex_match_Some: "regex_match r s = Some c \<Longrightarrow> ([], c) \<in> set (matches r (s, Map.empty))"
proof -
  assume "regex_match r s = Some c"
  then obtain y where "find (\<lambda>y. fst y = []) (matches r (s, Map.empty)) = Some y" "snd y = c"
    by (auto simp: regex_match_def)
  then have "y \<in> set (matches r (s, Map.empty))" "y = ([], c)"
    by (auto simp: find_Some_iff intro: prod_eqI)
  then show ?thesis by simp
qed

text \<open>A search is a match at the front of some suffix.\<close>

lemma regex_search_iff: "regex_search r s \<longleftrightarrow> (\<exists>t u. s = t @ u \<and> matches r (u, Map.empty) \<noteq> [])"
proof (induction s)
  case (Cons a s)
  show ?case
    by (auto simp: Cons.IH Cons_eq_append_conv)
qed auto

end
