(* ===== verification/Reader.thy ===== *)
theory Reader
  imports Cpp_Regex Cpp_Streams Hash
begin

text \<open>
  \<^verbatim>\<open>pwned-lib/userpasswordreader.cpp\<close>: reading user:password lists. The constructor looks at
  the first lines to guess the separator and to decide whether passwords are given as MD5 hashes or
  hex encoded; then the lines are read one by one and turned into hashes.
\<close>

section \<open>Data\<close>

datatype UserPasswordReaderOptions =
    forceEvaluateMD5Hashes
  | forceEvaluateHexEncodedPasswords
  | autoEvaluateMD5Hashes
  | autoEvaluateHexEncodedPasswords

record reader =
  validEntries :: u64
  lineNo :: u64
  guessedSeparator :: char
  forceHex :: bool
  forceMD5 :: bool
  autoHex :: bool
  autoMD5 :: bool
  input :: "char istream"
  currentLine :: string

definition nTries :: nat where
  "nTries = 500"

definition MD5Regex :: regex where
  "MD5Regex = times 32 (Cls is_alnum)"

definition HexRegex :: regex where
  "HexRegex = Seq (literal ''$HEX['') (Seq (Group 1 (lazy_plus (times 2 (Cls is_alnum)))) (literal '']''))"

section \<open>Operations\<close>

definition reader_eof :: "reader \<Rightarrow> bool" where
  "reader_eof r = eofbit (input r)"

definition reader_bad :: "reader \<Rightarrow> bool" where
  "reader_bad r = badbit (input r)"

text \<open>\<^verbatim>\<open>line.erase(std::remove(line.begin(), line.end(), '\r'), line.end())\<close>.\<close>

definition strip_cr :: "string \<Rightarrow> string" where
  "strip_cr line = filter (\<lambda>c. c \<noteq> CHR 0x0D) line"

definition possibleSeparators :: string where
  "possibleSeparators = [CHR '':'', CHR '';'', CHR 0x09, CHR '' '']"

definition count_separators :: "string \<Rightarrow> (char \<rightharpoonup> int) \<Rightarrow> (char \<rightharpoonup> int)" where
  "count_separators line m =
     fold (\<lambda>sep m. if sep \<in> set line then m(sep \<mapsto> (case m sep of None \<Rightarrow> 0 | Some k \<Rightarrow> k) + 1) else m)
       possibleSeparators m"

primrec guess_loop :: "nat \<Rightarrow> string \<Rightarrow> (char \<rightharpoonup> int) \<Rightarrow> char istream \<Rightarrow> (char \<rightharpoonup> int) \<times> char istream" where
  "guess_loop 0 line m s = (m, s)"
| "guess_loop (Suc n) line m s =
     (if eofbit s then (m, s)
      else let (line, s) = getline s line;
               line = strip_cr line
           in guess_loop n line (count_separators line m) s)"

text \<open>The entries of the \<^verbatim>\<open>std::map\<close> in key order, and \<^verbatim>\<open>std::max_element\<close>, which
  returns the first of several greatest elements.\<close>

definition split_entries :: "(char \<rightharpoonup> int) \<Rightarrow> (char \<times> int) list" where
  "split_entries m = map (\<lambda>c. (c, the (m c))) (filter (\<lambda>c. m c \<noteq> None) [CHR 0x09, CHR '' '', CHR '':'', CHR '';''])"

definition max_element :: "(char \<times> int) list \<Rightarrow> char \<times> int" where
  "max_element xs = fold (\<lambda>x best. if snd best < snd x then x else best) (tl xs) (hd xs)"

definition guessSeparator :: "reader \<Rightarrow> char \<times> reader" where
  "guessSeparator r =
     (let (m, s) = guess_loop nTries [] Map.empty (input r);
          es = split_entries m;
          sep = (if es \<noteq> [] \<and> snd (max_element es) > 0 then fst (max_element es) else guessedSeparator r)
      in (sep, r\<lparr>guessedSeparator := sep, input := seekg 0 (clear_bits s)\<rparr>))"

primrec md5_loop :: "nat \<Rightarrow> char \<Rightarrow> string \<Rightarrow> char istream \<Rightarrow> bool \<times> char istream" where
  "md5_loop 0 sep line s = (False, s)"
| "md5_loop (Suc n) sep line s =
     (if eofbit s then (False, s)
      else let (line, s) = getline s line;
               line = strip_cr line
           in if sep \<in> set line \<and> regex_search MD5Regex line then (True, s)
              else md5_loop n sep line s)"

definition checkForMD5Hashes :: "reader \<Rightarrow> bool \<times> reader" where
  "checkForMD5Hashes r =
     (let (found, s) = (if \<not> forceMD5 r \<and> autoMD5 r then md5_loop nTries (guessedSeparator r) [] (input r)
                        else (False, input r));
          force = forceMD5 r \<or> found
      in (force, r\<lparr>forceMD5 := force, input := seekg 0 (clear_bits s)\<rparr>))"

primrec hex_loop :: "nat \<Rightarrow> char \<Rightarrow> string \<Rightarrow> char istream \<Rightarrow> bool \<times> char istream" where
  "hex_loop 0 sep line s = (False, s)"
| "hex_loop (Suc n) sep line s =
     (if eofbit s then (False, s)
      else let (line, s) = getline s line
           in if sep \<in> set line \<and> regex_search HexRegex line then (True, s)
              else hex_loop n sep line s)"

definition checkForHexEncodedPasswords :: "reader \<Rightarrow> bool \<times> reader" where
  "checkForHexEncodedPasswords r =
     (if forceHex r then (True, r)
      else let (found, s) = (if autoHex r then hex_loop nTries (guessedSeparator r) [] (input r) else (False, input r))
           in (found, r\<lparr>forceHex := found, input := seekg 0 (clear_bits s)\<rparr>))"

definition evaluateContents :: "reader \<Rightarrow> reader" where
  "evaluateContents r =
     (let r = snd (guessSeparator r);
          r = snd (checkForHexEncodedPasswords r)
      in snd (checkForMD5Hashes r))"

definition newReader :: "char istream \<Rightarrow> UserPasswordReaderOptions list \<Rightarrow> reader" where
  "newReader s options =
     evaluateContents
       \<lparr>validEntries = 0, lineNo = 0, guessedSeparator = CHR 0x00,
        forceHex = forceEvaluateHexEncodedPasswords \<in> set options,
        forceMD5 = forceEvaluateMD5Hashes \<in> set options,
        autoHex = autoEvaluateHexEncodedPasswords \<in> set options,
        autoMD5 = autoEvaluateMD5Hashes \<in> set options,
        input = s, currentLine = []\<rparr>"

definition extractPassword :: "char \<Rightarrow> string \<Rightarrow> string" where
  "extractPassword sep l =
     (let line = strip_cr l in
      if sep \<noteq> CHR 0x00
      then if sep \<in> set line then tl (dropWhile (\<lambda>c. c \<noteq> sep) line) else line
      else line)"

definition nextPassword :: "reader \<Rightarrow> string \<times> reader" where
  "nextPassword r =
     (if eofbit (input r) \<or> badbit (input r) then ([], r)
      else let (line, s) = getline (input r) (currentLine r);
               r = r\<lparr>input := s, currentLine := line, lineNo := lineNo r + 1\<rparr>
           in if length line > 200 \<or> length line < 1 then ([], r)
              else (extractPassword (guessedSeparator r) line, r))"

text \<open>The hash of a password that is not empty; \<^verbatim>\<open>match[0]\<close> is the whole password, the return
  value of \<^verbatim>\<open>hexToCharSeq\<close> is not looked at.\<close>

definition password_hash :: "(string \<Rightarrow> u8 list) \<Rightarrow> bool \<Rightarrow> bool \<Rightarrow> string \<Rightarrow> hash" where
  "password_hash md5 fMD5 fHex pwd =
     (let hash = (if fMD5 \<and> regex_match MD5Regex pwd \<noteq> None then fromHex pwd else emptyHash);
          hash = (if isValid hash \<or> \<not> fHex then hash
                  else case regex_match HexRegex pwd of
                         None \<Rightarrow> hash
                       | Some match \<Rightarrow> hash_of_string md5 (snd (hexToCharSeq (the (match 1)))))
      in if isValid hash then hash else hash_of_string md5 pwd)"

definition nextPasswordHash :: "(string \<Rightarrow> u8 list) \<Rightarrow> reader \<Rightarrow> hash \<times> reader" where
  "nextPasswordHash md5 r =
     (let (pwd, r) = nextPassword r in
      if pwd = [] then (emptyHash, r)
      else let hash = password_hash md5 (forceMD5 r) (forceHex r) pwd
           in (hash, if isValid hash then r\<lparr>validEntries := validEntries r + 1\<rparr> else r))"

section \<open>Lines\<close>

text \<open>The lines of a text, split at the newlines; the last one is what follows the last newline.\<close>

primrec split_lines :: "string \<Rightarrow> string list" where
  "split_lines [] = [[]]"
| "split_lines (c # s) =
     (if c = CHR 0x0A then [] # split_lines s
      else case split_lines s of [] \<Rightarrow> [[c]] | l # ls \<Rightarrow> (c # l) # ls)"

lemma split_lines_not_Nil [simp]: "split_lines s \<noteq> []"
  by (cases s) (auto split: list.splits)

lemma split_lines_last: "CHR 0x0A \<notin> set s \<Longrightarrow> split_lines s = [s]"
  by (induction s) auto

lemma split_lines_line: "CHR 0x0A \<notin> set l \<Longrightarrow> split_lines (l @ CHR 0x0A # s) = l # split_lines s"
  by (induction l) auto

text \<open>A stream that can be read and holds the lines \<open>ls\<close>; reading a line takes the first one, and
  the last one sets \<open>eofbit\<close>.\<close>

definition holds :: "char istream \<Rightarrow> string list \<Rightarrow> bool" where
  "holds s ls \<longleftrightarrow> opened s \<and> good s \<and> split_lines (unread s) = ls"

lemma getline_holds:
  assumes "holds s (l # ls)"
  shows "\<exists>s'. getline s str = (l, s') \<and> contents s' = contents s \<and> opened s' \<and> \<not> badbit s' \<and>
    (if ls = [] then eofbit s' else holds s' ls)"
proof (cases "CHR 0x0A \<in> set (unread s)")
  case False
  then have "l = unread s" "ls = []" using assms by (simp_all add: holds_def split_lines_last)
  then show ?thesis
    using assms getline_last [OF _ False, of str] by (simp add: holds_def good_def)
next
  case True
  then obtain line rest where u: "unread s = line @ CHR 0x0A # rest" "CHR 0x0A \<notin> set line"
    using split_list_first by metis
  then have l: "l = line" "ls = split_lines rest" using assms by (simp_all add: holds_def split_lines_line)
  let ?s = "s\<lparr>position := position s + length line + 1\<rparr>"
  have "unread ?s = drop (length line + 1) (unread s)" by (simp add: unread_def add.commute)
  also have "\<dots> = rest" using u by simp
  finally have "holds ?s ls" using assms l by (simp add: holds_def good_def)
  then show ?thesis
    using assms getline_line [OF _ u, of str] l by (simp add: holds_def good_def)
qed

text \<open>Every line is a line of the file.\<close>

lemma holds_open: "holds (open_stream text) (split_lines text)"
  by (simp add: holds_def unread_def)

lemma rewind:
  assumes "opened s"
  shows "seekg 0 (clear_bits s) = (open_stream (contents s) :: char istream)"
  using assms by (simp add: seekg_def clear_bits_def good_def open_stream_def Let_def)

section \<open>What the constructor decides\<close>

text \<open>The number of the lines that contain a separator.\<close>

definition split_count :: "string list \<Rightarrow> char \<Rightarrow> nat" where
  "split_count ls c = length (filter (\<lambda>l. c \<in> set l) ls)"

definition counts_of :: "string list \<Rightarrow> (char \<rightharpoonup> int)" where
  "counts_of ls = (\<lambda>c. if c \<in> set possibleSeparators \<and> split_count ls c > 0 then Some (int (split_count ls c)) else None)"

lemma strip_cr_separator [simp]: "c \<in> set possibleSeparators \<Longrightarrow> c \<in> set (strip_cr l) \<longleftrightarrow> c \<in> set l"
  by (auto simp: strip_cr_def possibleSeparators_def)

lemma count_separators_apply:
  "count_separators line m c =
     (if c \<in> set possibleSeparators \<and> c \<in> set line then Some ((case m c of None \<Rightarrow> 0 | Some k \<Rightarrow> k) + 1) else m c)"
  by (auto simp: count_separators_def possibleSeparators_def)

lemma counts_of_snoc: "count_separators (strip_cr l) (counts_of ls) = counts_of (ls @ [l])"
proof
  fix c
  show "count_separators (strip_cr l) (counts_of ls) c = counts_of (ls @ [l]) c"
    by (cases "c \<in> set possibleSeparators")
      (auto simp: count_separators_apply counts_of_def split_count_def)
qed

lemma guess_loop_counts:
  assumes "holds s ls"
  shows "\<exists>s'. guess_loop n line (counts_of seen) s = (counts_of (seen @ take n ls), s') \<and>
    contents s' = contents s \<and> opened s'"
  using assms
proof (induction n arbitrary: s ls line seen)
  case 0
  then show ?case by (simp add: holds_def)
next
  case (Suc n)
  from Suc.prems obtain l ls' where ls: "ls = l # ls'" by (cases ls) (auto simp: holds_def)
  have e: "\<not> eofbit s" using Suc.prems by (simp add: holds_def good_def)
  obtain s1 where s1: "getline s line = (l, s1)" "contents s1 = contents s" "opened s1"
      "if ls' = [] then eofbit s1 else holds s1 ls'"
    using getline_holds [OF Suc.prems [unfolded ls]] by blast
  show ?case
  proof (cases "ls' = []")
    case True
    then have "guess_loop n (strip_cr l) m s1 = (m, s1)" for m using s1(4) by (cases n) auto
    then show ?thesis using e s1 True ls by (simp add: counts_of_snoc)
  next
    case False
    then show ?thesis
      using Suc.IH [of s1 ls' "strip_cr l" "seen @ [l]"] e s1 ls by (simp add: counts_of_snoc)
  qed
qed

text \<open>The separator most lines contain; of several, the first in the order of the characters.\<close>

definition best_separator :: "string list \<Rightarrow> char" where
  "best_separator ls =
     (let es = split_entries (counts_of ls) in if es = [] then CHR 0x00 else fst (max_element es))"

lemma split_entries_pos: "e \<in> set (split_entries (counts_of ls)) \<Longrightarrow> snd e = int (split_count ls (fst e)) \<and> 0 < snd e \<and> fst e \<in> set possibleSeparators"
  by (auto simp: split_entries_def counts_of_def split: if_splits)

lemma fold_max:
  fixes xs :: "(char \<times> int) list"
  shows "fold (\<lambda>x best. if snd best < snd x then x else best) xs b \<in> insert b (set xs) \<and>
    (\<forall>x \<in> insert b (set xs). snd x \<le> snd (fold (\<lambda>x best. if snd best < snd x then x else best) xs b))"
proof (induction xs arbitrary: b)
  case (Cons a xs)
  show ?case
    using Cons.IH [of a] Cons.IH [of b] by (cases "snd b < snd a") auto
qed simp

lemma max_element_in: "es \<noteq> [] \<Longrightarrow> max_element es \<in> set es \<and> (\<forall>x \<in> set es. snd x \<le> snd (max_element es))"
  using fold_max [of "tl es" "hd es"] by (cases es) (simp_all add: max_element_def)

lemma best_separator_none: "best_separator ls = CHR 0x00 \<longleftrightarrow> (\<forall>c \<in> set possibleSeparators. split_count ls c = 0)"
proof (cases "split_entries (counts_of ls) = []")
  case True
  then have "\<forall>c \<in> set possibleSeparators. split_count ls c = 0"
    by (auto simp: split_entries_def counts_of_def possibleSeparators_def split: if_splits)
  then show ?thesis using True by (simp add: best_separator_def)
next
  case False
  then have e: "max_element (split_entries (counts_of ls)) \<in> set (split_entries (counts_of ls))"
    using max_element_in by blast
  from split_entries_pos [OF this] show ?thesis
    using False by (auto simp: best_separator_def possibleSeparators_def)
qed

lemma best_separator_max:
  assumes "best_separator ls \<noteq> CHR 0x00"
  shows "best_separator ls \<in> set possibleSeparators" "split_count ls c \<le> split_count ls (best_separator ls) \<or> c \<notin> set possibleSeparators"
proof -
  let ?es = "split_entries (counts_of ls)"
  have ne: "?es \<noteq> []" using assms by (auto simp: best_separator_def)
  then have b: "best_separator ls = fst (max_element ?es)" by (simp add: best_separator_def)
  note m = max_element_in [OF ne]
  note p = split_entries_pos [OF conjunct1 [OF m]]
  show "best_separator ls \<in> set possibleSeparators" using p b by simp
  show "split_count ls c \<le> split_count ls (best_separator ls) \<or> c \<notin> set possibleSeparators"
  proof (cases "c \<in> set possibleSeparators \<and> split_count ls c > 0")
    case True
    then have "(c, int (split_count ls c)) \<in> set ?es"
      by (auto simp: split_entries_def counts_of_def possibleSeparators_def)
    with m have "int (split_count ls c) \<le> snd (max_element ?es)" by force
    with p b show ?thesis by simp
  qed auto
qed

lemma counts_of_Nil: "counts_of [] = Map.empty"
  by (auto simp: counts_of_def split_count_def)

lemma guessSeparator_holds:
  assumes "holds (input r) ls" and "guessedSeparator r = CHR 0x00"
  shows "guessSeparator r =
    (best_separator (take nTries ls),
     r\<lparr>guessedSeparator := best_separator (take nTries ls), input := open_stream (contents (input r))\<rparr>)"
proof -
  obtain s' where s': "guess_loop nTries [] Map.empty (input r) = (counts_of (take nTries ls), s')"
      "contents s' = contents (input r)" "opened s'"
    using guess_loop_counts [OF assms(1), of nTries "[]" "[]"] by (auto simp: counts_of_Nil)
  let ?es = "split_entries (counts_of (take nTries ls))"
  have "?es \<noteq> [] \<Longrightarrow> 0 < snd (max_element ?es)"
    using split_entries_pos [of "max_element ?es"] max_element_in by blast
  then show ?thesis
    using assms(2) s' by (simp add: guessSeparator_def best_separator_def Let_def rewind)
qed

text \<open>The two loops that look for a line with an encoded password.\<close>

lemma md5_loop_holds:
  assumes "holds s ls"
  shows "\<exists>s'. md5_loop n sep line s =
      (\<exists>l \<in> set (take n ls). sep \<in> set (strip_cr l) \<and> regex_search MD5Regex (strip_cr l), s') \<and>
    contents s' = contents s \<and> opened s'"
  using assms
proof (induction n arbitrary: s ls line)
  case 0
  then show ?case by (simp add: holds_def)
next
  case (Suc n)
  from Suc.prems obtain l ls' where ls: "ls = l # ls'" by (cases ls) (auto simp: holds_def)
  have e: "\<not> eofbit s" using Suc.prems by (simp add: holds_def good_def)
  obtain s1 where s1: "getline s line = (l, s1)" "contents s1 = contents s" "opened s1"
      "if ls' = [] then eofbit s1 else holds s1 ls'"
    using getline_holds [OF Suc.prems [unfolded ls]] by blast
  have stop: "md5_loop n sep str s1 = (False, s1)" if "ls' = []" for str
    using s1(4) that by (cases n) auto
  show ?case
    using Suc.IH [of s1 ls' "strip_cr l"] e s1 ls stop by (cases "ls' = []") (auto simp: Let_def)
qed

lemma hex_loop_holds:
  assumes "holds s ls"
  shows "\<exists>s'. hex_loop n sep line s =
      (\<exists>l \<in> set (take n ls). sep \<in> set l \<and> regex_search HexRegex l, s') \<and>
    contents s' = contents s \<and> opened s'"
  using assms
proof (induction n arbitrary: s ls line)
  case 0
  then show ?case by (simp add: holds_def)
next
  case (Suc n)
  from Suc.prems obtain l ls' where ls: "ls = l # ls'" by (cases ls) (auto simp: holds_def)
  have e: "\<not> eofbit s" using Suc.prems by (simp add: holds_def good_def)
  obtain s1 where s1: "getline s line = (l, s1)" "contents s1 = contents s" "opened s1"
      "if ls' = [] then eofbit s1 else holds s1 ls'"
    using getline_holds [OF Suc.prems [unfolded ls]] by blast
  have stop: "hex_loop n sep str s1 = (False, s1)" if "ls' = []" for str
    using s1(4) that by (cases n) auto
  show ?case
    using Suc.IH [of s1 ls' l] e s1 ls stop by (cases "ls' = []") (auto simp: Let_def)
qed

lemma checkForMD5Hashes_open:
  assumes "input r = open_stream text"
  shows "checkForMD5Hashes r =
    (let force = forceMD5 r \<or> autoMD5 r \<and> (\<exists>l \<in> set (take nTries (split_lines text)).
         guessedSeparator r \<in> set (strip_cr l) \<and> regex_search MD5Regex (strip_cr l))
     in (force, r\<lparr>forceMD5 := force\<rparr>))"
  using md5_loop_holds [OF holds_open [of "text"], of nTries "guessedSeparator r" "[]"] assms
  by (cases r) (auto simp: checkForMD5Hashes_def rewind Let_def)

lemma checkForHex_open:
  assumes "input r = open_stream text"
  shows "checkForHexEncodedPasswords r =
    (let force = forceHex r \<or> autoHex r \<and> (\<exists>l \<in> set (take nTries (split_lines text)).
         guessedSeparator r \<in> set l \<and> regex_search HexRegex l)
     in (force, r\<lparr>forceHex := force\<rparr>))"
  using hex_loop_holds [OF holds_open [of "text"], of nTries "guessedSeparator r" "[]"] assms
  by (cases r) (auto simp: checkForHexEncodedPasswords_def rewind Let_def)

definition first_lines :: "string \<Rightarrow> string list" where
  "first_lines text = take nTries (split_lines text)"

lemma newReader_open:
  "newReader (open_stream text) options =
     (let ls = first_lines text; sep = best_separator ls
      in \<lparr>validEntries = 0, lineNo = 0, guessedSeparator = sep,
          forceHex = (forceEvaluateHexEncodedPasswords \<in> set options \<or>
            autoEvaluateHexEncodedPasswords \<in> set options \<and> (\<exists>l \<in> set ls. sep \<in> set l \<and> regex_search HexRegex l)),
          forceMD5 = (forceEvaluateMD5Hashes \<in> set options \<or>
            autoEvaluateMD5Hashes \<in> set options \<and>
            (\<exists>l \<in> set ls. sep \<in> set (strip_cr l) \<and> regex_search MD5Regex (strip_cr l))),
          autoHex = autoEvaluateHexEncodedPasswords \<in> set options,
          autoMD5 = autoEvaluateMD5Hashes \<in> set options,
          input = open_stream text, currentLine = []\<rparr>)"
  by (simp add: newReader_def evaluateContents_def guessSeparator_holds [where ls = "split_lines text"] holds_open
      checkForHex_open [of _ "text"] checkForMD5Hashes_open [of _ "text"] Let_def first_lines_def)

lemma no_separator:
  assumes "\<forall>l \<in> set (first_lines text). \<forall>c \<in> set possibleSeparators. c \<notin> set l"
  shows "guessedSeparator (newReader (open_stream text) options) = CHR 0x00"
proof -
  have "best_separator (first_lines text) = CHR 0x00"
    unfolding best_separator_none using assms by (auto simp: split_count_def filter_empty_conv)
  then show ?thesis by (simp add: newReader_open Let_def)
qed

section \<open>Passwords and their hashes\<close>

text \<open>What follows the first separator of a line, without carriage returns.\<close>

lemma extractPassword_split:
  assumes "sep \<noteq> CHR 0x00" and "sep \<noteq> CHR 0x0D" and "sep \<notin> set u"
  shows "extractPassword sep (u @ sep # p) = strip_cr p"
proof -
  have "dropWhile (\<lambda>c. c \<noteq> sep) (strip_cr u @ sep # strip_cr p) = sep # strip_cr p"
    using assms(3) by (subst dropWhile_append2) (auto simp: strip_cr_def)
  then show ?thesis using assms by (simp add: extractPassword_def strip_cr_def)
qed

lemma extractPassword_whole: "sep \<notin> set l \<or> sep = CHR 0x00 \<Longrightarrow> extractPassword sep l = strip_cr l"
  by (auto simp: extractPassword_def strip_cr_def Let_def)

text \<open>The patterns.\<close>

lemma alnum_hexDigit: "isHexDigit c \<Longrightarrow> is_alnum c"
proof -
  have e: "(of_char c :: int) = int (of_char c)" by (rule of_nat_of_char [symmetric])
  assume "isHexDigit c"
  then show "is_alnum c"
    unfolding isHexDigit_def decodeHex_def Let_def e is_alnum_def by (auto split: if_splits)
qed

lemma match_MD5: "regex_match MD5Regex pwd \<noteq> None \<longleftrightarrow> length pwd = 32 \<and> list_all is_alnum pwd"
  by (auto simp: regex_match_None MD5Regex_def matches_times)

lemma lazy_pairs:
  assumes "0 < w"
  shows "set (matches (lazy_plus (times w (Cls P))) (s, c)) =
    {(drop (w * k) s, c) | k. 0 < k \<and> w * k \<le> length s \<and> list_all P (take (w * k) s)}" (is "?L = ?R")
proof -
  show ?thesis
  proof (cases "w \<le> length s \<and> list_all P (take w s)")
    case fits: True
    have "?L = {(drop (w * k) (drop w s), c) | k. w * k \<le> length (drop w s) \<and> list_all P (take (w * k) (drop w s))}"
      using fits rep_times [OF assms, of "drop w s" "length (drop w s)" P c]
      by (simp add: lazy_plus_def matches_times set_rep_lazy)
    also have "\<dots> = ?R"
    proof (intro equalityI subsetI)
      fix y
      assume "y \<in> {(drop (w * k) (drop w s), c) | k. w * k \<le> length (drop w s) \<and> list_all P (take (w * k) (drop w s))}"
      then obtain k where "y = (drop (w * k) (drop w s), c)" "w * k \<le> length (drop w s)" "list_all P (take (w * k) (drop w s))"
        by blast
      then show "y \<in> ?R"
        using fits by (intro CollectI exI [of _ "Suc k"]) (auto simp: list_all_iff take_add add.commute)
    next
      fix y
      assume "y \<in> ?R"
      then obtain k where k: "y = (drop (w * k) s, c)" "0 < k" "w * k \<le> length s" "list_all P (take (w * k) s)" by blast
      then obtain j where "k = Suc j" by (cases k) auto
      moreover have "drop (w * j) (drop w s) = drop (w + w * j) s" by (simp add: add.commute)
      ultimately show "y \<in> {(drop (w * k) (drop w s), c) | k. w * k \<le> length (drop w s) \<and> list_all P (take (w * k) (drop w s))}"
        using k by (intro CollectI exI [of _ j]) (auto simp: list_all_iff take_add)
    qed
    finally show ?thesis .
  next
    case False
    then have "?L = {}" by (auto simp: lazy_plus_def matches_times)
    moreover have "?R = {}"
    proof (intro equals0I)
      fix y
      assume "y \<in> ?R"
      then obtain k where "0 < k" "w * k \<le> length s" "list_all P (take (w * k) s)" by blast
      moreover from this(1) obtain j where "k = Suc j" by (cases k) auto
      ultimately show False using False by (auto simp: list_all_iff take_add)
    qed
    ultimately show ?thesis by simp
  qed
qed

lemma Hex_parts:
  "x \<in> set (matches HexRegex (s, Map.empty)) \<longleftrightarrow>
     take 5 s = ''$HEX['' \<and>
     (\<exists>y \<in> set (matches (lazy_plus (times 2 (Cls is_alnum))) (drop 5 s, Map.empty)).
        take 1 (fst y) = '']'' \<and>
        x = (drop 1 (fst y), (snd y)(1 \<mapsto> take (length (drop 5 s) - length (fst y)) (drop 5 s))))"
proof -
  let ?L = "matches (lazy_plus (times 2 (Cls is_alnum))) (drop 5 s, Map.empty)"
  let ?cap = "\<lambda>y. (snd y)(1 \<mapsto> take (length (drop 5 s) - length (fst y)) (drop 5 s))"
  have len: "length ''$HEX['' = 5" "length '']'' = 1" by simp_all
  have "matches HexRegex (s, Map.empty) =
      (if take 5 s = ''$HEX['' then concat (map (\<lambda>y. if take 1 (fst y) = '']'' then [(drop 1 (fst y), ?cap y)] else []) ?L) else [])"
    unfolding HexRegex_def matches.simps(3,7) matches_literal len
    by (simp only: map_map o_def matches_literal len fst_conv list.map concat.simps append_Nil2 if_distrib [of "map _"] if_distrib [of concat])
  then show ?thesis by (auto simp del: One_nat_def split: if_splits)
qed

lemma set_matches_Hex:
  "([], c) \<in> set (matches HexRegex (s, Map.empty)) \<longleftrightarrow>
     (\<exists>inner. s = ''$HEX['' @ inner @ '']'' \<and> inner \<noteq> [] \<and> even (length inner) \<and> list_all is_alnum inner \<and> c = [1 \<mapsto> inner])"
proof
  assume "([], c) \<in> set (matches HexRegex (s, Map.empty))"
  then have t: "take 5 s = ''$HEX[''"
    and m: "\<exists>y \<in> set (matches (lazy_plus (times 2 (Cls is_alnum))) (drop 5 s, Map.empty)).
      take 1 (fst y) = '']'' \<and> drop 1 (fst y) = [] \<and> c = (snd y)(1 \<mapsto> take (length (drop 5 s) - length (fst y)) (drop 5 s))"
    unfolding Hex_parts by auto
  from m obtain k where k: "0 < k" "2 * k \<le> length (drop 5 s)" "list_all is_alnum (take (2 * k) (drop 5 s))"
      "take 1 (drop (2 * k) (drop 5 s)) = '']''" "drop 1 (drop (2 * k) (drop 5 s)) = []"
      "c = [1 \<mapsto> take (length (drop 5 s) - length (drop (2 * k) (drop 5 s))) (drop 5 s)]"
    unfolding lazy_pairs [OF zero_less_numeral] by auto
  let ?i = "take (2 * k) (drop 5 s)"
  have "drop (2 * k) (drop 5 s) = '']''"
    using k(4,5) append_take_drop_id [of 1 "drop (2 * k) (drop 5 s)"] by simp
  then have "drop 5 s = ?i @ '']''" using append_take_drop_id [of "2 * k" "drop 5 s"] by simp
  then have "s = ''$HEX['' @ ?i @ '']''" using t append_take_drop_id [of 5 s] by simp
  moreover have "length ?i = 2 * k" using k(2) by simp
  moreover have "length (drop 5 s) - length (drop (2 * k) (drop 5 s)) = 2 * k" using k(2) by simp
  then have "c = [1 \<mapsto> ?i]" using k(6) by (simp only:)
  ultimately show "\<exists>inner. s = ''$HEX['' @ inner @ '']'' \<and> inner \<noteq> [] \<and> even (length inner) \<and> list_all is_alnum inner \<and> c = [1 \<mapsto> inner]"
    using k(1,3) by (intro exI [of _ ?i]) auto
next
  assume "\<exists>inner. s = ''$HEX['' @ inner @ '']'' \<and> inner \<noteq> [] \<and> even (length inner) \<and> list_all is_alnum inner \<and> c = [1 \<mapsto> inner]"
  then obtain inner where i: "s = ''$HEX['' @ inner @ '']''" "inner \<noteq> []" "even (length inner)" "list_all is_alnum inner"
      "c = [1 \<mapsto> inner]" by blast
  from i(3) obtain k where k: "length inner = 2 * k" by (elim evenE)
  moreover from this i(2) have "0 < k" by (cases k) auto
  ultimately have k: "length inner = 2 * k" "0 < k" by simp_all
  have "('']'', Map.empty) \<in> set (matches (lazy_plus (times 2 (Cls is_alnum))) (inner @ '']'', Map.empty))"
    unfolding lazy_pairs [OF zero_less_numeral] using k i by (intro CollectI exI [of _ k]) auto
  then show "([], c) \<in> set (matches HexRegex (s, Map.empty))"
    unfolding Hex_parts i(1,5) by force
qed

lemma match_Hex:
  "regex_match HexRegex s =
     (if \<exists>inner. s = ''$HEX['' @ inner @ '']'' \<and> inner \<noteq> [] \<and> even (length inner) \<and> list_all is_alnum inner
      then Some [1 \<mapsto> butlast (drop 5 s)] else None)"
proof (cases "regex_match HexRegex s")
  case None
  then have "\<not> (\<exists>c. ([], c) \<in> set (matches HexRegex (s, Map.empty)))"
    by (force simp: regex_match_None)
  then show ?thesis using None unfolding set_matches_Hex by auto
next
  case (Some c)
  from regex_match_Some [OF this] show ?thesis
    using Some unfolding set_matches_Hex by auto
qed

lemma password_hash_valid: "isValid (password_hash md5 fm fh pwd)"
  by (auto simp: password_hash_def hash_of_string_def Let_def toHostByteOrder_def split: option.splits)

lemma password_hash_hex_digits:
  assumes "isValid h"
  shows "password_hash md5 True fh (toString u h) = h"
proof -
  have v: "isValid (fromHex (toString u h))" by (simp add: fromHex_toString)
  then have "regex_match MD5Regex (toString u h) \<noteq> None"
    unfolding isValid_fromHex match_MD5 by (auto simp: list_all_iff intro: alnum_hexDigit)
  then show ?thesis
    using v assms fromHex_toString [of u h] by (cases h) (simp add: password_hash_def Let_def)
qed

lemma password_hash_plain:
  assumes "\<not> (fm \<and> length pwd = 32 \<and> list_all isHexDigit pwd)"
    and "\<not> (fh \<and> (\<exists>inner. pwd = ''$HEX['' @ inner @ '']'' \<and> inner \<noteq> [] \<and> even (length inner) \<and> list_all is_alnum inner))"
  shows "password_hash md5 fm fh pwd = hash_of_string md5 pwd"
proof -
  let ?h = "if fm \<and> regex_match MD5Regex pwd \<noteq> None then fromHex pwd else emptyHash"
  have h: "\<not> isValid ?h" using assms(1) isValid_fromHex [of pwd] by (auto simp: emptyHash_def)
  have x: "\<not> fh \<or> regex_match HexRegex pwd = None" using assms(2) by (auto simp: match_Hex)
  show ?thesis
    unfolding password_hash_def Let_def using h x by (simp only: if_False if_True option.case simp_thms) auto
qed

lemma password_hash_encoded:
  assumes "bs \<noteq> []"
  shows "password_hash md5 fm True (''$HEX['' @ concat (map (byteHex u) bs) @ '']'') =
    hash_of_string md5 (map (\<lambda>b. char_of (unat b)) bs)"
proof -
  let ?i = "concat (map (byteHex u) bs)" and ?pwd = "''$HEX['' @ concat (map (byteHex u) bs) @ '']''"
  have len: "length ?i = 2 * length bs" by (simp add: concat_map_const_length)
  have "unat b div 16 < 16" for b :: u8 using unsigned_less [of b, where ?'a = nat] by simp
  then have hexd: "list_all isHexDigit ?i" by (induction bs) (auto simp: byteHex_def)
  then have a: "list_all is_alnum ?i" by (auto simp: list_all_iff intro: alnum_hexDigit)
  have ne: "?i \<noteq> []" using len assms by (cases bs) (auto simp: byteHex_def)
  have "\<not> isValid (fromHex ?pwd)"
    by (simp add: isValid_fromHex isHexDigit_def decodeHex_def)
  then have h: "\<not> isValid (if fm \<and> regex_match MD5Regex ?pwd \<noteq> None then fromHex ?pwd else emptyHash)"
    by (simp add: emptyHash_def)
  have m: "regex_match HexRegex ?pwd = Some [1 \<mapsto> ?i]"
    unfolding match_Hex using a len ne by auto
  have d: "snd (hexToCharSeq ?i) = map (\<lambda>b. char_of (unat b)) bs"
    using len by (simp add: hexToCharSeq_def hexToCharSeq_loop_byteHex)
  have v: "isValid (hash_of_string md5 x)" for x by (simp add: hash_of_string_def Let_def toHostByteOrder_def)
  show ?thesis
    unfolding password_hash_def Let_def using h by (simp only: if_False simp_thms not_True_eq_False m option.case) (simp add: d v)
qed

section \<open>Reading on\<close>

text \<open>The hash a line gives under the reader's settings.\<close>

definition line_hash :: "(string \<Rightarrow> u8 list) \<Rightarrow> reader \<Rightarrow> string \<Rightarrow> hash" where
  "line_hash md5 r line =
     (let pwd = (if length line > 200 \<or> length line < 1 then [] else extractPassword (guessedSeparator r) line)
      in if pwd = [] then emptyHash else password_hash md5 (forceMD5 r) (forceHex r) pwd)"

lemma nextPasswordHash_holds:
  assumes "holds (input r) (l # ls)"
  shows "\<exists>r'. nextPasswordHash md5 r = (line_hash md5 r l, r') \<and> line_hash md5 r' = line_hash md5 r \<and>
    \<not> badbit (input r') \<and> (if ls = [] then eofbit (input r') else holds (input r') ls)"
proof -
  obtain s where s: "getline (input r) (currentLine r) = (l, s)" "\<not> badbit s" "if ls = [] then eofbit s else holds s ls"
    using getline_holds [OF assms] by blast
  moreover have "\<not> eofbit (input r)" "\<not> badbit (input r)" using assms by (simp_all add: holds_def good_def)
  ultimately show ?thesis
    by (auto simp: nextPasswordHash_def nextPassword_def line_hash_def Let_def fun_eq_iff)
qed

lemma newReader_holds:
  "holds (input (newReader (open_stream text) options)) (split_lines text)"
  by (simp add: newReader_open Let_def holds_open)

text \<open>The password of a line: none for lines that are empty or too long.\<close>

definition line_password :: "char \<Rightarrow> string \<Rightarrow> string" where
  "line_password sep l = (if length l > 200 \<or> length l < 1 then [] else extractPassword sep l)"

lemma nextPassword_holds:
  assumes "holds (input r) (l # ls)"
  shows "\<exists>r'. nextPassword r = (line_password (guessedSeparator r) l, r') \<and> guessedSeparator r' = guessedSeparator r \<and>
    \<not> badbit (input r') \<and> (if ls = [] then eofbit (input r') else holds (input r') ls)"
proof -
  obtain s where s: "getline (input r) (currentLine r) = (l, s)" "\<not> badbit s" "if ls = [] then eofbit s else holds s ls"
    using getline_holds [OF assms] by blast
  moreover have "\<not> eofbit (input r)" "\<not> badbit (input r)" using assms by (simp_all add: holds_def good_def)
  ultimately show ?thesis by (auto simp: nextPassword_def line_password_def Let_def)
qed

text \<open>The readers after each call.\<close>

lemma reader_steps:
  fixes md5
  assumes "holds (input r) ls" and "i < length ls"
  defines "step \<equiv> \<lambda>r. snd (nextPasswordHash md5 r)"
  shows "holds (input ((step ^^ i) r)) (drop i ls) \<and> line_hash md5 ((step ^^ i) r) = line_hash md5 r"
  using assms(2)
proof (induction i)
  case 0
  then show ?case using assms(1) by simp
next
  case (Suc i)
  then have h: "holds (input ((step ^^ i) r)) (ls ! i # drop (Suc i) ls)"
    and e: "line_hash md5 ((step ^^ i) r) = line_hash md5 r"
    by (simp_all add: Cons_nth_drop_Suc)
  have "drop (Suc i) ls \<noteq> []" using Suc.prems by simp
  then show ?case
    using nextPasswordHash_holds [OF h, of md5] e by (auto simp: step_def)
qed

text \<open>The counters.\<close>

lemma nextPasswordHash_counts:
  assumes "holds (input r) (l # ls)"
  shows "lineNo (snd (nextPasswordHash md5 r)) = lineNo r + 1 \<and>
    validEntries (snd (nextPasswordHash md5 r)) = validEntries r + (if isValid (line_hash md5 r l) then 1 else 0)"
proof -
  obtain s where s: "getline (input r) (currentLine r) = (l, s)"
    using getline_holds [OF assms] by blast
  moreover have "\<not> eofbit (input r)" "\<not> badbit (input r)" using assms by (simp_all add: holds_def good_def)
  moreover have "\<not> isValid emptyHash" by (simp add: emptyHash_def)
  ultimately show ?thesis
    by (auto simp: nextPasswordHash_def nextPassword_def line_hash_def Let_def)
qed

lemma reader_counts:
  fixes md5
  assumes "holds (input r) ls" and "i \<le> length ls"
  defines "step \<equiv> \<lambda>r. snd (nextPasswordHash md5 r)"
  shows "lineNo ((step ^^ i) r) = lineNo r + word_of_nat i \<and>
    validEntries ((step ^^ i) r) =
      validEntries r + word_of_nat (length (filter (\<lambda>l. isValid (line_hash md5 r l)) (take i ls)))"
  using assms(2)
proof (induction i)
  case 0
  then show ?case by simp
next
  case (Suc i)
  have h: "holds (input ((step ^^ i) r)) (ls ! i # drop (Suc i) ls)"
    and e: "line_hash md5 ((step ^^ i) r) = line_hash md5 r"
    using reader_steps [OF assms(1), of i md5] Suc.prems by (simp_all add: step_def Cons_nth_drop_Suc)
  have "take (Suc i) ls = take i ls @ [ls ! i]" using Suc.prems by (simp add: take_Suc_conv_app_nth)
  then show ?case
    using nextPasswordHash_counts [OF h, of md5] Suc.IH Suc.prems e by (simp add: step_def add_ac)
qed

section \<open>Properties\<close>

text \<open>
  C14: The reader settles on the separator that most of the first 500 lines contain (none if no line
  contains one), looks for encoded passwords only in lines that contain it, and starts over at the
  first line.
\<close>

theorem newReader_settings:
  "let ls = take 500 (split_lines text); r = newReader (open_stream text) options;
       sep = guessedSeparator r; seps = {CHR '':'', CHR '';'', CHR 0x09, CHR '' ''}
   in input r = open_stream text \<and>
      (if \<exists>c \<in> seps. \<exists>l \<in> set ls. c \<in> set l
       then sep \<in> seps \<and>
         (\<forall>c \<in> seps. length (filter (\<lambda>l. c \<in> set l) ls) \<le> length (filter (\<lambda>l. sep \<in> set l) ls))
       else sep = CHR 0x00) \<and>
      (forceMD5 r \<longleftrightarrow>
        forceEvaluateMD5Hashes \<in> set options \<or>
        autoEvaluateMD5Hashes \<in> set options \<and>
        (\<exists>l \<in> set ls. sep \<in> set (strip_cr l) \<and> regex_search MD5Regex (strip_cr l))) \<and>
      (forceHex r \<longleftrightarrow>
        forceEvaluateHexEncodedPasswords \<in> set options \<or>
        autoEvaluateHexEncodedPasswords \<in> set options \<and>
        (\<exists>l \<in> set ls. sep \<in> set l \<and> regex_search HexRegex l))"
proof -
  let ?ls = "first_lines text"
  have none: "best_separator ?ls = CHR 0x00 \<longleftrightarrow> \<not> (\<exists>c \<in> set possibleSeparators. \<exists>l \<in> set ?ls. c \<in> set l)"
    unfolding best_separator_none by (auto simp: split_count_def filter_empty_conv)
  have ls: "take 500 (split_lines text) = ?ls" by (simp add: first_lines_def nTries_def)
  have seps: "{CHR '':'', CHR '';'', CHR 0x09, CHR '' ''} = set possibleSeparators"
    by (simp add: possibleSeparators_def)
  let ?r = "newReader (open_stream text) options" and ?sep = "best_separator ?ls"
  have f: "input ?r = open_stream text" "guessedSeparator ?r = ?sep"
    "forceMD5 ?r \<longleftrightarrow> forceEvaluateMD5Hashes \<in> set options \<or> autoEvaluateMD5Hashes \<in> set options \<and>
        (\<exists>l \<in> set ?ls. ?sep \<in> set (strip_cr l) \<and> regex_search MD5Regex (strip_cr l))"
    "forceHex ?r \<longleftrightarrow> forceEvaluateHexEncodedPasswords \<in> set options \<or> autoEvaluateHexEncodedPasswords \<in> set options \<and>
        (\<exists>l \<in> set ?ls. ?sep \<in> set l \<and> regex_search HexRegex l)"
    by (simp_all add: newReader_open Let_def)
  have "if \<exists>c \<in> set possibleSeparators. \<exists>l \<in> set ?ls. c \<in> set l
    then ?sep \<in> set possibleSeparators \<and>
      (\<forall>c \<in> set possibleSeparators. length (filter (\<lambda>l. c \<in> set l) ?ls) \<le> length (filter (\<lambda>l. ?sep \<in> set l) ?ls))
    else ?sep = CHR 0x00"
    using none best_separator_max [of ?ls] unfolding split_count_def by (auto split: if_split)
  then show ?thesis
    unfolding Let_def ls seps f by (intro conjI) (assumption | rule refl)+
qed

theorem newReader_settings_witness:
  "guessedSeparator (newReader (open_stream [CHR ''a'', CHR '':'', CHR ''b'']) []) = CHR '':''"
  using newReader_settings [of "[CHR ''a'', CHR '':'', CHR ''b'']" "[]"]
  by (auto simp: Let_def numeral_eq_Suc)

text \<open>
  C13: The calls of \<^verbatim>\<open>nextPasswordHash\<close> go through the lines of the text one by one: call
  \<open>i\<close> returns the hash of line \<open>i\<close> under the settings the constructor chose, the reader is
  at the end of the file exactly after the last line, \<^verbatim>\<open>lineNo\<close> counts the calls, and
  \<^verbatim>\<open>validEntries\<close> the lines so far that had a valid hash.
\<close>

theorem reader_goes_through_lines:
  fixes "text" :: string and md5 and options
  defines "r \<equiv> newReader (open_stream text) options" and "step \<equiv> \<lambda>r. snd (nextPasswordHash md5 r)"
  assumes "i < length (split_lines text)"
  shows "fst (nextPasswordHash md5 ((step ^^ i) r)) = line_hash md5 r (split_lines text ! i) \<and>
    (reader_eof ((step ^^ Suc i) r) \<longleftrightarrow> Suc i = length (split_lines text)) \<and>
    lineNo ((step ^^ Suc i) r) = word_of_nat (Suc i) \<and>
    validEntries ((step ^^ Suc i) r) =
      word_of_nat (length (filter (\<lambda>l. isValid (line_hash md5 r l)) (take (Suc i) (split_lines text))))"
proof -
  have h: "holds (input r) (split_lines text)" by (simp add: r_def newReader_holds)
  have n: "lineNo r = 0" "validEntries r = 0" by (simp_all add: r_def newReader_open Let_def)
  have "holds (input ((step ^^ i) r)) (split_lines text ! i # drop (Suc i) (split_lines text))"
    and e: "line_hash md5 ((step ^^ i) r) = line_hash md5 r"
    using reader_steps [OF h, of i md5] assms(3) by (simp_all add: step_def Cons_nth_drop_Suc)
  from nextPasswordHash_holds [OF this(1), of md5]
  have "fst (nextPasswordHash md5 ((step ^^ i) r)) = line_hash md5 r (split_lines text ! i)"
    and "reader_eof ((step ^^ Suc i) r) \<longleftrightarrow> Suc i = length (split_lines text)"
    using assms(3) e by (auto simp: step_def reader_eof_def holds_def good_def split: if_splits)
  with reader_counts [OF h, of "Suc i" md5] n assms(3) show ?thesis
    unfolding step_def by (intro conjI) simp_all
qed

theorem reader_goes_through_lines_witness:
  "\<exists>r. r = snd (nextPasswordHash toy_md5 (newReader (open_stream [CHR ''a'', CHR 0x0A, CHR ''b'']) [])) \<and>
     \<not> reader_eof r \<and> fst (nextPasswordHash toy_md5 r) = hash_of_string toy_md5 ''b'' \<and>
     lineNo r = 1"
proof -
  let ?t = "[CHR ''a'', CHR 0x0A, CHR ''b'']"
  let ?r = "newReader (open_stream ?t) []"
  have "split_lines ?t = [''a'', ''b'']" by simp
  with reader_goes_through_lines [of 0 ?t toy_md5 "[]"] reader_goes_through_lines [of 1 ?t toy_md5 "[]"]
  have "\<not> reader_eof (snd (nextPasswordHash toy_md5 ?r))" "lineNo (snd (nextPasswordHash toy_md5 ?r)) = 1"
    "fst (nextPasswordHash toy_md5 (snd (nextPasswordHash toy_md5 ?r))) = line_hash toy_md5 ?r ''b''"
    by simp_all
  moreover have "extractPassword (guessedSeparator ?r) ''b'' = ''b''"
    using no_separator [of ?t "[]"] by (simp add: extractPassword_def strip_cr_def Let_def first_lines_def nTries_def possibleSeparators_def)
  ultimately show ?thesis
    by (auto simp: line_hash_def newReader_open Let_def password_hash_def emptyHash_def hash_of_string_def toHostByteOrder_def)
qed

text \<open>What the three readings of a password are, one after the other.\<close>

lemma password_hash_cases:
  "password_hash md5 fm fh p =
     (if fm \<and> length p = 32 \<and> list_all isHexDigit p then fromHex p
      else if fh \<and> (\<exists>inner. p = ''$HEX['' @ inner @ '']'' \<and> inner \<noteq> [] \<and> even (length inner) \<and> list_all is_alnum inner)
      then hash_of_string md5 (snd (hexToCharSeq (butlast (drop 5 p))))
      else hash_of_string md5 p)"
proof -
  have v: "isValid (hash_of_string md5 x)" for x by (simp add: hash_of_string_def Let_def toHostByteOrder_def)
  consider (md5) "fm \<and> length p = 32 \<and> list_all isHexDigit p"
    | (hex) "\<not> (fm \<and> length p = 32 \<and> list_all isHexDigit p)"
        "fh \<and> (\<exists>inner. p = ''$HEX['' @ inner @ '']'' \<and> inner \<noteq> [] \<and> even (length inner) \<and> list_all is_alnum inner)"
    | (plain) "\<not> (fm \<and> length p = 32 \<and> list_all isHexDigit p)"
        "\<not> (fh \<and> (\<exists>inner. p = ''$HEX['' @ inner @ '']'' \<and> inner \<noteq> [] \<and> even (length inner) \<and> list_all is_alnum inner))"
    by blast
  then show ?thesis
  proof cases
    case md5
    then have "isValid (fromHex p)" "regex_match MD5Regex p \<noteq> None"
      unfolding isValid_fromHex match_MD5 by (auto simp: list_all_iff intro: alnum_hexDigit)
    then show ?thesis using md5 by (simp add: password_hash_def Let_def)
  next
    case hex
    let ?h = "if fm \<and> regex_match MD5Regex p \<noteq> None then fromHex p else emptyHash"
    have h: "\<not> isValid ?h" using hex(1) isValid_fromHex [of p] by (auto simp: emptyHash_def)
    have m: "regex_match HexRegex p = Some [1 \<mapsto> butlast (drop 5 p)]" using hex(2) by (simp add: match_Hex)
    show ?thesis
      using hex unfolding password_hash_def Let_def
      by (simp only: h if_False if_True simp_thms m option.case) (simp add: v)
  next
    case plain
    from password_hash_plain [OF this] plain show ?thesis by auto
  qed
qed

text \<open>
  What the hash of a \<^verbatim>\<open>user:password\<close> line is: a password of 32 hexadecimal digits is
  that hash when MD5 passwords are evaluated, one in \<^verbatim>\<open>$HEX[...]\<close> is decoded first when hex encoded
  passwords are, any other is hashed as it stands.
\<close>

theorem line_hash_formats:
  assumes "sep = guessedSeparator r" and "sep \<noteq> CHR 0x00" and "sep \<noteq> CHR 0x0D"
    and "sep \<notin> set user" and "CHR 0x0D \<notin> set p" and "p \<noteq> []" and "length (user @ sep # p) \<le> 200"
  shows "line_hash md5 r (user @ sep # p) =
     (if forceMD5 r \<and> length p = 32 \<and> list_all isHexDigit p then fromHex p
      else if forceHex r \<and> (\<exists>inner. p = ''$HEX['' @ inner @ '']'' \<and> inner \<noteq> [] \<and> even (length inner) \<and> list_all is_alnum inner)
      then hash_of_string md5 (snd (hexToCharSeq (butlast (drop 5 p))))
      else hash_of_string md5 p)"
proof -
  have "strip_cr p = p" using assms(5) by (auto simp: strip_cr_def filter_id_conv)
  then have "extractPassword (guessedSeparator r) (user @ sep # p) = p"
    using extractPassword_split [of sep user p] assms by simp
  then have "line_hash md5 r (user @ sep # p) = password_hash md5 (forceMD5 r) (forceHex r) p"
    using assms(6,7) by (simp add: line_hash_def Let_def)
  then show ?thesis by (simp only: password_hash_cases)
qed

theorem line_hash_formats_witness:
  "line_hash toy_md5 (newReader (open_stream ''u:x'') []) ''me:secret'' = hash_of_string toy_md5 ''secret''"
proof -
  have "guessedSeparator (newReader (open_stream ''u:x'') []) = CHR '':''" by code_simp
  moreover have "\<not> forceMD5 (newReader (open_stream ''u:x'') [])" "\<not> forceHex (newReader (open_stream ''u:x'') [])"
    by (simp_all add: newReader_open Let_def)
  ultimately show ?thesis
    using line_hash_formats [of "CHR '':''" "newReader (open_stream ''u:x'') []" "''me''" "''secret''" toy_md5] by simp
qed

text \<open>
  C15: Encoded passwords read back: a valid hash printed in hexadecimal is that hash, and a password
  printed as \<^verbatim>\<open>$HEX[...]\<close> with its bytes in hexadecimal is hashed as these bytes.
\<close>

theorem encoded_passwords_roundtrip:
  "(isValid h \<longrightarrow> password_hash md5 True fh (toString u h) = h) \<and>
   (bs \<noteq> [] \<longrightarrow> password_hash md5 fm True (''$HEX['' @ concat (map (byteHex u) bs) @ '']'') =
      hash_of_string md5 (map (\<lambda>b. char_of (unat b)) bs))"
  using password_hash_hex_digits [of h md5 fh u] password_hash_encoded [of bs md5 fm u] by blast

theorem encoded_passwords_roundtrip_witness:
  "password_hash toy_md5 True False (toString False (hash_of_quad 1 2)) = hash_of_quad 1 2"
  using encoded_passwords_roundtrip [of "hash_of_quad 1 2" toy_md5 False False "[]" False]
  by (simp add: hash_of_quad_def)

text \<open>
  Without a separator in the first lines (and without NUL characters) the automatic detection of
  encoded passwords never fires, not even on a file of MD5 hashes.
\<close>

theorem auto_detection_needs_separator:
  assumes "\<forall>l \<in> set (split_lines text). \<forall>c \<in> {CHR '':'', CHR '';'', CHR 0x09, CHR '' '', CHR 0x00}. c \<notin> set l"
  shows "(forceMD5 (newReader (open_stream text) options) \<longleftrightarrow> forceEvaluateMD5Hashes \<in> set options) \<and>
    (forceHex (newReader (open_stream text) options) \<longleftrightarrow> forceEvaluateHexEncodedPasswords \<in> set options)"
proof -
  have in_file: "l \<in> set (split_lines text)" if "l \<in> set (first_lines text)" for l
    using that by (auto simp: first_lines_def dest: in_set_takeD)
  then have "best_separator (first_lines text) = CHR 0x00"
    unfolding best_separator_none using assms
    by (auto simp: split_count_def filter_empty_conv possibleSeparators_def)
  moreover have "CHR 0x00 \<notin> set l \<and> CHR 0x00 \<notin> set (strip_cr l)" if "l \<in> set (first_lines text)" for l
    using in_file [OF that] assms by (auto simp: strip_cr_def)
  ultimately show ?thesis by (auto simp: newReader_open Let_def)
qed

theorem auto_detection_needs_separator_witness:
  "\<not> forceMD5 (newReader (open_stream (replicate 32 (CHR ''a''))) [autoEvaluateMD5Hashes])"
proof -
  have "split_lines (replicate 32 (CHR ''a'')) = [replicate 32 (CHR ''a'')]"
    by (intro split_lines_last) simp
  then show ?thesis
    using auto_detection_needs_separator [of "replicate 32 (CHR ''a'')" "[autoEvaluateMD5Hashes]"] by simp
qed

end
