(* ===== verification/Cpp_Numbers.thy ===== *)
theory Cpp_Numbers
  imports Pwned_Prelude
begin

text \<open>
  The conversions between numbers and decimal text the sources use: \<^verbatim>\<open>std::to_string\<close> of an
  integer, and \<^verbatim>\<open>std::stoi\<close> and \<^verbatim>\<open>std::stoull\<close> with their exceptions.
\<close>

section \<open>Printing\<close>

definition decDigit :: "nat \<Rightarrow> char" where
  "decDigit d = char_of (48 + d)"

fun decimal :: "nat \<Rightarrow> string" where
  "decimal n = (if n < 10 then [decDigit n] else decimal (n div 10) @ [decDigit (n mod 10)])"

declare decimal.simps [simp del]

definition decimal_int :: "int \<Rightarrow> string" where
  "decimal_int z = (if z < 0 then CHR ''-'' # decimal (nat (- z)) else decimal (nat z))"

section \<open>Parsing\<close>

definition isDigit :: "char \<Rightarrow> bool" where
  "isDigit c \<longleftrightarrow> (let n = (of_char c :: nat) in 48 \<le> n \<and> n \<le> 57)"

definition digitValue :: "char \<Rightarrow> nat" where
  "digitValue c = of_char c - 48"

definition parseDigits :: "string \<Rightarrow> nat" where
  "parseDigits = foldl (\<lambda>v c. 10 * v + digitValue c) 0"

definition isSpace :: "char \<Rightarrow> bool" where
  "isSpace c \<longleftrightarrow> (let n = (of_char c :: nat) in n = 32 \<or> 9 \<le> n \<and> n \<le> 13)"

datatype number_error = invalid_argument | out_of_range

text \<open>\<^verbatim>\<open>strtol\<close>: white space, an optional sign and the longest run of digits; whether there was
  one, its sign and its value.\<close>

definition scan_int :: "string \<Rightarrow> (bool \<times> nat) option" where
  "scan_int s =
     (let s = dropWhile isSpace s;
          neg = (s \<noteq> [] \<and> hd s = CHR ''-'');
          s = (if s \<noteq> [] \<and> hd s \<in> {CHR ''-'', CHR ''+''} then tl s else s);
          ds = takeWhile isDigit s
      in if ds = [] then None else Some (neg, parseDigits ds))"

text \<open>\<^verbatim>\<open>std::stoi\<close> and \<^verbatim>\<open>std::stoull\<close>; the latter negates in the unsigned type.\<close>

definition stoi :: "string \<Rightarrow> number_error + int" where
  "stoi s =
     (case scan_int s of
        None \<Rightarrow> Inl invalid_argument
      | Some (neg, n) \<Rightarrow>
          (let z = (if neg then - int n else int n)
           in if - (2 ^ 31) \<le> z \<and> z < 2 ^ 31 then Inr z else Inl out_of_range))"

definition stoull :: "string \<Rightarrow> number_error + u64" where
  "stoull s =
     (case scan_int s of
        None \<Rightarrow> Inl invalid_argument
      | Some (neg, n) \<Rightarrow>
          (if n < 2 ^ 64 then Inr (if neg then - word_of_nat n else word_of_nat n) else Inl out_of_range))"

section \<open>Round trips\<close>

lemma of_char_decDigit: "d < 10 \<Longrightarrow> (of_char (decDigit d) :: nat) = 48 + d"
  by (simp add: decDigit_def)

lemma isDigit_decDigit [simp]: "d < 10 \<Longrightarrow> isDigit (decDigit d)"
  by (simp add: isDigit_def Let_def of_char_decDigit)

lemma digitValue_decDigit [simp]: "d < 10 \<Longrightarrow> digitValue (decDigit d) = d"
  by (simp add: digitValue_def of_char_decDigit)

lemma decimal_digits: "list_all isDigit (decimal n)"
  by (induction n rule: decimal.induct) (simp add: decimal.simps)

lemma decimal_not_Nil [simp]: "decimal n \<noteq> []"
  by (simp add: decimal.simps)

lemma parseDigits_snoc: "parseDigits (s @ [c]) = 10 * parseDigits s + digitValue c"
  by (simp add: parseDigits_def)

lemma parseDigits_decimal [simp]: "parseDigits (decimal n) = n"
proof (induction n rule: decimal.induct)
  case (1 n)
  show ?case
  proof (cases "n < 10")
    case True
    then show ?thesis by (simp add: decimal.simps parseDigits_def)
  next
    case False
    then have "parseDigits (decimal n) = 10 * (n div 10) + n mod 10"
      using 1 by (simp add: decimal.simps [of n] parseDigits_snoc)
    then show ?thesis by simp
  qed
qed

lemma isDigit_not:
  assumes "isDigit c"
  shows "\<not> isSpace c" "c \<noteq> CHR ''-''" "c \<noteq> CHR ''+''"
  using assms by (auto simp: isDigit_def isSpace_def Let_def)

lemma scan_int_digits:
  assumes "list_all isDigit s" and "s \<noteq> []"
  shows "scan_int s = Some (False, parseDigits s)"
proof -
  obtain c t where s: "s = c # t" using assms(2) by (cases s) auto
  have c: "isDigit c" using assms(1) s by simp
  have "dropWhile isSpace s = s" using isDigit_not(1) [OF c] s by simp
  moreover have "takeWhile isDigit s = s" using assms(1) by (simp add: takeWhile_eq_all_conv list_all_iff)
  ultimately show ?thesis using isDigit_not(2,3) [OF c] s by (simp add: scan_int_def)
qed

lemma stoi_decimal: "n < 2 ^ 31 \<Longrightarrow> stoi (decimal n) = Inr (int n)"
  by (simp add: stoi_def scan_int_digits [OF decimal_digits])

lemma stoull_decimal: "n < 2 ^ 64 \<Longrightarrow> stoull (decimal n) = Inr (word_of_nat n)"
  by (simp add: stoull_def scan_int_digits [OF decimal_digits])

end
