(* ===== verification/Console.thy ===== *)
theory Console
  imports Cpp_Numbers
begin

text \<open>
  What the command line tools print: a list of texts for \<^verbatim>\<open>std::cout\<close> and \<^verbatim>\<open>std::cerr\<close>, in
  order. The program options are parsed by boost; \<open>parsed\<close> is its result, the message of the
  \<^verbatim>\<open>po::error\<close> it throws or the options of the tool.
\<close>

datatype console = Out string | Err string

type_synonym 'o parsed = "string + 'o"

definition endl :: string where
  "endl = [CHR 0x0A]"

text \<open>The catch block around the parser, which all tools share.\<close>

definition option_error :: "string \<Rightarrow> string \<Rightarrow> console list" where
  "option_error e usage = [Err (''ERROR: '' @ e @ endl @ endl), Out (usage @ endl)]"

text \<open>The files boost's directory iterator yields, each with whether it is a regular file.\<close>

type_synonym file_tree = "(string \<times> bool) list"

text \<open>\<^verbatim>\<open>boost::algorithm::ends_with\<close>.\<close>

definition ends_with :: "string \<Rightarrow> string \<Rightarrow> bool" where
  "ends_with s e \<longleftrightarrow> length e \<le> length s \<and> drop (length s - length e) s = e"

text \<open>What the thread that reads keys does to the queue: the calls it makes, given the keys typed and
  whether the queue runs when the \<open>i\<close>th of them is read.\<close>

datatype queue_call = CallPause | CallResume | CallCancel

fun key_loop :: "char \<Rightarrow> (nat \<Rightarrow> bool) \<Rightarrow> nat \<Rightarrow> string \<Rightarrow> queue_call list" where
  "key_loop pause_key running i [] = []"
| "key_loop pause_key running i (ch # chs) =
     (if ch = pause_key then (if running i then CallPause else CallResume) # key_loop pause_key running (Suc i) chs
      else if ch = CHR ''q'' then [CallResume, CallCancel]
      else key_loop pause_key running (Suc i) chs)"

text \<open>Text files: their contents, and whether they can be opened for reading.\<close>

type_synonym texts = "string \<rightharpoonup> string \<times> bool"

text \<open>The warranty information the tools share. The quotation marks around AS IS are three bytes each in UTF-8.\<close>

definition warranty_text :: string where
  "warranty_text =
     ''Warranty info:'' @ endl @ endl @
     ''THERE IS NO WARRANTY FOR THE PROGRAM, TO THE EXTENT PERMITTED BY APPLICABLE LAW. EXCEPT WHEN OTHERWISE STATED IN WRITING THE COPYRIGHT HOLDERS AND/OR OTHER PARTIES PROVIDE THE PROGRAM '' @
     [CHR 0xE2, CHR 0x80, CHR 0x9C] @ ''AS IS'' @ [CHR 0xE2, CHR 0x80, CHR 0x9D] @
     '' WITHOUT WARRANTY OF ANY KIND, EITHER EXPRESSED OR IMPLIED, INCLUDING, BUT NOT LIMITED TO, THE IMPLIED WARRANTIES OF MERCHANTABILITY AND FITNESS FOR A PARTICULAR PURPOSE. THE ENTIRE RISK AS TO THE QUALITY AND PERFORMANCE OF THE PROGRAM IS WITH YOU. SHOULD THE PROGRAM PROVE DEFECTIVE, YOU ASSUME THE COST OF ALL NECESSARY SERVICING, REPAIR OR CORRECTION.'' @
     endl @ endl @
     ''IN NO EVENT UNLESS REQUIRED BY APPLICABLE LAW OR AGREED TO IN WRITING WILL ANY COPYRIGHT HOLDER, OR ANY OTHER PARTY WHO MODIFIES AND/OR CONVEYS THE PROGRAM AS PERMITTED ABOVE, BE LIABLE TO YOU FOR DAMAGES, INCLUDING ANY GENERAL, SPECIAL, INCIDENTAL OR CONSEQUENTIAL DAMAGES ARISING OUT OF THE USE OR INABILITY TO USE THE PROGRAM (INCLUDING BUT NOT LIMITED TO LOSS OF DATA OR DATA BEING RENDERED INACCURATE OR LOSSES SUSTAINED BY YOU OR THIRD PARTIES OR A FAILURE OF THE PROGRAM TO OPERATE WITH ANY OTHER PROGRAMS), EVEN IF SUCH HOLDER OR OTHER PARTY HAS BEEN ADVISED OF THE POSSIBILITY OF SUCH DAMAGES.'' @
     endl @ endl"

end
