(* ===== verification/Converter.thy ===== *)
theory Converter
  imports Reader Inspector Console
begin

text \<open>
  \<^verbatim>\<open>pwned-converter-cli/convertoperation.cpp\<close>: turning one user:password file into sorted
  MD5:count files, each of at most as many lines as the given memory holds.

  The file the operation reads from is text, the files it writes are bytes. \<^verbatim>\<open>isCancelled\<close> is
  set by another thread: \<open>cancelled k i\<close> is its value at the \<open>i\<close>th place the operation looks
  at it while it works on output file \<open>k\<close>. Pausing only delays the operation. Path arithmetic is
  boost's: \<open>place\<close> is \<^verbatim>\<open>(dstPath / name).string()\<close>, \<open>stem\<close> the stem of the source path.
\<close>

section \<open>The operation\<close>

type_synonym out_files = "string \<rightharpoonup> u8 list"

record convert =
  conv_input :: "char istream"
  conv_priority :: int
  conv_stem :: string
  conv_place :: "string \<Rightarrow> string"
  conv_ext :: string
  conv_maxMem :: u64
  conv_options :: "UserPasswordReaderOptions list"

definition newConvert ::
  "texts \<Rightarrow> string \<Rightarrow> string \<Rightarrow> (string \<Rightarrow> string) \<Rightarrow> string \<Rightarrow> u64 \<Rightarrow> UserPasswordReaderOptions list \<Rightarrow> fs_error + convert" where
  "newConvert fs srcFilename stem place ext maxMem options =
     (case fs srcFilename of
        None \<Rightarrow> Inl (NoSuchFile srcFilename)
      | Some (cs, readable) \<Rightarrow>
          Inr \<lparr>conv_input = (if readable then open_stream cs else failed_open),
               conv_priority = int (length cs), conv_stem = stem, conv_place = place, conv_ext = ext,
               conv_maxMem = maxMem, conv_options = options\<rparr>)"

text \<open>\<^verbatim>\<open>sizeof(Hash) + sizeof(uint32_t) + sizeof(PasswordHashAndCount) + sizeof(uintptr_t)\<close>:
  a hash is 16 bytes and a bool, aligned to 8.\<close>

definition memUsagePerEntry :: u64 where
  "memUsagePerEntry = 24 + 4 + 32 + 8"

text \<open>\<^verbatim>\<open>passwordCountSet[hash] += 1\<close> on a \<^verbatim>\<open>std::map\<close> ordered by \<^verbatim>\<open>HashLess\<close>.\<close>

fun bump :: "hash \<Rightarrow> (hash \<times> u32) list \<Rightarrow> (hash \<times> u32) list" where
  "bump h [] = [(h, 1)]"
| "bump h ((k, c) # m) =
     (if hash_lt h k then (h, 1) # (k, c) # m
      else if hash_lt k h then (k, c) # bump h m
      else (k, c + 1) # m)"

partial_function (option) fill_loop ::
  "(string \<Rightarrow> u8 list) \<Rightarrow> u64 \<Rightarrow> reader \<Rightarrow> u64 \<Rightarrow> (hash \<times> u32) list \<Rightarrow> (reader \<times> (hash \<times> u32) list) option" where
  "fill_loop md5 maxMem r memUsage passwordCountSet =
     (if \<not> reader_eof r \<and> \<not> reader_bad r \<and> memUsage < maxMem
      then let x = nextPasswordHash md5 r; hash = fst x
           in fill_loop md5 maxMem (snd x) (memUsage + memUsagePerEntry)
                (if isValid hash then bump hash passwordCountSet else passwordCountSet)
      else Some (r, passwordCountSet))"

text \<open>\<^verbatim>\<open>string_format("-%04x", n)\<close>, the output file name, and the search for one that is not
  taken yet.\<close>

definition dash_hex :: "nat \<Rightarrow> string" where
  "dash_hex n = CHR ''-'' # padLeft 4 (CHR ''0'') (hexDigits False n)"

definition output_base :: "convert \<Rightarrow> nat \<Rightarrow> string" where
  "output_base d splitFileNum = conv_place d (conv_stem d @ dash_hex splitFileNum)"

function free_name :: "out_files \<Rightarrow> string \<Rightarrow> string \<Rightarrow> string \<Rightarrow> nat \<Rightarrow> string" where
  "free_name fs base ext path n =
     (if fs path \<noteq> None \<and> n < 10000 then free_name fs base ext (base @ dash_hex n @ ext) (Suc n) else path)"
  by pat_completeness auto
termination by (relation "measure (\<lambda>(fs, base, ext, path, n). 10000 - n)") auto

definition sort_phcs :: "phc list \<Rightarrow> phc list" where
  "sort_phcs = sort_key (\<lambda>p. quad (phc_hash p))"

definition dump_all :: "phc list \<Rightarrow> u8 list" where
  "dump_all ps = concat (map phc_dump ps)"

text \<open>The loop over the output files; \<open>writable\<close> says which files can be opened for writing.\<close>

partial_function (option) execute_loop ::
  "(string \<Rightarrow> u8 list) \<Rightarrow> (string \<Rightarrow> bool) \<Rightarrow> (nat \<Rightarrow> nat \<Rightarrow> bool) \<Rightarrow> convert \<Rightarrow> reader \<Rightarrow> nat \<Rightarrow> out_files \<Rightarrow> out_files option" where
  "execute_loop md5 writable cancelled d r splitFileNum fs =
     (if reader_eof r then Some fs
      else let splitFileNum = Suc splitFileNum in
           case fill_loop md5 (conv_maxMem d) r 0 [] of
             None \<Rightarrow> None
           | Some (r, passwordCountSet) \<Rightarrow>
               if cancelled splitFileNum 0 then Some fs
               else if passwordCountSet = [] then execute_loop md5 writable cancelled d r splitFileNum fs
               else let passwordList = map (\<lambda>(h, c). phc_of h c) passwordCountSet in
                 if cancelled splitFileNum 1 then Some fs
                 else let passwordList = sort_phcs passwordList in
                   if cancelled splitFileNum 2 then Some fs
                   else let base = output_base d splitFileNum;
                            path = free_name fs base (conv_ext d) (base @ conv_ext d) splitFileNum;
                            fs = (if writable path then fs(path \<mapsto> dump_all passwordList) else fs)
                        in execute_loop md5 writable cancelled d r splitFileNum fs)"

definition convert_execute ::
  "(string \<Rightarrow> u8 list) \<Rightarrow> (string \<Rightarrow> bool) \<Rightarrow> (nat \<Rightarrow> nat \<Rightarrow> bool) \<Rightarrow> convert \<Rightarrow> out_files \<Rightarrow> out_files option" where
  "convert_execute md5 writable cancelled d fs =
     (if cancelled 0 0 then Some fs
      else execute_loop md5 writable cancelled d (newReader (conv_input d) (conv_options d)) 0 fs)"

section \<open>The tool\<close>

text \<open>\<^verbatim>\<open>main\<close> of \<^verbatim>\<open>pwned-converter-cli.cpp\<close>, from the parsed options to the queue of
  operations. \<open>tree\<close> lists what the recursive directory iteration yields, with whether it is a
  regular file; \<open>join\<close> and \<open>stem\<close> are boost's path operations. The files given with
  \<^verbatim>\<open>--input\<close> are not used.\<close>

definition converter_options :: "bool \<Rightarrow> bool \<Rightarrow> bool \<Rightarrow> bool \<Rightarrow> UserPasswordReaderOptions list" where
  "converter_options fMD5 aMD5 fHex aHex =
     (if fMD5 then [forceEvaluateMD5Hashes] else if aMD5 then [autoEvaluateMD5Hashes] else []) @
     (if fHex then [forceEvaluateHexEncodedPasswords] else if aHex then [autoEvaluateHexEncodedPasswords] else [])"

definition converter_threads :: "nat \<Rightarrow> nat" where
  "converter_threads numThreads = (if numThreads = 0 then 4 else numThreads)"

definition converter_maxMem :: "u64 \<Rightarrow> nat \<Rightarrow> u64" where
  "converter_maxMem memFreeAssumedMBytes numThreads = memFreeAssumedMBytes * 1024 * 1024 div word_of_nat numThreads"

datatype converter_exit = ConverterFailure | ConverterException fs_error | ConverterQueue "convert list"

primrec converter_queue :: "(string \<Rightarrow> fs_error + convert) \<Rightarrow> string list \<Rightarrow> fs_error + convert list" where
  "converter_queue new [] = Inr []"
| "converter_queue new (f # fs) =
     (case new f of
        Inl e \<Rightarrow> Inl e
      | Inr d \<Rightarrow> (case converter_queue new fs of Inl e \<Rightarrow> Inl e | Inr ds \<Rightarrow> Inr (d # ds)))"

definition converter_main ::
  "texts \<Rightarrow> (string \<times> bool) list \<Rightarrow> (string \<Rightarrow> string) \<Rightarrow> (string \<Rightarrow> string \<Rightarrow> string) \<Rightarrow>
   string \<Rightarrow> string \<Rightarrow> string \<Rightarrow> u64 \<Rightarrow> nat \<Rightarrow> bool \<Rightarrow> bool \<Rightarrow> bool \<Rightarrow> bool \<Rightarrow> converter_exit" where
  "converter_main texts tree stem join srcDirectory dstDirectory outputExt memFreeAssumedMBytes numThreads fMD5 aMD5 fHex aHex =
     (let numThreads = converter_threads numThreads;
          filenames = (if srcDirectory \<noteq> [] then map fst (filter (\<lambda>(f, regular). regular \<and> ends_with f ''.txt'') tree) else [])
      in if filenames = [] then ConverterFailure
         else if dstDirectory = [] then ConverterFailure
         else let options = converter_options fMD5 aMD5 fHex aHex;
                  maxMem = converter_maxMem memFreeAssumedMBytes numThreads
              in case converter_queue (\<lambda>f. newConvert texts f (stem f) (join dstDirectory) outputExt maxMem options) filenames of
                   Inl e \<Rightarrow> ConverterException e
                 | Inr ds \<Rightarrow> ConverterQueue ds)"

section \<open>Counting hashes\<close>

text \<open>What a file should hold for a list of hashes: every one once, in order, with the number of its
  occurrences (modulo the width of the count).\<close>

definition tally :: "quad list \<Rightarrow> entry list" where
  "tally qs = map (\<lambda>q. (q, word_of_nat (count_list qs q))) (sorted_list_of_set (set qs))"

definition hash_entry :: "hash \<times> u32 \<Rightarrow> entry" where
  "hash_entry x = (quad (fst x), snd x)"

fun bump_entry :: "quad \<Rightarrow> entry list \<Rightarrow> entry list" where
  "bump_entry q [] = [(q, 1)]"
| "bump_entry q ((k, c) # m) =
     (if q < k then (q, 1) # (k, c) # m else if k < q then (k, c) # bump_entry q m else (k, c + 1) # m)"

lemma bump_entry: "map hash_entry (bump h m) = bump_entry (quad h) (map hash_entry m)"
  by (induction h m rule: bump.induct) (auto simp: hash_entry_def)

lemma bump_entry_sorted:
  "sorted_wrt (<) L \<Longrightarrow>
   bump_entry q (map (\<lambda>x. (x, f x)) L) =
     map (\<lambda>x. (x, if x = q then if q \<in> set L then f q + 1 else 1 else f x)) (if q \<in> set L then L else insort q L)"
proof (induction L)
  case (Cons k L)
  consider "q < k" | "k < q" | "k = q" by fastforce
  then show ?case
  proof cases
    case 1
    then have "q \<notin> set (k # L)" using Cons.prems by auto
    with 1 show ?thesis by (auto simp: order_less_imp_le)
  next
    case 2
    then show ?thesis using Cons by auto
  next
    case 3
    then have "q \<notin> set L" using Cons.prems by auto
    with 3 show ?thesis by auto
  qed
qed simp

lemma tally_snoc: "tally (qs @ [q]) = bump_entry q (tally qs)"
proof -
  let ?L = "sorted_list_of_set (set qs)"
  have "sorted_wrt (<) ?L" by (simp add: strict_sorted_iff)
  from bump_entry_sorted [OF this, of q "\<lambda>q. word_of_nat (count_list qs q)"]
  moreover have "sorted_list_of_set (set (qs @ [q])) = (if q \<in> set ?L then ?L else insort q ?L)"
  proof (cases "q \<in> set qs")
    case True
    then have "set (qs @ [q]) = set qs" by auto
    with True show ?thesis by (simp only:) simp
  qed simp
  moreover have "word_of_nat (count_list (qs @ [q]) x) =
      (if x = q then if q \<in> set ?L then word_of_nat (count_list qs q) + 1 else 1
       else word_of_nat (count_list qs x) :: u32)" for x
    by (auto simp: count_list_0_iff add.commute)
  ultimately show ?thesis by (simp only: tally_def)
qed

lemma fold_bump: "map hash_entry (fold bump hs []) = tally (map quad hs)"
proof (induction hs rule: rev_induct)
  case (snoc h hs)
  then show ?case by (simp add: bump_entry tally_snoc)
qed (simp add: tally_def)

lemma sorted_tally: "sorted_wrt (<) (map fst (tally qs))"
  by (simp add: tally_def o_def strict_sorted_iff)

section \<open>Filling one output file\<close>

text \<open>The number of lines that fit into the memory.\<close>

definition lines_per_file :: "u64 \<Rightarrow> nat" where
  "lines_per_file maxMem = (unat maxMem + 67) div 68"

lemma fits:
  assumes "unat maxMem \<le> 2 ^ 64 - 68" and "j \<le> lines_per_file maxMem"
  shows "word_of_nat (68 * j) < maxMem \<longleftrightarrow> j < lines_per_file maxMem"
proof -
  have d: "k \<le> (u + 67) div 68 \<longleftrightarrow> 68 * k \<le> u + 67" for k u :: nat
    by (simp add: less_eq_div_iff_mult_less_eq mult.commute)
  have "68 * j < 2 ^ 64" using assms unfolding lines_per_file_def d by simp
  then have "unat (word_of_nat (68 * j) :: u64) = 68 * j"
    by (simp only: unsigned_of_nat) (simp add: take_bit_nat_eq_self)
  moreover have "68 * j < unat maxMem \<longleftrightarrow> j < lines_per_file maxMem"
    unfolding lines_per_file_def Suc_le_eq [symmetric] d by simp
  ultimately show ?thesis by (simp add: word_less_nat_alt)
qed

definition line_hashes :: "(string \<Rightarrow> u8 list) \<Rightarrow> reader \<Rightarrow> string list \<Rightarrow> hash list" where
  "line_hashes md5 r ls = filter isValid (map (line_hash md5 r) ls)"

lemma fill_loop_step:
  assumes "\<not> reader_eof r" and "\<not> reader_bad r" and "mem < maxMem" and "nextPasswordHash md5 r = (h, r')"
  shows "fill_loop md5 maxMem r mem m =
    fill_loop md5 maxMem r' (mem + memUsagePerEntry) (if isValid h then bump h m else m)"
  using assms by (subst fill_loop.simps) (simp add: Let_def)

lemma fill_loop_done:
  assumes "reader_eof r \<or> reader_bad r \<or> \<not> mem < maxMem"
  shows "fill_loop md5 maxMem r mem m = Some (r, m)"
  using assms by (subst fill_loop.simps) auto

lemma fill_loop_holds:
  assumes "unat maxMem \<le> 2 ^ 64 - 68" and "holds (input r) ls" and "j \<le> lines_per_file maxMem"
  shows "\<exists>r'. fill_loop md5 maxMem r (word_of_nat (68 * j)) m =
      Some (r', fold bump (line_hashes md5 r (take (lines_per_file maxMem - j) ls)) m) \<and>
    line_hash md5 r' = line_hash md5 r \<and>
    (if length ls \<le> lines_per_file maxMem - j then reader_eof r' else holds (input r') (drop (lines_per_file maxMem - j) ls))"
  using assms(2,3)
proof (induction ls arbitrary: r j m)
  case Nil
  then show ?case by (simp add: holds_def)
next
  case (Cons l ls)
  let ?k = "lines_per_file maxMem"
  show ?case
  proof (cases "j < ?k")
    case False
    then have "\<not> word_of_nat (68 * j) < maxMem" "j = ?k" using fits [OF assms(1) Cons.prems(2)] Cons.prems(2) by auto
    then show ?thesis using Cons.prems(1) by (simp add: fill_loop_done line_hashes_def)
  next
    case True
    have g: "\<not> reader_eof r" "\<not> reader_bad r"
      using Cons.prems(1) by (simp_all add: reader_eof_def reader_bad_def holds_def good_def)
    obtain r1 where r1: "nextPasswordHash md5 r = (line_hash md5 r l, r1)" "line_hash md5 r1 = line_hash md5 r"
        "if ls = [] then eofbit (input r1) else holds (input r1) ls"
      using nextPasswordHash_holds [OF Cons.prems(1), of md5] by blast
    let ?m = "if isValid (line_hash md5 r l) then bump (line_hash md5 r l) m else m"
    have e: "word_of_nat (68 * j) + memUsagePerEntry = (word_of_nat (68 * Suc j) :: u64)"
      by (simp add: memUsagePerEntry_def)
    have "word_of_nat (68 * j) < maxMem" using True fits [OF assms(1) Cons.prems(2)] by blast
    note step = fill_loop_step [OF g this r1(1), of m, unfolded e]
    obtain k' where k': "?k - j = Suc k'" "?k - Suc j = k'" using True by (metis Suc_diff_Suc)
    have lh: "line_hashes md5 r1 = line_hashes md5 r" using r1(2) by (intro ext) (simp add: line_hashes_def)
    show ?thesis
    proof (cases "ls = []")
      case True
      then have "fill_loop md5 maxMem r1 (word_of_nat (68 * Suc j)) ?m = Some (r1, ?m)"
        using r1(3) by (intro fill_loop_done) (simp add: reader_eof_def)
      then show ?thesis using step r1 True k' by (simp add: line_hashes_def reader_eof_def)
    next
      case False
      then obtain r' where "fill_loop md5 maxMem r1 (word_of_nat (68 * Suc j)) ?m =
          Some (r', fold bump (line_hashes md5 r1 (take k' ls)) ?m)" "line_hash md5 r' = line_hash md5 r1"
          "if length ls \<le> k' then reader_eof r' else holds (input r') (drop k' ls)"
        using Cons.IH [of r1 "Suc j" ?m] r1(3) \<open>j < ?k\<close> k' by auto
      then show ?thesis using step r1(2) lh k' by (simp add: line_hashes_def)
    qed
  qed
qed

lemma fill_loop_start:
  assumes "unat maxMem \<le> 2 ^ 64 - 68" and "holds (input r) ls"
  shows "\<exists>r'. fill_loop md5 maxMem r 0 m = Some (r', fold bump (line_hashes md5 r (take (lines_per_file maxMem) ls)) m) \<and>
    line_hash md5 r' = line_hash md5 r \<and>
    (if length ls \<le> lines_per_file maxMem then reader_eof r' else holds (input r') (drop (lines_per_file maxMem) ls))"
  using fill_loop_holds [OF assms le0, of md5 m] unfolding diff_zero by (simp only: mult_0_right semiring_1_class.of_nat_0)

section \<open>Output names\<close>

definition hex_value :: "string \<Rightarrow> nat" where
  "hex_value = foldl (\<lambda>v c. 16 * v + nat (decodeHex c)) 0"

lemma hex_value_hexDigits: "hex_value (hexDigits u n) = n"
proof (induction n rule: less_induct)
  case (less n)
  show ?case
  proof (cases "n < 16")
    case True
    then show ?thesis by (simp add: hexDigits.simps hex_value_def)
  next
    case False
    then have "n div 16 < n" by simp
    from less.IH [OF this] have "hex_value (hexDigits u n) = 16 * (n div 16) + n mod 16"
      using False by (simp add: hexDigits.simps [of u n] hex_value_def)
    then show ?thesis by simp
  qed
qed

lemma hex_value_zeros: "hex_value (replicate k (CHR ''0'') @ s) = hex_value s"
proof -
  have "decodeHex (CHR ''0'') = 0" by (simp add: decodeHex_def)
  then have "foldl (\<lambda>v c. 16 * v + nat (decodeHex c)) 0 (replicate k (CHR ''0'')) = 0"
    by (induction k) simp_all
  then show ?thesis by (simp add: hex_value_def)
qed

lemma dash_hex_inj: "dash_hex m = dash_hex n \<Longrightarrow> m = n"
proof -
  assume "dash_hex m = dash_hex n"
  then have "hex_value (padLeft 4 (CHR ''0'') (hexDigits False m)) = hex_value (padLeft 4 (CHR ''0'') (hexDigits False n))"
    by (simp add: dash_hex_def)
  then show "m = n" by (simp only: padLeft_def hex_value_zeros hex_value_hexDigits)
qed

definition out_name :: "convert \<Rightarrow> nat \<Rightarrow> string" where
  "out_name d n = output_base d n @ conv_ext d"

lemma out_name_inj: "inj (conv_place d) \<Longrightarrow> inj (out_name d)"
  by (auto simp: inj_def out_name_def output_base_def dest: dash_hex_inj)

lemma free_name_free: "fs path = None \<Longrightarrow> free_name fs base ext path n = path"
  by (subst free_name.simps) simp

section \<open>The output files\<close>

fun chunks :: "nat \<Rightarrow> 'a list \<Rightarrow> 'a list list" where
  "chunks k xs = (if xs = [] \<or> k = 0 then [] else take k xs # chunks k (drop k xs))"

declare chunks.simps [simp del]

lemma concat_chunks: "0 < k \<Longrightarrow> concat (chunks k xs) = xs"
  by (induction k xs rule: chunks.induct) (subst chunks.simps, auto)

lemma chunks_bounds: "c \<in> set (chunks k xs) \<Longrightarrow> c \<noteq> [] \<and> length c \<le> k"
proof (induction k xs rule: chunks.induct)
  case (1 k xs)
  then show ?case by (subst (asm) (2) chunks.simps) (auto split: if_splits)
qed

primrec write_chunks :: "(nat \<Rightarrow> string) \<Rightarrow> nat \<Rightarrow> hash list list \<Rightarrow> out_files \<Rightarrow> out_files" where
  "write_chunks name n [] fs = fs"
| "write_chunks name n (c # cs) fs =
     write_chunks name (Suc n) cs (if c = [] then fs else fs(name (Suc n) \<mapsto> file_of (tally (map quad c))))"

lemma write_chunks_other: "x \<notin> name ` {n<..n + length cs} \<Longrightarrow> write_chunks name n cs fs x = fs x"
proof (induction cs arbitrary: n fs)
  case (Cons c cs)
  then have "x \<notin> name ` {Suc n<..Suc n + length cs}" "x \<noteq> name (Suc n)" by auto
  then show ?case using Cons.IH [of "Suc n"] by simp
qed simp

lemma write_chunks_name:
  assumes "inj name" and "i < length cs"
  shows "write_chunks name n cs fs (name (Suc (n + i))) =
    (if cs ! i = [] then fs (name (Suc (n + i))) else Some (file_of (tally (map quad (cs ! i)))))"
  using assms(2)
proof (induction cs arbitrary: n i fs)
  case (Cons c cs)
  show ?case
  proof (cases i)
    case 0
    have "name (Suc n) \<notin> name ` {Suc n<..Suc n + length cs}" by (auto simp: inj_eq [OF assms(1)])
    then show ?thesis using 0 by (simp add: write_chunks_other)
  next
    case (Suc j)
    have "name (Suc (Suc (n + j))) \<noteq> name (Suc n)" by (simp add: inj_eq [OF assms(1)])
    then show ?thesis using Cons.IH [of j "Suc n"] Cons.prems Suc by simp
  qed
qed simp

lemma tally_Nil_iff: "tally qs = [] \<longleftrightarrow> qs = []"
  by (simp add: tally_def)

lemma dump_counted: "dump_all (sort_phcs (map (\<lambda>(h, c). phc_of h c) (fold bump hs []))) = file_of (tally (map quad hs))"
proof -
  let ?m = "fold bump hs []"
  have "map (\<lambda>p. quad (phc_hash p)) (map (\<lambda>(h, c). phc_of h c) ?m) = map fst (map hash_entry ?m)"
    by (auto simp: hash_entry_def phc_of_def)
  also have "\<dots> = map fst (tally (map quad hs))" by (simp only: fold_bump)
  finally have "sorted (map (\<lambda>p. quad (phc_hash p)) (map (\<lambda>(h, c). phc_of h c) ?m))"
    using sorted_tally [of "map quad hs"] by (simp add: strict_sorted_iff)
  then have "sort_phcs (map (\<lambda>(h, c). phc_of h c) ?m) = map (\<lambda>(h, c). phc_of h c) ?m"
    by (simp add: sort_phcs_def sorted_sort_id sort_key_id_if_sorted)
  moreover have "dump_all (map (\<lambda>(h, c). phc_of h c) ?m) = file_of (map hash_entry ?m)"
    by (auto simp: dump_all_def file_of_def phc_dump_entry hash_entry_def phc_entry_def phc_of_def intro!: arg_cong [of _ _ concat])
  ultimately show ?thesis by (simp add: fold_bump)
qed

lemma execute_loop_skip:
  assumes "\<not> reader_eof r" and "fill_loop md5 (conv_maxMem d) r 0 [] = Some (r', m)" and "\<not> cancelled (Suc n) 0"
    and "m = []"
  shows "execute_loop md5 writable cancelled d r n fs = execute_loop md5 writable cancelled d r' (Suc n) fs"
  using assms by (subst execute_loop.simps) (simp only: Let_def if_False if_True option.case prod.case simp_thms)

lemma execute_loop_write:
  assumes "\<not> reader_eof r" and "fill_loop md5 (conv_maxMem d) r 0 [] = Some (r', m)"
    and "\<not> cancelled (Suc n) 0" and "\<not> cancelled (Suc n) 1" and "\<not> cancelled (Suc n) 2" and "m \<noteq> []"
    and "free_name fs (output_base d (Suc n)) (conv_ext d) (output_base d (Suc n) @ conv_ext d) (Suc n) = path"
  shows "execute_loop md5 writable cancelled d r n fs = execute_loop md5 writable cancelled d r' (Suc n)
    (if writable path then fs(path \<mapsto> dump_all (sort_phcs (map (\<lambda>(h, c). phc_of h c) m))) else fs)"
  using assms by (subst execute_loop.simps) (simp only: Let_def if_False if_True option.case prod.case simp_thms)

lemma execute_loop_end: "reader_eof r \<Longrightarrow> execute_loop md5 writable cancelled d r n fs = Some fs"
  by (subst execute_loop.simps) simp

lemma execute_loop_holds:
  assumes "unat (conv_maxMem d) \<le> 2 ^ 64 - 68" and "conv_maxMem d \<noteq> 0"
    and "\<And>k i. \<not> cancelled k i" and "\<And>p. writable p" and "inj (out_name d)"
    and "holds (input r) ls" and "\<forall>m > n. fs (out_name d m) = None"
  shows "execute_loop md5 writable cancelled d r n fs =
    Some (write_chunks (out_name d) n (map (line_hashes md5 r) (chunks (lines_per_file (conv_maxMem d)) ls)) fs)"
  using assms(6-7)
proof (induction "length ls" arbitrary: r ls n fs rule: less_induct)
  case less
  let ?k = "lines_per_file (conv_maxMem d)"
  have k: "0 < ?k" using assms(2) by (simp add: lines_per_file_def unat_gt_0 [symmetric])
  have e: "\<not> reader_eof r" using less.prems(1) by (simp add: reader_eof_def holds_def good_def)
  have ls: "ls \<noteq> []" using less.prems(1) by (auto simp: holds_def)
  let ?hs = "line_hashes md5 r (take ?k ls)"
  obtain r' where f: "fill_loop md5 (conv_maxMem d) r 0 [] = Some (r', fold bump ?hs [])"
    and lh: "line_hash md5 r' = line_hash md5 r"
    and h: "if length ls \<le> ?k then reader_eof r' else holds (input r') (drop ?k ls)"
    using fill_loop_start [OF assms(1) less.prems(1), of md5 "[]"] by blast
  have empty: "fold bump ?hs [] = [] \<longleftrightarrow> ?hs = []"
    using fold_bump [of ?hs] tally_Nil_iff [of "map quad ?hs"] by auto
  let ?fs = "if ?hs = [] then fs else fs(out_name d (Suc n) \<mapsto> file_of (tally (map quad ?hs)))"
  have free: "free_name fs (output_base d (Suc n)) (conv_ext d) (output_base d (Suc n) @ conv_ext d) (Suc n) = out_name d (Suc n)"
    using less.prems(2) by (simp add: free_name_free out_name_def)
  have step: "execute_loop md5 writable cancelled d r n fs = execute_loop md5 writable cancelled d r' (Suc n) ?fs"
  proof (cases "?hs = []")
    case True
    then show ?thesis using execute_loop_skip [OF e f assms(3)] empty by simp
  next
    case False
    then show ?thesis
      using execute_loop_write [OF e f assms(3,3,3) _ free, of writable] empty assms(4) unfolding dump_counted by simp
  qed
  have rest: "execute_loop md5 writable cancelled d r' (Suc n) ?fs =
      Some (write_chunks (out_name d) (Suc n) (map (line_hashes md5 r) (chunks ?k (drop ?k ls))) ?fs)"
  proof (cases "length ls \<le> ?k")
    case True
    then have "execute_loop md5 writable cancelled d r' (Suc n) ?fs = Some ?fs"
      using h by (intro execute_loop_end) simp
    then show ?thesis using True by (simp add: chunks.simps)
  next
    case False
    have "\<forall>m > Suc n. ?fs (out_name d m) = None"
      using less.prems(2) assms(5) by (auto simp: inj_def)
    then have "execute_loop md5 writable cancelled d r' (Suc n) ?fs =
        Some (write_chunks (out_name d) (Suc n) (map (line_hashes md5 r') (chunks ?k (drop ?k ls))) ?fs)"
      using False h k by (intro less.hyps) auto
    moreover have "line_hashes md5 r' = line_hashes md5 r" using lh by (intro ext) (simp add: line_hashes_def)
    ultimately show ?thesis by simp
  qed
  show ?case using step rest ls k by (simp add: chunks.simps [of ?k ls])
qed

section \<open>Operations that do not end\<close>

text \<open>A reader that makes no progress: its stream failed before the end of the file, so that no call
  delivers a password.\<close>

definition stuck :: "reader \<Rightarrow> bool" where
  "stuck r \<longleftrightarrow> failbit (input r) \<and> \<not> eofbit (input r) \<and> \<not> badbit (input r) \<and> currentLine r = []"

lemma stuck_next:
  assumes "stuck r"
  shows "\<exists>r'. nextPasswordHash md5 r = (emptyHash, r') \<and> stuck r'"
  using assms by (simp add: stuck_def nextPasswordHash_def nextPassword_def getline_def good_def)

lemma fill_loop_stuck:
  assumes "stuck r" and "fill_loop md5 maxMem r mem m = Some (r', m')"
  shows "stuck r' \<and> m' = m"
proof -
  have "stuck r \<longrightarrow> stuck (fst res) \<and> snd res = m" if "fill_loop md5 maxMem r mem m = Some res" for res
  proof (rule fill_loop.raw_induct [where P = "\<lambda>md5 maxMem r mem m res. stuck r \<longrightarrow> stuck (fst res) \<and> snd res = m", OF _ that])
    fix f md5 maxMem r memUsage m res
    assume IH: "\<And>md5 maxMem r mem m res. f md5 maxMem r mem m = Some res \<Longrightarrow> stuck r \<longrightarrow> stuck (fst res) \<and> snd res = m"
      and eq: "(if \<not> reader_eof r \<and> \<not> reader_bad r \<and> memUsage < maxMem
      then let x = nextPasswordHash md5 r; hash = fst x
           in f md5 maxMem (snd x) (memUsage + memUsagePerEntry)
                (if isValid hash then bump hash m else m)
      else Some (r, m)) = Some res"
    show "stuck r \<longrightarrow> stuck (fst res) \<and> snd res = m"
    proof
      assume "stuck r"
      from stuck_next [OF this, of md5] obtain r1 where r1: "nextPasswordHash md5 r = (emptyHash, r1)" "stuck r1" by blast
      then show "stuck (fst res) \<and> snd res = m"
        using eq IH [of md5 maxMem r1 "memUsage + memUsagePerEntry" m res] \<open>stuck r\<close>
        by (auto simp: Let_def emptyHash_def split: if_splits)
    qed
  qed
  with assms show ?thesis by force
qed

lemma execute_loop_stuck:
  assumes "\<And>k i. \<not> cancelled k i" and "stuck r \<or> conv_maxMem d = 0 \<and> \<not> reader_eof r"
  shows "execute_loop md5 writable cancelled d r n fs = None"
proof (rule ccontr)
  let ?P = "\<lambda>md5 writable cancelled d r n fs res. (\<forall>k i. \<not> cancelled k i) \<longrightarrow> \<not> (stuck r \<or> conv_maxMem d = 0 \<and> \<not> reader_eof r)"
  assume "execute_loop md5 writable cancelled d r n fs \<noteq> None"
  then obtain res where "execute_loop md5 writable cancelled d r n fs = Some res" by blast
  then have "?P md5 writable cancelled d r n fs res"
  proof (rule execute_loop.raw_induct [where P = ?P, rotated], intro impI notI)
    fix f md5 writable cancelled d r splitFileNum fs res
    assume IH: "\<And>md5 writable cancelled d r n fs res. f md5 writable cancelled d r n fs = Some res \<Longrightarrow> ?P md5 writable cancelled d r n fs res"
      and eq: "(if reader_eof r then Some fs
      else let splitFileNum = Suc splitFileNum in
           case fill_loop md5 (conv_maxMem d) r 0 [] of
             None \<Rightarrow> None
           | Some (r, passwordCountSet) \<Rightarrow>
               if cancelled splitFileNum 0 then Some fs
               else if passwordCountSet = [] then f md5 writable cancelled d r splitFileNum fs
               else let passwordList = map (\<lambda>(h, c). phc_of h c) passwordCountSet in
                 if cancelled splitFileNum 1 then Some fs
                 else let passwordList = sort_phcs passwordList in
                   if cancelled splitFileNum 2 then Some fs
                   else let base = output_base d splitFileNum;
                            path = free_name fs base (conv_ext d) (base @ conv_ext d) splitFileNum;
                            fs = (if writable path then fs(path \<mapsto> dump_all passwordList) else fs)
                        in f md5 writable cancelled d r splitFileNum fs) = Some res"
      and c: "\<forall>k i. \<not> cancelled k i" and idle: "stuck r \<or> conv_maxMem d = 0 \<and> \<not> reader_eof r"
    have e: "\<not> reader_eof r" using idle by (auto simp: stuck_def reader_eof_def)
    then obtain r' m' where fl: "fill_loop md5 (conv_maxMem d) r 0 [] = Some (r', m')"
      using eq by (auto simp: Let_def split: option.splits)
    have "m' = []" and i': "stuck r' \<or> conv_maxMem d = 0 \<and> \<not> reader_eof r'"
    proof (atomize (full), cases "stuck r")
      case True
      with fill_loop_stuck [OF True fl] show "m' = [] \<and> (stuck r' \<or> conv_maxMem d = 0 \<and> \<not> reader_eof r')" by simp
    next
      case False
      with idle fl show "m' = [] \<and> (stuck r' \<or> conv_maxMem d = 0 \<and> \<not> reader_eof r')"
        by (simp add: fill_loop_done)
    qed
    then have "f md5 writable cancelled d r' (Suc splitFileNum) fs = Some res"
      using eq e fl c by (simp add: Let_def)
    from IH [OF this] c i' show False by blast
  qed
  with assms show False by blast
qed

lemma opened_getline [simp]: "opened (snd (getline s line)) = opened s"
  by (simp add: getline_def Let_def)

lemma opened_loops [simp]:
  "opened (snd (guess_loop n line m s)) = opened s"
  "opened (snd (md5_loop n sep line s)) = opened s"
  "opened (snd (hex_loop n sep line s)) = opened s"
  by (induction n arbitrary: line m s) (simp_all add: Let_def case_prod_beta)

lemma rewind_closed:
  assumes "\<not> opened s"
  shows "seekg 0 (clear_bits s) = s\<lparr>eofbit := False, failbit := True, badbit := False\<rparr>"
  using assms by (simp add: seekg_def clear_bits_def Let_def)

lemma newReader_failed: "stuck (newReader failed_open options)"
proof -
  have md5: "stuck (snd (checkForMD5Hashes r))" if "\<not> opened (input r)" "currentLine r = []" for r
    using that by (simp add: checkForMD5Hashes_def case_prod_beta Let_def rewind_closed stuck_def)
  have hex: "\<not> opened (input (snd (checkForHexEncodedPasswords r))) \<and> currentLine (snd (checkForHexEncodedPasswords r)) = []"
    if "\<not> opened (input r)" "currentLine r = []" for r
    using that by (simp add: checkForHexEncodedPasswords_def case_prod_beta Let_def rewind_closed)
  have guess: "\<not> opened (input (snd (guessSeparator r))) \<and> currentLine (snd (guessSeparator r)) = []"
    if "\<not> opened (input r)" "currentLine r = []" for r
    using that by (simp add: guessSeparator_def case_prod_beta Let_def rewind_closed)
  show ?thesis
    unfolding newReader_def evaluateContents_def Let_def
    by (intro md5 conjunct1 [OF hex] conjunct2 [OF hex] conjunct1 [OF guess] conjunct2 [OF guess])
      (simp_all add: failed_open_def)
qed

text \<open>What an execution writes.\<close>

lemma convert_parts:
  assumes "texts src = Some (cs, True)"
    and "newConvert texts src stem place ext maxMem options = Inr d"
    and "maxMem \<noteq> 0" and "unat maxMem \<le> 2 ^ 64 - 68"
    and "\<forall>k i. \<not> cancelled k i" and "\<forall>p. writable p" and "inj place"
    and "\<forall>n. fs (place (stem @ dash_hex n) @ ext) = None"
  shows "\<exists>parts fs'. convert_execute md5 writable cancelled d fs = Some fs' \<and>
    concat parts = split_lines cs \<and> (\<forall>part \<in> set parts. 0 < length part \<and> length part \<le> (unat maxMem + 67) div 68) \<and>
    (\<forall>i < length parts. fs' (place (stem @ dash_hex (Suc i)) @ ext) =
       (let hs = filter isValid (map (line_hash md5 (newReader (open_stream cs) options)) (parts ! i))
        in if hs = [] then None else Some (file_of (tally (map quad hs))))) \<and>
    (\<forall>x. (\<forall>i < length parts. x \<noteq> place (stem @ dash_hex (Suc i)) @ ext) \<longrightarrow> fs' x = fs x)"
proof -
  let ?r = "newReader (open_stream cs) options"
  let ?hs = "line_hashes md5 ?r"
  have d: "conv_input d = open_stream cs" "conv_options d = options" "conv_maxMem d = maxMem"
    "conv_place d = place" "conv_stem d = stem" "conv_ext d = ext"
    using assms(1,2) by (auto simp: newConvert_def)
  have name: "out_name d n = place (stem @ dash_hex n) @ ext" for n by (simp add: out_name_def output_base_def d)
  have inj: "inj (out_name d)" using out_name_inj [of d] assms(7) d by simp
  define parts where "parts = chunks (lines_per_file maxMem) (split_lines cs)"
  let ?fs' = "write_chunks (out_name d) 0 (map ?hs parts) fs"
  have k: "0 < lines_per_file maxMem" using assms(3) by (simp add: lines_per_file_def unat_gt_0 [symmetric])
  have "execute_loop md5 writable cancelled d ?r 0 fs = Some ?fs'"
    using execute_loop_holds [of d cancelled writable ?r "split_lines cs" 0 fs md5] assms(3-8) inj
    by (simp add: d name newReader_holds parts_def)
  then have run: "convert_execute md5 writable cancelled d fs = Some ?fs'"
    using assms(5) by (simp add: convert_execute_def d)
  have all: "concat parts = split_lines cs" using k by (simp add: parts_def concat_chunks)
  have size: "\<forall>part \<in> set parts. 0 < length part \<and> length part \<le> (unat maxMem + 67) div 68"
    using chunks_bounds by (auto simp: parts_def lines_per_file_def)
  have each: "\<forall>i < length parts. ?fs' (place (stem @ dash_hex (Suc i)) @ ext) =
       (let hs = filter isValid (map (line_hash md5 ?r) (parts ! i))
        in if hs = [] then None else Some (file_of (tally (map quad hs))))"
    using write_chunks_name [OF inj, of _ "map ?hs parts" 0 fs] assms(8) by (simp add: name line_hashes_def Let_def)
  have other: "\<forall>x. (\<forall>i < length parts. x \<noteq> place (stem @ dash_hex (Suc i)) @ ext) \<longrightarrow> ?fs' x = fs x"
  proof (intro allI impI)
    fix x
    assume x: "\<forall>i < length parts. x \<noteq> place (stem @ dash_hex (Suc i)) @ ext"
    have "x \<noteq> out_name d n" if "0 < n" "n \<le> length parts" for n
      using x that by (cases n) (auto simp: name)
    then have "x \<notin> out_name d ` {0<..0 + length (map ?hs parts)}"
      unfolding image_iff length_map add_0 greaterThanAtMost_iff Bex_def by blast
    then show "?fs' x = fs x" by (rule write_chunks_other)
  qed
  show ?thesis using run all size each other by blast
qed

section \<open>Properties\<close>

text \<open>
  C11: Converting a readable file returns. The lines of the file are split, in order, into parts of as
  many lines as the memory holds, and output file \<open>i\<close> holds every hash of part \<open>i\<close> once, in
  ascending order, with the number of the part's lines that have it. A part without any password gives
  no file; no other file is touched.
\<close>

theorem convert_writes_tallies:
  assumes "texts src = Some (cs, True)"
    and "newConvert texts src stem place ext maxMem options = Inr d"
    and "maxMem \<noteq> 0" and "unat maxMem \<le> 2 ^ 64 - 68"
    and "\<forall>k i. \<not> cancelled k i" and "\<forall>p. writable p" and "inj place"
    and "\<forall>n. fs (place (stem @ dash_hex n) @ ext) = None"
  shows "\<exists>parts fs'. convert_execute md5 writable cancelled d fs = Some fs' \<and>
    concat parts = split_lines cs \<and> (\<forall>part \<in> set parts. 0 < length part \<and> length part \<le> (unat maxMem + 67) div 68) \<and>
    (\<forall>i < length parts. fs' (place (stem @ dash_hex (Suc i)) @ ext) =
       (let hs = filter isValid (map (line_hash md5 (newReader (open_stream cs) options)) (parts ! i))
        in if hs = [] then None else Some (file_of (tally (map quad hs))))) \<and>
    (\<forall>x. (\<forall>i < length parts. x \<noteq> place (stem @ dash_hex (Suc i)) @ ext) \<longrightarrow> fs' x = fs x)"
  using assms by (rule convert_parts)

theorem convert_writes_tallies_witness:
  "\<exists>d fs'. newConvert [''in'' \<mapsto> (''ab'', True)] ''in'' ''in'' (\<lambda>x. ''out/'' @ x) ''.md5'' 100 [] = Inr d \<and>
     convert_execute toy_md5 (\<lambda>_. True) (\<lambda>_ _. False) d Map.empty = Some fs' \<and>
     fs' ''out/in-0001.md5'' = Some (file_of [(Quad 0 2, 1)])"
proof -
  let ?texts = "[''in'' \<mapsto> (''ab'', True)]" and ?place = "\<lambda>x. ''out/'' @ x"
  obtain d where d: "newConvert ?texts ''in'' ''in'' ?place ''.md5'' 100 [] = Inr d" by (simp add: newConvert_def)
  let ?hs = "\<lambda>part. filter isValid (map (line_hash toy_md5 (newReader (open_stream ''ab'') [])) part)"
  obtain parts fs' where c: "convert_execute toy_md5 (\<lambda>_. True) (\<lambda>_ _. False) d Map.empty = Some fs'"
    and parts: "concat parts = split_lines ''ab''" "\<forall>part \<in> set parts. 0 < length part"
    and f: "\<forall>i < length parts. fs' (?place (''in'' @ dash_hex (Suc i)) @ ''.md5'') =
       (let hs = ?hs (parts ! i) in if hs = [] then None else Some (file_of (tally (map quad hs))))"
    using convert_writes_tallies [where texts = ?texts and src = "''in''" and cs = "''ab''" and stem = "''in''" and place = ?place
        and ext = "''.md5''" and maxMem = 100 and options = "[]" and d = d and cancelled = "\<lambda>_ _. False"
        and writable = "\<lambda>_. True" and fs = Map.empty and ?md5.0 = toy_md5] d
    by (auto simp: inj_def)
  from parts have p: "parts = [[''ab'']]"
    by (cases parts; cases "tl parts"; cases "hd parts") (auto simp: Cons_eq_append_conv)
  have lh: "line_hash toy_md5 (newReader (open_stream ''ab'') []) ''ab'' = hash_of_string toy_md5 ''ab''"
    by code_simp
  have q: "quad (hash_of_string toy_md5 ''ab'') = Quad 0 2" "isValid (hash_of_string toy_md5 ''ab'')" by code_simp+
  have n: "dash_hex (Suc 0) = ''-0001''" by code_simp
  have "fs' ''out/in-0001.md5'' = Some (file_of [(Quad 0 2, 1)])"
    using f by (simp add: p lh q n tally_def)
  with c d show ?thesis by blast
qed

text \<open>
  C12: Converting a file that cannot be opened, or any file with no memory (more threads than
  bytes), never returns.
\<close>

theorem convert_never_returns:
  assumes "newConvert texts src stem place ext maxMem options = Inr d"
    and "texts src = Some (cs, False) \<or> maxMem = 0"
    and "\<forall>k i. \<not> cancelled k i"
  shows "convert_execute md5 writable cancelled d fs = None"
proof -
  let ?r = "newReader (conv_input d) (conv_options d)"
  have "stuck ?r \<or> conv_maxMem d = 0 \<and> \<not> reader_eof ?r"
  proof (cases "conv_input d = failed_open")
    case True
    then show ?thesis using newReader_failed by simp
  next
    case False
    with assms(1) obtain cs where "conv_input d = open_stream cs" "conv_maxMem d = maxMem" "texts src = Some (cs, True)"
      by (auto simp: newConvert_def split: option.splits if_splits)
    moreover from this(3) assms(2) have "maxMem = 0" by simp
    ultimately show ?thesis by (simp add: reader_eof_def newReader_open Let_def)
  qed
  then show ?thesis using execute_loop_stuck [of cancelled ?r d] assms(3) by (simp add: convert_execute_def)
qed

theorem convert_never_returns_witness:
  "\<exists>d. newConvert [''in'' \<mapsto> (''ab'', False)] ''in'' ''in'' id ''.md5'' 100 [] = Inr d \<and>
     convert_execute toy_md5 (\<lambda>_. True) (\<lambda>_ _. False) d Map.empty = None"
proof -
  obtain d where d: "newConvert [''in'' \<mapsto> (''ab'', False)] ''in'' ''in'' id ''.md5'' 100 [] = Inr d"
    by (simp add: newConvert_def)
  with convert_never_returns [OF d, of "''ab''" "\<lambda>_ _. False" toy_md5 "\<lambda>_. True" Map.empty] show ?thesis by simp
qed

end
