(* ===== verification/Priority_Queue.thy ===== *)
theory Priority_Queue
  imports Pwned_Prelude "HOL-Library.Multiset"
begin

text \<open>
  \<^verbatim>\<open>std::priority_queue\<close> of pointers to objects whose keys change in place, as the merger uses
  it. The standard promises that the top is an element no other one comes before, and leaves open
  which of several equal ones it is; the locale states that promise, so that its lemmas hold
  for every implementation. Two operations go through the pointer: the top element may be changed
  without changing its key, and its key may be changed if it is removed right afterwards
  (\<^verbatim>\<open>pop_heap\<close> moves the front element to the back without comparing it).
\<close>

record ('e, 'q) queue_ops =
  q_empty :: 'q
  q_isEmpty :: "'q \<Rightarrow> bool"
  q_top :: "'q \<Rightarrow> 'e"
  q_pop :: "'q \<Rightarrow> 'q"
  q_push :: "'e \<Rightarrow> 'q \<Rightarrow> 'q"
  q_set_top :: "'e \<Rightarrow> 'q \<Rightarrow> 'q"

locale priority_queue =
  fixes ops :: "('e, 'q) queue_ops"
    and key :: "'e \<Rightarrow> 'k::linorder"
    and elems :: "'q \<Rightarrow> 'e multiset"
    and inv :: "'q \<Rightarrow> bool"
  assumes inv_empty: "inv (q_empty ops)"
    and elems_empty: "elems (q_empty ops) = {#}"
    and isEmpty: "inv q \<Longrightarrow> q_isEmpty ops q \<longleftrightarrow> elems q = {#}"
    and inv_push: "inv q \<Longrightarrow> inv (q_push ops e q)"
    and elems_push: "inv q \<Longrightarrow> elems (q_push ops e q) = add_mset e (elems q)"
    and top_in: "inv q \<Longrightarrow> elems q \<noteq> {#} \<Longrightarrow> q_top ops q \<in># elems q"
    and top_least: "inv q \<Longrightarrow> e \<in># elems q \<Longrightarrow> key (q_top ops q) \<le> key e"
    and inv_pop: "inv q \<Longrightarrow> elems q \<noteq> {#} \<Longrightarrow> inv (q_pop ops q)"
    and elems_pop: "inv q \<Longrightarrow> elems q \<noteq> {#} \<Longrightarrow> elems (q_pop ops q) = elems q - {#q_top ops q#}"
    and pop_set_top: "inv q \<Longrightarrow> elems q \<noteq> {#} \<Longrightarrow> q_pop ops (q_set_top ops e q) = q_pop ops q"
    and inv_set_top: "inv q \<Longrightarrow> elems q \<noteq> {#} \<Longrightarrow> key e = key (q_top ops q) \<Longrightarrow> inv (q_set_top ops e q)"
    and elems_set_top: "inv q \<Longrightarrow> elems q \<noteq> {#} \<Longrightarrow> key e = key (q_top ops q) \<Longrightarrow>
      elems (q_set_top ops e q) = add_mset e (elems q - {#q_top ops q#})"
begin

text \<open>What the merger does with the top element: replace it by its successor, in one of the two ways.\<close>

lemma replace_top:
  assumes "inv q" and "elems q \<noteq> {#}"
  shows "inv (q_push ops e (q_pop ops (q_set_top ops e q)))"
    and "elems (q_push ops e (q_pop ops (q_set_top ops e q))) = add_mset e (elems q - {#q_top ops q#})"
  using assms by (simp_all add: pop_set_top inv_pop inv_push elems_push elems_pop)

lemma inv_push_all: "inv q \<Longrightarrow> inv (fold (q_push ops) es q)"
  by (induction es arbitrary: q) (simp_all add: inv_push)

lemma elems_push_all: "inv q \<Longrightarrow> elems (fold (q_push ops) es q) = elems q + mset es"
  by (induction es arbitrary: q) (simp_all add: inv_push elems_push)

end

section \<open>A queue as a sorted list\<close>

text \<open>Elements with equal keys leave in the order in which they came.\<close>

definition list_queue :: "('e \<Rightarrow> 'k::linorder) \<Rightarrow> ('e, 'e list) queue_ops" where
  "list_queue key =
     \<lparr>q_empty = [], q_isEmpty = (\<lambda>q. q = []), q_top = hd, q_pop = tl,
      q_push = (\<lambda>e q. takeWhile (\<lambda>x. key x \<le> key e) q @ e # dropWhile (\<lambda>x. key x \<le> key e) q),
      q_set_top = (\<lambda>e q. e # tl q)\<rparr>"

lemma sorted_between:
  assumes "sorted (map key t)" and "sorted (map key d)" and "\<forall>x \<in> set t. key x \<le> key e" and "\<forall>y \<in> set d. key e \<le> key y"
  shows "sorted (map key (t @ e # d))"
  using assms by (auto simp: sorted_append intro: order_trans)

lemma sorted_insert_list:
  assumes "sorted (map key q)"
  shows "sorted (map key (takeWhile (\<lambda>x. key x \<le> key e) q @ e # dropWhile (\<lambda>x. key x \<le> key e) q))"
proof -
  let ?t = "takeWhile (\<lambda>x. key x \<le> key e) q" and ?d = "dropWhile (\<lambda>x. key x \<le> key e) q"
  have "sorted (map key t) \<and> sorted (map key d) \<and> (\<forall>x \<in> set t. \<forall>y \<in> set d. key x \<le> key y)"
    if "t @ d = q" for t d
    using assms unfolding that [symmetric] by (simp add: sorted_append)
  note s = this [OF takeWhile_dropWhile_id [of "\<lambda>x. key x \<le> key e" q]]
  have le: "\<forall>x \<in> set ?t. key x \<le> key e" by (auto dest: set_takeWhileD)
  have ge: "\<forall>y \<in> set ?d. key e \<le> key y"
  proof (cases ?d)
    case (Cons d ds)
    then have "\<not> key d \<le> key e" using hd_dropWhile [of "\<lambda>x. key x \<le> key e" q] by simp
    with s show ?thesis unfolding Cons by auto
  next
    case Nil
    show ?thesis unfolding Nil by simp
  qed
  show ?thesis
    by (rule sorted_between [OF _ _ le ge]) (use s in blast)+
qed

lemma mset_insert_list:
  "mset (takeWhile P q @ e # dropWhile P q) = add_mset e (mset q)"
proof -
  have "mset (t @ e # d) = add_mset e (mset q)" if "t @ d = q" for t d
    using that by auto
  from this [OF takeWhile_dropWhile_id] show ?thesis .
qed

interpretation list_pq: priority_queue "list_queue key" key mset "\<lambda>q. sorted (map key q)"
  for key :: "'e \<Rightarrow> 'k::linorder"
proof unfold_locales
  fix q :: "'e list" and e
  show "sorted (map key (q_empty (list_queue key)))" "mset (q_empty (list_queue key)) = {#}"
    by (simp_all add: list_queue_def)
  assume s: "sorted (map key q)"
  show "q_isEmpty (list_queue key) q \<longleftrightarrow> mset q = {#}" by (simp add: list_queue_def)
  show "sorted (map key (q_push (list_queue key) e q))"
    using sorted_insert_list [OF s] by (simp add: list_queue_def)
  show "mset (q_push (list_queue key) e q) = add_mset e (mset q)"
    unfolding list_queue_def queue_ops.simps by (rule mset_insert_list)
  show "e \<in># mset q \<Longrightarrow> key (q_top (list_queue key) q) \<le> key e"
    using s by (cases q) (auto simp: list_queue_def)
  assume "mset q \<noteq> {#}"
  then obtain x xs where q: "q = x # xs" by (cases q) auto
  show "q_top (list_queue key) q \<in># mset q" "sorted (map key (q_pop (list_queue key) q))"
    "mset (q_pop (list_queue key) q) = mset q - {#q_top (list_queue key) q#}"
    "q_pop (list_queue key) (q_set_top (list_queue key) e q) = q_pop (list_queue key) q"
    using s by (simp_all add: list_queue_def q)
  assume k: "key e = key (q_top (list_queue key) q)"
  show "sorted (map key (q_set_top (list_queue key) e q))"
    "mset (q_set_top (list_queue key) e q) = add_mset e (mset q - {#q_top (list_queue key) q#})"
    using s k by (simp_all add: list_queue_def q)
qed

end
