(* ===== verification/Merger.thy ===== *)
theory Merger
  imports Priority_Queue Inspector
begin

text \<open>
  \<^verbatim>\<open>pwned-merger-cli/mergeoperation.cpp\<close>: merging sorted MD5:count files into one. The inputs
  wait in a priority queue ordered by their current hash; \<^verbatim>\<open>next\<close> takes the smallest record, and
  \<^verbatim>\<open>execute\<close> adds the counts of equal hashes. The operations take the queue they work on as an
  argument (\<open>queue_ops\<close>), because the standard leaves open which of several smallest inputs is on
  top.
\<close>

section \<open>Inputs\<close>

record merger_input =
  mi_path :: string
  mi_phc :: phc
  mi_valid :: bool
  mi_file :: "u8 istream"

definition input_read :: "merger_input \<Rightarrow> merger_input" where
  "input_read i =
     (let (ok, p, f) = phc_read (mi_phc i) (mi_file i)
      in i\<lparr>mi_phc := p, mi_file := f, mi_valid := ok\<rparr>)"

definition input_open :: "files \<Rightarrow> merger_input \<Rightarrow> merger_input" where
  "input_open fs i =
     (let f = (case fs (mi_path i) of None \<Rightarrow> failed_open | Some e \<Rightarrow> open_ifstream e);
          i = i\<lparr>mi_file := f\<rparr>
      in if opened f then input_read i else i)"

definition newMergerInput :: "string \<Rightarrow> merger_input" where
  "newMergerInput path = \<lparr>mi_path = path, mi_phc = emptyPHC, mi_valid = False, mi_file = closed_stream\<rparr>"

definition input_key :: "merger_input \<Rightarrow> quad" where
  "input_key i = quad (phc_hash (mi_phc i))"

text \<open>\<^verbatim>\<open>SmallestHashFirst\<close>: whether \<open>lhs\<close> comes after \<open>rhs\<close>.\<close>

definition SmallestHashFirst :: "merger_input \<Rightarrow> merger_input \<Rightarrow> bool" where
  "SmallestHashFirst lhs rhs = hash_gt (phc_hash (mi_phc lhs)) (phc_hash (mi_phc rhs))"

lemma SmallestHashFirst_key: "SmallestHashFirst lhs rhs \<longleftrightarrow> input_key rhs < input_key lhs"
  by (simp add: SmallestHashFirst_def input_key_def)

section \<open>The operation\<close>

datatype merger_error = cannotWriteToFile | NoInput fs_error

record 'q merge =
  m_pq :: 'q
  m_totalEntries :: nat
  m_dst :: string
  m_remove :: bool

text \<open>The constructor opens the inputs one by one; the size of an input that does not exist cannot be
  determined (\<open>NoInput\<close>).\<close>

primrec push_inputs ::
  "(merger_input, 'q) queue_ops \<Rightarrow> files \<Rightarrow> string list \<Rightarrow> 'q \<Rightarrow> nat \<Rightarrow> merger_error + ('q \<times> nat)" where
  "push_inputs ops fs [] q nbytes = Inr (q, nbytes)"
| "push_inputs ops fs (path # paths) q nbytes =
     (let q = q_push ops (input_open fs (newMergerInput path)) q
      in case fs path of
           None \<Rightarrow> Inl (NoInput (NoSuchFile path))
         | Some e \<Rightarrow> push_inputs ops fs paths q (nbytes + length (fst e)))"

definition newMerge ::
  "(merger_input, 'q) queue_ops \<Rightarrow> files \<Rightarrow> string list \<Rightarrow> string \<Rightarrow> bool \<Rightarrow> merger_error + 'q merge" where
  "newMerge ops fs srcFiles dstFilename remove =
     (case push_inputs ops fs srcFiles (q_empty ops) 0 of
        Inl e \<Rightarrow> Inl e
      | Inr (q, nbytes) \<Rightarrow> Inr \<lparr>m_pq = q, m_totalEntries = nbytes div 20, m_dst = dstFilename, m_remove = remove\<rparr>)"

text \<open>\<^verbatim>\<open>next\<close>: the record, the queue and the files it removes. Reading moves the top input on in
  place, before it is taken off the queue and put back.\<close>

definition merge_next ::
  "(merger_input, 'q) queue_ops \<Rightarrow> bool \<Rightarrow> 'q \<Rightarrow> phc \<times> 'q \<times> string list" where
  "merge_next ops remove q =
     (if q_isEmpty ops q then (emptyPHC, q, [])
      else let i = q_top ops q;
               result = mi_phc i
           in if mi_valid i
              then let i' = input_read i;
                       q' = q_set_top ops i' q
                   in if mi_valid i' then (result, q_push ops i' (q_pop ops q'), [])
                      else (result, q', [])
              else let q' = q_pop ops q;
                       del = (if remove then [mi_path i] else [])
                   in if q_isEmpty ops q' then (emptyPHC, q', del) else (result, q', del))"

text \<open>The loop of \<^verbatim>\<open>execute\<close>; \<open>n\<close> is \<^verbatim>\<open>entriesProcessed\<close>, \<open>cancelled n\<close> the flag another
  thread sets, \<open>out\<close> what has been written.\<close>

partial_function (option) merge_loop ::
  "(merger_input, 'q) queue_ops \<Rightarrow> bool \<Rightarrow> (nat \<Rightarrow> bool) \<Rightarrow> nat \<Rightarrow> 'q \<Rightarrow> phc \<Rightarrow> phc list \<Rightarrow> string list \<Rightarrow>
   (phc list \<times> string list) option" where
  "merge_loop ops remove cancelled n q current out del =
     (if cancelled n then Some (out, del)
      else let r = merge_next ops remove q;
               p = fst r; q' = fst (snd r); del' = del @ snd (snd r)
           in if \<not> q_isEmpty ops q'
              then if hash_eq (phc_hash current) (phc_hash p)
                   then merge_loop ops remove cancelled (Suc n) q' (current\<lparr>phc_count := phc_count current + phc_count p\<rparr>) out del'
                   else merge_loop ops remove cancelled (Suc n) q' p (out @ [current]) del'
              else Some (out @ [current], del'))"

text \<open>\<^verbatim>\<open>execute\<close>: the new contents of the file system. \<open>writable\<close> says whether the output can be
  opened.\<close>

definition merge_execute ::
  "(merger_input, 'q) queue_ops \<Rightarrow> (string \<Rightarrow> bool) \<Rightarrow> (nat \<Rightarrow> bool) \<Rightarrow> 'q merge \<Rightarrow> files \<Rightarrow> (merger_error + files) option" where
  "merge_execute ops writable cancelled d fs =
     (if cancelled 0 then Some (Inr fs)
      else if q_isEmpty ops (m_pq d) then Some (Inr fs)
      else if \<not> writable (m_dst d) then Some (Inl cannotWriteToFile)
      else case merge_loop ops (m_remove d) cancelled 0 (m_pq d) (mi_phc (q_top ops (m_pq d))) [] [] of
             None \<Rightarrow> None
           | Some (out, del) \<Rightarrow>
               Some (Inr (fold (\<lambda>p m. m(p := None)) del (fs(m_dst d \<mapsto> (concat (map phc_dump out), True))))))"

section \<open>What an input still delivers\<close>

text \<open>The records of a file's bytes, and the records \<^verbatim>\<open>next\<close> will take from an input: those left,
  and the last one once more, because an input that has reached its end is taken off the queue only
  by the call after the one that returned its last record.\<close>

fun entries_of :: "u8 list \<Rightarrow> entry list" where
  "entries_of bs = (if length bs < 20 then [] else bytes_entry (take 20 bs) # entries_of (drop 20 bs))"

declare entries_of.simps [simp del]

lemma entries_of_file: "entries_of (file_of es) = es"
proof (induction es)
  case Nil
  then show ?case by (simp add: entries_of.simps file_of_def)
next
  case (Cons e es)
  have "length (entry_bytes e) = 20" by (rule phc_file.length_enc)
  then show ?case
    using Cons by (simp add: file_of_def) (subst entries_of.simps, simp add: phc_file.dec_enc)
qed

definition todo :: "merger_input \<Rightarrow> entry list" where
  "todo i =
     (if mi_valid i
      then let es = phc_entry (mi_phc i) # entries_of (unread (mi_file i)) in es @ [last es]
      else [phc_entry (mi_phc i)])"

definition input_ok :: "merger_input \<Rightarrow> bool" where
  "input_ok i \<longleftrightarrow> \<not> isValid (phc_hash (mi_phc i)) \<and> sorted (map fst (todo i)) \<and>
     (mi_valid i \<longrightarrow> good (mi_file i) \<and> (\<exists>es. unread (mi_file i) = file_of es))"

lemma todo_not_Nil [simp]: "todo i \<noteq> []"
  by (simp add: todo_def Let_def)

lemma hd_todo: "hd (todo i) = phc_entry (mi_phc i)"
  by (simp add: todo_def Let_def)

lemma key_todo: "input_key i = fst (hd (todo i))"
  by (simp add: hd_todo input_key_def phc_entry_def)

lemma input_read_more:
  assumes "input_ok i" and "mi_valid i" and "unread (mi_file i) = file_of (e # es)"
  shows "mi_valid (input_read i) \<and> input_ok (input_read i) \<and> todo (input_read i) = tl (todo i)"
proof -
  let ?f = "mi_file i"
  have g: "good ?f" using assms(1,2) by (simp add: input_ok_def)
  have "length (entry_bytes e) = 20" by (rule phc_file.length_enc)
  then have u: "unread ?f = quad_bytes (fst e) @ le_bytes 4 (snd e) @ file_of es"
    using assms(3) by (simp add: file_of_def entry_bytes_def)
  let ?f1 = "?f\<lparr>position := position ?f + 16\<rparr>"
  let ?f2 = "?f1\<lparr>position := position ?f1 + 4\<rparr>"
  have r1: "is_read 16 ?f = (quad_bytes (fst e), ?f1)"
    using g u by (intro is_read_prefix) (auto simp: unread_def)
  have "drop (position ?f1) (contents ?f1) = drop 16 (unread ?f)" by (simp add: unread_def add.commute)
  then have u1: "drop (position ?f1) (contents ?f1) = le_bytes 4 (snd e) @ file_of es" by (simp add: u)
  then have r2: "is_read 4 ?f1 = (le_bytes 4 (snd e), ?f2)"
    using g by (intro is_read_prefix) (auto simp: good_def)
  have "unread ?f2 = drop 4 (drop (position ?f1) (contents ?f1))" by (simp add: unread_def add.commute)
  then have u2: "unread ?f2 = file_of es" unfolding u1 by simp
  note u2' = u2 [simplified]
  have read: "phc_read (mi_phc i) ?f = (True, set_entry (mi_phc i) e, ?f2)"
    by (simp add: phc_read_def r1 r2 set_entry_def)
  then have i': "input_read i = i\<lparr>mi_phc := set_entry (mi_phc i) e, mi_file := ?f2, mi_valid := True\<rparr>"
    by (simp add: input_read_def)
  have t: "todo (input_read i) = (e # es) @ [last (e # es)]"
    by (simp add: i' todo_def u2' entries_of_file)
  have t0: "todo i = phc_entry (mi_phc i) # (e # es) @ [last (e # es)]"
    using assms(2,3) by (simp add: todo_def Let_def entries_of_file)
  then have "todo (input_read i) = tl (todo i)" using t by simp
  moreover have "sorted (map fst (todo (input_read i)))"
    using assms(1) t t0 by (simp add: input_ok_def)
  ultimately show ?thesis
    using assms(1) g u2' by (auto simp: i' input_ok_def good_def)
qed

lemma input_read_end:
  assumes "input_ok i" and "mi_valid i" and "unread (mi_file i) = file_of []"
  shows "\<not> mi_valid (input_read i) \<and> mi_phc (input_read i) = mi_phc i \<and> input_ok (input_read i) \<and>
    todo (input_read i) = tl (todo i)"
proof -
  have g: "good (mi_file i)" using assms(1,2) by (simp add: input_ok_def)
  have "length (contents (mi_file i)) \<le> position (mi_file i)"
    using assms(3) by (simp add: unread_def file_of_def)
  then have "phc_read (mi_phc i) (mi_file i) = (False, mi_phc i, (mi_file i)\<lparr>eofbit := True, failbit := True\<rparr>)"
    using g by (intro phc_read_nothing is_read_at_end) auto
  then have i': "input_read i = i\<lparr>mi_file := (mi_file i)\<lparr>eofbit := True, failbit := True\<rparr>, mi_valid := False\<rparr>"
    by (cases i) (simp add: input_read_def)
  have "todo i = [phc_entry (mi_phc i), phc_entry (mi_phc i)]"
    using assms(2,3) by (simp add: todo_def entries_of_file)
  then show ?thesis using assms(1) by (simp add: i' input_ok_def todo_def)
qed

section \<open>The k-way merge\<close>

definition total_todo :: "merger_input multiset \<Rightarrow> entry multiset" where
  "total_todo Q = (\<Sum>i \<in># Q. mset (todo i))"

lemma total_todo_add [simp]: "total_todo (add_mset i Q) = mset (todo i) + total_todo Q"
  by (simp add: total_todo_def)

lemma total_todo_empty [simp]: "total_todo {#} = {#}"
  by (simp add: total_todo_def)

lemma total_todo_none: "total_todo Q = {#} \<longleftrightarrow> Q = {#}"
  by (cases Q) auto

lemma total_todo_remove: "i \<in># Q \<Longrightarrow> total_todo Q = mset (todo i) + total_todo (Q - {#i#})"
  by (metis insert_DiffM total_todo_add)

lemma todo_hd_tl: "mset (todo i) = add_mset (phc_entry (mi_phc i)) (mset (tl (todo i)))"
  by (metis hd_todo list.collapse mset.simps(2) todo_not_Nil)

text \<open>Groups of consecutive entries with the same hash, their counts added up (modulo the width).\<close>

fun runs :: "entry \<Rightarrow> entry list \<Rightarrow> entry list" where
  "runs c [] = [c]"
| "runs c (e # es) = (if fst c = fst e then runs (fst c, snd c + snd e) es else c # runs e es)"

definition total_count :: "entry multiset \<Rightarrow> quad \<Rightarrow> u32" where
  "total_count E q = (\<Sum>e \<in># filter_mset (\<lambda>e. fst e = q) E. snd e)"

lemma total_count_add [simp]:
  "total_count (add_mset e E) q = (if fst e = q then snd e else 0) + total_count E q"
  by (simp add: total_count_def)

lemma total_count_union [simp]: "total_count (E + F) q = total_count E q + total_count F q"
  by (simp add: total_count_def)

lemma total_count_empty [simp]: "total_count {#} q = 0"
  by (simp add: total_count_def)

lemma total_count_absent: "q \<notin> fst ` set_mset E \<Longrightarrow> total_count E q = 0"
  by (induction E) auto

lemma runs_keys: "fst ` set (runs c es) = fst ` set (c # es)"
  by (induction c es rule: runs.induct) auto

lemma runs_sorted: "sorted (map fst (c # es)) \<Longrightarrow> sorted_wrt (<) (map fst (runs c es))"
proof (induction c es rule: runs.induct)
  case (2 c e es)
  show ?case
  proof (cases "fst c = fst e")
    case True
    then show ?thesis using 2 by simp
  next
    case False
    then have lt: "fst c < fst e" using "2.prems" by (simp add: order_less_le)
    have "\<forall>q \<in> fst ` set (e # es). fst e \<le> q" using "2.prems" by auto
    then have "\<forall>q \<in> fst ` set (runs e es). fst c < q"
      unfolding runs_keys using lt by (blast intro: order_less_le_trans)
    then show ?thesis using False 2 by simp
  qed
qed simp

lemma runs_counts:
  "sorted (map fst (c # es)) \<Longrightarrow> x \<in> set (runs c es) \<Longrightarrow> snd x = total_count (mset (c # es)) (fst x)"
proof (induction c es rule: runs.induct)
  case (2 c e es)
  show ?case
  proof (cases "fst c = fst e")
    case True
    then show ?thesis using 2 by (simp add: add.assoc)
  next
    case False
    then have lt: "fst c < fst e" using "2.prems" by (simp add: order_less_le)
    have ge: "\<forall>q \<in> fst ` set (e # es). fst e \<le> q" using "2.prems" by auto
    from False "2.prems"(2) consider "x = c" | "x \<in> set (runs e es)" by auto
    then show ?thesis
    proof cases
      case 1
      have "fst c \<notin> fst ` set_mset (mset (e # es))" using ge lt by (auto dest: leD)
      then have "total_count (mset (e # es)) (fst c) = 0" by (rule total_count_absent)
      then show ?thesis using 1 by simp
    next
      case 2
      then have "fst x \<in> fst ` set (e # es)" using runs_keys by blast
      then have "fst c \<noteq> fst x" using ge lt by (auto dest: leD)
      then show ?thesis using "2.IH"(2) [OF False] "2.prems"(1) 2 by simp
    qed
  qed
qed simp

section \<open>Every queue merges\<close>

locale merger_queue = priority_queue ops input_key elems inv
  for ops :: "(merger_input, 'q) queue_ops" and elems :: "'q \<Rightarrow> merger_input multiset" and inv :: "'q \<Rightarrow> bool"
begin

definition ready :: "'q \<Rightarrow> bool" where
  "ready q \<longleftrightarrow> inv q \<and> (\<forall>i \<in># elems q. input_ok i)"

text \<open>One call of \<^verbatim>\<open>next\<close> takes a least record off what is left to do; it returns it unless it was
  the very last one.\<close>

lemma next_takes:
  assumes "ready q" and "elems q \<noteq> {#}"
  shows "\<exists>p q' e. merge_next ops False q = (p, q', []) \<and> ready q' \<and>
    total_todo (elems q) = add_mset e (total_todo (elems q')) \<and>
    (\<forall>x \<in># total_todo (elems q). fst e \<le> fst x) \<and>
    (elems q' \<noteq> {#} \<longrightarrow> phc_entry p = e \<and> \<not> isValid (phc_hash p))"
proof -
  let ?i = "q_top ops q"
  have iv: "inv q" and ok: "\<forall>i \<in># elems q. input_ok i" using assms(1) by (simp_all add: ready_def)
  have t: "?i \<in># elems q" by (rule top_in [OF iv assms(2)])
  then have oki: "input_ok ?i" using ok by blast
  let ?e = "phc_entry (mi_phc ?i)"
  have ne: "\<not> q_isEmpty ops q" using isEmpty [OF iv] assms(2) by simp
  have least: "\<forall>x \<in># total_todo (elems q). fst ?e \<le> fst x"
  proof
    fix x
    assume "x \<in># total_todo (elems q)"
    then obtain j where j: "j \<in># elems q" "x \<in> set (todo j)" by (auto simp: total_todo_def)
    have "sorted (map fst (todo j))" using j(1) ok by (simp add: input_ok_def)
    then have "fst (hd (todo j)) \<le> fst x" using j(2) by (cases "todo j") auto
    moreover have "input_key ?i \<le> input_key j" by (rule top_least [OF iv j(1)])
    ultimately show "fst ?e \<le> fst x" by (simp add: key_todo hd_todo)
  qed
  have all: "total_todo (elems q) = add_mset ?e (mset (tl (todo ?i)) + total_todo (elems q - {#?i#}))"
    using total_todo_remove [OF t] todo_hd_tl [of ?i] by simp
  have v: "\<not> isValid (phc_hash (mi_phc ?i))" using oki by (simp add: input_ok_def)
  have rest_ok: "\<forall>j \<in># elems q - {#?i#}. input_ok j" using ok by (meson in_diffD)
  have result: ?thesis
    if "merge_next ops False q = (p, q', [])" "inv q'" "\<forall>j \<in># elems q'. input_ok j"
      "total_todo (elems q') = mset (tl (todo ?i)) + total_todo (elems q - {#?i#})"
      "elems q' \<noteq> {#} \<longrightarrow> p = mi_phc ?i" for p q'
    using that least all v unfolding ready_def
    by (intro exI [of _ p] exI [of _ q'] exI [of _ ?e] conjI) (assumption | simp)+
  have rest: "total_todo (elems q') = mset (tl (todo ?i)) + total_todo (elems q - {#?i#})"
    "\<forall>j \<in># elems q'. input_ok j"
    if "elems q' = add_mset i' (elems q - {#?i#})" "input_ok i'" "todo i' = tl (todo ?i)" for i' q'
    using that rest_ok by simp_all
  consider (more) e es where "mi_valid ?i" "unread (mi_file ?i) = file_of (e # es)"
    | (at_end) "mi_valid ?i" "unread (mi_file ?i) = file_of []"
    | (off) "\<not> mi_valid ?i"
    using oki unfolding input_ok_def by (metis list.exhaust)
  then show ?thesis
  proof cases
    case more
    let ?i' = "input_read ?i"
    let ?q' = "q_push ops ?i' (q_pop ops (q_set_top ops ?i' q))"
    note m = input_read_more [OF oki more]
    have nx: "merge_next ops False q = (mi_phc ?i, ?q', [])"
      using ne more(1) m by (simp add: merge_next_def Let_def)
    have q': "inv ?q'" "elems ?q' = add_mset ?i' (elems q - {#?i#})"
      by (rule replace_top [OF iv assms(2)])+
    show ?thesis using rest [OF q'(2)] m by (intro result [OF nx q'(1)]) simp_all
  next
    case at_end
    let ?i' = "input_read ?i" and ?q' = "q_set_top ops (input_read ?i) q"
    note m = input_read_end [OF oki at_end]
    have nx: "merge_next ops False q = (mi_phc ?i, ?q', [])"
      using ne at_end(1) m by (simp add: merge_next_def Let_def)
    have k: "input_key ?i' = input_key ?i" using m by (simp add: input_key_def)
    have q': "inv ?q'" "elems ?q' = add_mset ?i' (elems q - {#?i#})"
      using inv_set_top [OF iv assms(2) k] elems_set_top [OF iv assms(2) k] by simp_all
    show ?thesis using rest [OF q'(2)] m by (intro result [OF nx q'(1)]) simp_all
  next
    case off
    let ?q' = "q_pop ops q"
    have q': "inv ?q'" "elems ?q' = elems q - {#?i#}"
      using inv_pop [OF iv assms(2)] elems_pop [OF iv assms(2)] by simp_all
    have t1: "todo ?i = [?e]" using off by (simp add: todo_def)
    have nx: "merge_next ops False q = (if elems ?q' = {#} then emptyPHC else mi_phc ?i, ?q', [])"
      using ne off isEmpty [OF q'(1)] by (simp add: merge_next_def Let_def)
    show ?thesis using rest_ok t1 q'(2) by (intro result [OF nx q'(1)]) simp_all
  qed
qed

lemma merge_loop_step:
  assumes "\<not> cancelled n" and "merge_next ops remove q = (p, q', [])"
  shows "merge_loop ops remove cancelled n q current out del =
    (if q_isEmpty ops q' then Some (out @ [current], del)
     else if hash_eq (phc_hash current) (phc_hash p)
     then merge_loop ops remove cancelled (Suc n) q' (current\<lparr>phc_count := phc_count current + phc_count p\<rparr>) out del
     else merge_loop ops remove cancelled (Suc n) q' p (out @ [current]) del)"
  using assms by (subst merge_loop.simps) (simp add: Let_def)

lemma merge_loop_merges:
  assumes "ready q" and "elems q \<noteq> {#}" and "\<forall>n. \<not> cancelled n" and "\<not> isValid (phc_hash current)"
  shows "\<exists>T x out'. merge_loop ops False cancelled n q current out [] = Some (out @ out', []) \<and>
    sorted (map fst (T @ [x])) \<and> mset (T @ [x]) = total_todo (elems q) \<and>
    map phc_entry out' = runs (phc_entry current) T"
  using assms(1,2,4)
proof (induction "size (total_todo (elems q))" arbitrary: q n current out rule: less_induct)
  case less
  obtain p q' e where nx: "merge_next ops False q = (p, q', [])" "ready q'"
      "total_todo (elems q) = add_mset e (total_todo (elems q'))"
      "\<forall>x \<in># total_todo (elems q). fst e \<le> fst x"
      "elems q' \<noteq> {#} \<longrightarrow> phc_entry p = e \<and> \<not> isValid (phc_hash p)"
    using next_takes [OF less.prems(1,2)] by blast
  have c: "\<not> cancelled n" using assms(3) by blast
  have iq': "q_isEmpty ops q' \<longleftrightarrow> elems q' = {#}" using isEmpty nx(2) by (simp add: ready_def)
  note step = merge_loop_step [of cancelled n False, OF c nx(1), of current out "[]"]
  show ?case
  proof (cases "elems q' = {#}")
    case True
    then show ?thesis using step nx(3) iq' by (intro exI [of _ "[]"] exI [of _ e] exI [of _ "[current]"]) simp
  next
    case False
    then have p: "phc_entry p = e" "\<not> isValid (phc_hash p)" using nx(5) by simp_all
    have small: "size (total_todo (elems q')) < size (total_todo (elems q))" using nx(3) by simp
    have eq: "hash_eq (phc_hash current) (phc_hash p) \<longleftrightarrow> fst (phc_entry current) = fst e"
      using p less.prems(3) by (auto simp: phc_entry_def hash_eq_def quad.expand)
    have ordered: "sorted (map fst ((e # T) @ [x]))" if "sorted (map fst (T @ [x]))" "mset (T @ [x]) = total_todo (elems q')" for T x
    proof -
      have "set_mset (total_todo (elems q')) = set (T @ [x])" by (metis set_mset_mset that(2))
      then have "\<forall>y \<in> set (T @ [x]). fst e \<le> fst y" using nx(3,4) by auto
      then show ?thesis using that(1) by simp
    qed
    show ?thesis
    proof (cases "fst (phc_entry current) = fst e")
      case True
      let ?c = "current\<lparr>phc_count := phc_count current + phc_count p\<rparr>"
      have c: "phc_entry ?c = (fst (phc_entry current), snd (phc_entry current) + snd e)" "\<not> isValid (phc_hash ?c)"
        using p(1) less.prems(3) by (auto simp: phc_entry_def)
      obtain T x out' where T: "merge_loop ops False cancelled (Suc n) q' ?c out [] = Some (out @ out', [])"
        "sorted (map fst (T @ [x]))" "mset (T @ [x]) = total_todo (elems q')" "map phc_entry out' = runs (phc_entry ?c) T"
        using less.hyps [OF small nx(2) False c(2)] by blast
      have "merge_loop ops False cancelled n q current out [] = Some (out @ out', [])"
        by (simp only: step iq' False eq True if_True if_False simp_thms T(1))
      moreover have "map phc_entry out' = runs (phc_entry current) (e # T)" using T(4) c(1) True by simp
      moreover have "mset ((e # T) @ [x]) = total_todo (elems q)" using T(3) nx(3) by simp
      ultimately show ?thesis using ordered [OF T(2,3)] by blast
    next
      case new: False
      obtain T x out' where T: "merge_loop ops False cancelled (Suc n) q' p (out @ [current]) [] = Some ((out @ [current]) @ out', [])"
        "sorted (map fst (T @ [x]))" "mset (T @ [x]) = total_todo (elems q')" "map phc_entry out' = runs (phc_entry p) T"
        using less.hyps [OF small nx(2) False p(2)] by blast
      have "merge_loop ops False cancelled n q current out [] = Some (out @ (current # out'), [])"
        by (simp only: step iq' False eq new if_False T(1)) simp
      moreover have "map phc_entry (current # out') = runs (phc_entry current) (e # T)" using T(4) p(1) new by simp
      moreover have "mset ((e # T) @ [x]) = total_todo (elems q)" using T(3) nx(3) by simp
      ultimately show ?thesis using ordered [OF T(2,3)] by blast
    qed
  qed
qed

lemma merge_loop_from_top:
  assumes "ready q" and "elems q \<noteq> {#}" and "\<forall>n. \<not> cancelled n"
  shows "\<exists>T x out. merge_loop ops False cancelled 0 q (mi_phc (q_top ops q)) [] [] = Some (out, []) \<and>
    sorted (map fst (phc_entry (mi_phc (q_top ops q)) # T @ [x])) \<and> mset (T @ [x]) = total_todo (elems q) \<and>
    map phc_entry out = runs (phc_entry (mi_phc (q_top ops q))) T"
proof -
  let ?c = "mi_phc (q_top ops q)"
  have iv: "inv q" and ok: "\<forall>i \<in># elems q. input_ok i" using assms(1) by (simp_all add: ready_def)
  have "q_top ops q \<in># elems q" by (rule top_in [OF iv assms(2)])
  then have "\<not> isValid (phc_hash ?c)" using ok by (auto simp: input_ok_def)
  from merge_loop_merges [OF assms(1,2,3) this, of 0 "[]"] obtain T x out where
    T: "merge_loop ops False cancelled 0 q ?c [] [] = Some (out, [])" "sorted (map fst (T @ [x]))"
      "mset (T @ [x]) = total_todo (elems q)" "map phc_entry out = runs (phc_entry ?c) T" by auto
  have "fst (phc_entry ?c) \<le> fst y" if "y \<in> set (T @ [x])" for y
  proof -
    from that have "y \<in># total_todo (elems q)" by (metis T(3) set_mset_mset)
    then obtain j where j: "j \<in># elems q" "y \<in> set (todo j)" by (auto simp: total_todo_def)
    have "sorted (map fst (todo j))" using j(1) ok by (simp add: input_ok_def)
    then have "fst (hd (todo j)) \<le> fst y" using j(2) by (cases "todo j") auto
    moreover have "input_key (q_top ops q) \<le> input_key j" by (rule top_least [OF iv j(1)])
    ultimately show ?thesis by (simp add: key_todo hd_todo)
  qed
  then have "sorted (map fst (phc_entry ?c # T @ [x]))" using T(2) by simp
  with T show ?thesis by blast
qed

lemma push_inputs_queue:
  "\<forall>p \<in> set paths. fs p \<noteq> None \<Longrightarrow>
   push_inputs ops fs paths q m =
     Inr (fold (q_push ops) (map (\<lambda>p. input_open fs (newMergerInput p)) paths) q,
          m + (\<Sum>p \<leftarrow> paths. length (fst (the (fs p)))))"
  by (induction paths arbitrary: q m) (auto simp: Let_def)

text \<open>The whole operation, from the inputs as they are after opening.\<close>

lemma execute_merges:
  assumes "\<forall>p \<in> set paths. fs p \<noteq> None" and "paths \<noteq> []"
    and "\<forall>p \<in> set paths. input_ok (input_open fs (newMergerInput p))"
    and "newMerge ops fs paths dst False = Inr d" and "writable dst" and "\<forall>n. \<not> cancelled n"
  shows "\<exists>T x c. merge_execute ops writable cancelled d fs = Some (Inr (fs(dst \<mapsto> (file_of (runs c T), True)))) \<and>
    sorted (map fst (c # T @ [x])) \<and>
    mset (T @ [x]) = (\<Sum>p \<leftarrow> paths. mset (todo (input_open fs (newMergerInput p)))) \<and>
    (\<exists>p \<in> set paths. c = hd (todo (input_open fs (newMergerInput p))))"
proof -
  let ?is = "map (\<lambda>p. input_open fs (newMergerInput p)) paths"
  let ?q = "fold (q_push ops) ?is (q_empty ops)"
  have d: "m_pq d = ?q" "m_dst d = dst" "\<not> m_remove d"
    using assms(4) push_inputs_queue [OF assms(1)] by (auto simp: newMerge_def)
  have iv: "inv ?q" by (intro inv_push_all inv_empty)
  have el: "elems ?q = mset ?is" using elems_push_all [OF inv_empty] by (simp add: elems_empty)
  have rd: "ready ?q" using iv assms(3) unfolding ready_def el by auto
  have ne: "elems ?q \<noteq> {#}" using assms(2) by (simp add: el)
  obtain T x out where T: "merge_loop ops False cancelled 0 ?q (mi_phc (q_top ops ?q)) [] [] = Some (out, [])"
    "sorted (map fst (phc_entry (mi_phc (q_top ops ?q)) # T @ [x]))" "mset (T @ [x]) = total_todo (elems ?q)"
    "map phc_entry out = runs (phc_entry (mi_phc (q_top ops ?q))) T"
    using merge_loop_from_top [OF rd ne assms(6)] by blast
  have "concat (map phc_dump out) = file_of (map phc_entry out)"
    by (simp add: file_of_def) (intro arg_cong [where f = concat] map_cong refl, simp add: phc_dump_entry)
  moreover have "\<not> q_isEmpty ops ?q" using ne isEmpty [OF iv] by simp
  ultimately have "merge_execute ops writable cancelled d fs =
      Some (Inr (fs(dst \<mapsto> (file_of (runs (phc_entry (mi_phc (q_top ops ?q))) T), True))))"
    using T(1,4) assms(5,6) by (simp add: merge_execute_def d)
  moreover have "total_todo (mset (map g ps)) = (\<Sum>p \<leftarrow> ps. mset (todo (g p)))" for g and ps :: "string list"
    by (induction ps) simp_all
  then have "mset (T @ [x]) = (\<Sum>p \<leftarrow> paths. mset (todo (input_open fs (newMergerInput p))))"
    unfolding T(3) el .
  moreover have "q_top ops ?q \<in> set ?is" using top_in [OF iv ne] unfolding el by simp
  then have "\<exists>p \<in> set paths. phc_entry (mi_phc (q_top ops ?q)) = hd (todo (input_open fs (newMergerInput p)))"
    by (auto simp: hd_todo)
  ultimately show ?thesis using T(2) by blast
qed

end

interpretation list_merger: merger_queue "list_queue input_key" mset "\<lambda>q. sorted (map input_key q)"
  by unfold_locales

section \<open>Merging files\<close>

text \<open>A file of entries, not empty, each hash once and in order.\<close>

definition sorted_unique :: "entry list \<Rightarrow> bool" where
  "sorted_unique es \<longleftrightarrow> es \<noteq> [] \<and> sorted_wrt (<) (map fst es)"

lemma sorted_unique_last:
  assumes "sorted_unique es" and "e \<in> set es" and "fst (last es) \<le> fst e"
  shows "e = last es"
proof -
  obtain i where i: "i < length es" "e = es ! i" using assms(2) by (metis in_set_conv_nth)
  have "i = length es - 1"
  proof (rule ccontr)
    assume "i \<noteq> length es - 1"
    with i have "fst (es ! i) < fst (es ! (length es - 1))"
      using assms(1) by (auto simp: sorted_unique_def sorted_wrt_iff_nth_less)
    moreover have "last es = es ! (length es - 1)" using i by (intro last_conv_nth) auto
    ultimately show False using assms(3) i by simp
  qed
  moreover have "last es = es ! (length es - 1)" using i by (intro last_conv_nth) auto
  ultimately show ?thesis using i by simp
qed

lemma input_open_file:
  assumes "fs p = Some (file_of es, True)" and "sorted_unique es"
  shows "input_ok (input_open fs (newMergerInput p)) \<and> todo (input_open fs (newMergerInput p)) = es @ [last es]"
proof -
  obtain e es' where es: "es = e # es'" using assms(2) by (cases es) (auto simp: sorted_unique_def)
  let ?f = "open_stream (file_of es)"
  let ?i = "input_open fs (newMergerInput p)"
  have r: "phc_read emptyPHC ?f = (True, set_entry emptyPHC e, ?f\<lparr>position := 20\<rparr>)"
    using phc_read_entry [of ?f es 0 emptyPHC] by (simp add: es)
  have "file_of es = entry_bytes e @ file_of es'" by (simp add: es file_of_def)
  moreover have "length (entry_bytes e) = 20" by (rule phc_file.length_enc)
  ultimately have u: "unread (?f\<lparr>position := 20\<rparr>) = file_of es'" by (simp add: unread_def)
  have i: "?i = \<lparr>mi_path = p, mi_phc = set_entry emptyPHC e, mi_valid = True, mi_file = ?f\<lparr>position := 20\<rparr>\<rparr>"
    using assms(1) r by (simp add: input_open_def newMergerInput_def input_read_def open_ifstream_def)
  have t: "todo ?i = es @ [last es]"
    using entries_of_file [of es'] unfolding i todo_def Let_def merger_input.simps u by (simp add: es)
  have "sorted (map fst es)" using assms(2) by (simp add: sorted_unique_def strict_sorted_iff)
  moreover have "\<forall>x \<in> set es. fst x \<le> fst (last es)"
    using calculation unfolding es by (induction es' arbitrary: e) auto
  ultimately have "sorted (map fst (todo ?i))" unfolding t by (auto simp: sorted_append)
  then show ?thesis using t u by (auto simp: i input_ok_def emptyPHC_def emptyHash_def good_def)
qed

lemma total_count_sum_list: "total_count (\<Sum>p \<leftarrow> ps. F p) q = (\<Sum>p \<leftarrow> ps. total_count (F p) q)"
  by (induction ps) simp_all

lemma total_count_snoc: "total_count (mset (es @ [e])) q = total_count (mset es) q + (if fst e = q then snd e else 0)"
  by (simp add: add.commute)

lemma sum_list_remove:
  fixes f :: "'a \<Rightarrow> u32"
  assumes "j < length ps"
  shows "(\<Sum>p \<leftarrow> ps. f p) = f (ps ! j) + (\<Sum>i \<in> {..<length ps} - {j}. f (ps ! i))"
proof -
  have "(\<Sum>p \<leftarrow> ps. f p) = (\<Sum>i \<in> {..<length ps}. f (ps ! i))"
    by (simp add: sum_list_sum_nth atLeast0LessThan)
  then show ?thesis using assms by (simp add: sum.remove)
qed

lemma merge_files:
  assumes "\<forall>p \<in> set paths. fs p = Some (file_of (E p), True) \<and> sorted_unique (E p)" and "paths \<noteq> []"
    and "newMerge (list_queue input_key) fs paths dst False = Inr d" and "writable dst" and "\<forall>n. \<not> cancelled n"
  shows "\<exists>out first j. merge_execute (list_queue input_key) writable cancelled d fs = Some (Inr (fs(dst \<mapsto> (file_of out, True)))) \<and>
    sorted_unique out \<and> fst ` set out = (\<Union>p \<in> set paths. fst ` set (E p)) \<and>
    (\<exists>p \<in> set paths. first = hd (E p)) \<and> j < length paths \<and>
    (\<forall>(q, c) \<in> set out. c =
       (\<Sum>p \<leftarrow> paths. total_count (mset (E p)) q) +
       (if fst first = q then snd first else 0) +
       (\<Sum>i \<in> {..<length paths} - {j}. if fst (last (E (paths ! i))) = q then snd (last (E (paths ! i))) else 0))"
proof -
  let ?T = "\<lambda>p. todo (input_open fs (newMergerInput p))"
  have io: "input_ok (input_open fs (newMergerInput p))" "?T p = E p @ [last (E p)]" "E p \<noteq> []" if "p \<in> set paths" for p
    using input_open_file [of fs p "E p"] assms(1) that by (auto simp: sorted_unique_def)
  have ex: "\<forall>p \<in> set paths. fs p \<noteq> None" using assms(1) by auto
  have ok: "\<forall>p \<in> set paths. input_ok (input_open fs (newMergerInput p))" using io(1) by blast
  obtain T x c where run: "merge_execute (list_queue input_key) writable cancelled d fs = Some (Inr (fs(dst \<mapsto> (file_of (runs c T), True))))"
    and srt: "sorted (map fst (c # T @ [x]))" and ms: "mset (T @ [x]) = (\<Sum>p \<leftarrow> paths. mset (?T p))"
    and c: "\<exists>p \<in> set paths. c = hd (?T p)"
    using list_merger.execute_merges [of paths fs dst d writable cancelled, OF ex assms(2) ok assms(3,4,5)]
    by (elim exE conjE) (rule that)
  have ms': "mset (T @ [x]) = (\<Sum>p \<leftarrow> paths. mset (E p @ [last (E p)]))"
    unfolding ms by (intro arg_cong [where f = sum_list] map_cong refl) (simp only: io(2))
  have srt': "sorted (map fst (c # T))" using srt by (simp add: sorted_append)
  have mem: "y \<in> set (T @ [x]) \<longleftrightarrow> (\<exists>p \<in> set paths. y \<in> set (E p))" for y
  proof -
    have "y \<in> set (T @ [x]) \<longleftrightarrow> y \<in># (\<Sum>p \<leftarrow> paths. mset (E p @ [last (E p)]))" by (metis ms' set_mset_mset)
    also have "\<dots> \<longleftrightarrow> (\<exists>p \<in> set paths. y \<in> set (E p @ [last (E p)]))" by (induction paths) auto
    also have "\<dots> \<longleftrightarrow> (\<exists>p \<in> set paths. y \<in> set (E p))" using io(3) last_in_set by (fastforce simp del: last_in_set)
    finally show ?thesis .
  qed
  obtain p0 where p0: "p0 \<in> set paths" "x \<in> set (E p0)" using mem [of x] by auto
  have xl: "x = last (E p0)"
  proof (rule sorted_unique_last)
    show "sorted_unique (E p0)" using assms(1) p0(1) by blast
    have "last (E p0) \<in> set (T @ [x])" using mem p0(1) io(3) [OF p0(1)] last_in_set by blast
    then show "fst (last (E p0)) \<le> fst x" using srt by (auto simp: sorted_append)
  qed (rule p0(2))
  obtain j where j: "j < length paths" "paths ! j = p0" using p0(1) by (metis in_set_conv_nth)
  obtain pc where pc: "pc \<in> set paths" "c = hd (E pc)" using c io by auto
  let ?last = "\<lambda>q p. if fst (last (E p)) = q then snd (last (E p)) else 0"
  have count: "total_count (mset (c # T)) q = (\<Sum>p \<leftarrow> paths. total_count (mset (E p)) q) + (if fst c = q then snd c else 0) +
      (\<Sum>i \<in> {..<length paths} - {j}. ?last q (paths ! i))" for q
  proof -
    have "total_count (mset (T @ [x])) q = (\<Sum>p \<leftarrow> paths. total_count (mset (E p)) q + ?last q p)"
      unfolding ms' total_count_sum_list total_count_snoc ..
    also have "\<dots> = (\<Sum>p \<leftarrow> paths. total_count (mset (E p)) q) + (\<Sum>p \<leftarrow> paths. ?last q p)" by (rule sum_list_addf)
    also have "(\<Sum>p \<leftarrow> paths. ?last q p) = ?last q p0 + (\<Sum>i \<in> {..<length paths} - {j}. ?last q (paths ! i))"
      using sum_list_remove [OF j(1), of "?last q"] j(2) by simp
    finally have "total_count (mset T) q + ?last q p0 = (\<Sum>p \<leftarrow> paths. total_count (mset (E p)) q) +
        (?last q p0 + (\<Sum>i \<in> {..<length paths} - {j}. ?last q (paths ! i)))"
      unfolding total_count_snoc xl .
    then show ?thesis by (simp add: ac_simps)
  qed
  have uniq: "sorted_unique (runs c T)"
    unfolding sorted_unique_def using runs_sorted [OF srt'] runs_keys [of c T] by auto
  have keys: "fst ` set (runs c T) = (\<Union>p \<in> set paths. fst ` set (E p))"
  proof -
    have "c \<in> set (E pc)" using pc io(3) by simp
    then have "c \<in> set (T @ [x])" unfolding mem using pc(1) by blast
    moreover have "x \<in> set T"
    proof -
      have "count (mset (T @ [x])) x \<ge> count (mset (?T p0)) x"
        unfolding ms using p0(1) by (induction paths) auto
      moreover have "count (mset (?T p0)) x = Suc (count (mset (E p0)) x)" using io(2) [OF p0(1)] xl by simp
      moreover have "count (mset (T @ [x])) x = Suc (count (mset T) x)" by simp
      moreover have "x \<in># mset (E p0)" using p0(2) by simp
      then have "0 < count (mset (E p0)) x" by (rule count_greater_zero_iff [THEN iffD2])
      ultimately have "0 < count (mset T) x" by linarith
      then show ?thesis by simp
    qed
    ultimately have "set (c # T) = set (T @ [x])" by auto
    then have "y \<in> set (c # T) \<longleftrightarrow> (\<exists>p \<in> set paths. y \<in> set (E p))" for y using mem by simp
    then have "set (c # T) = (\<Union>p \<in> set paths. set (E p))" by blast
    then show ?thesis unfolding runs_keys by (simp only: image_UN)
  qed
  have counts: "\<forall>(q, n) \<in> set (runs c T). n = (\<Sum>p \<leftarrow> paths. total_count (mset (E p)) q) +
       (if fst c = q then snd c else 0) + (\<Sum>i \<in> {..<length paths} - {j}. ?last q (paths ! i))"
  proof (intro ballI, clarify)
    fix q n
    assume "(q, n) \<in> set (runs c T)"
    then have "n = total_count (mset (c # T)) q" using runs_counts [OF srt', of "(q, n)"] by simp
    then show "n = (\<Sum>p \<leftarrow> paths. total_count (mset (E p)) q) +
       (if fst c = q then snd c else 0) + (\<Sum>i \<in> {..<length paths} - {j}. ?last q (paths ! i))"
      by (simp only: count)
  qed
  have "\<exists>p \<in> set paths. c = hd (E p)" using pc by blast
  with run uniq keys counts j(1) show ?thesis
    by (intro exI [of _ "runs c T"] exI [of _ c] exI [of _ j] conjI) assumption+
qed

lemma sorted_unique_eqI:
  assumes "sorted_unique xs" and "sorted_unique ys" and "fst ` set xs = fst ` set ys"
    and "\<And>q m n. (q, m) \<in> set xs \<Longrightarrow> (q, n) \<in> set ys \<Longrightarrow> m = n"
  shows "xs = ys"
proof -
  have keys: "map fst xs = map fst ys"
    using assms(1-3) by (intro sorted_distinct_set_unique) (auto simp: sorted_unique_def strict_sorted_iff)
  then have len: "length xs = length ys" by (metis length_map)
  show ?thesis
  proof (rule nth_equalityI [OF len])
    fix i
    assume i: "i < length xs"
    then have f: "fst (xs ! i) = fst (ys ! i)" using keys len by (metis nth_map)
    moreover have "snd (xs ! i) = snd (ys ! i)"
    proof (rule assms(4))
      show "(fst (xs ! i), snd (xs ! i)) \<in> set xs" using i by simp
      show "(fst (xs ! i), snd (ys ! i)) \<in> set ys" using i len f by simp
    qed
    ultimately show "xs ! i = ys ! i" by (simp add: prod_eq_iff)
  qed
qed

lemma total_count_unique:
  assumes "sorted_wrt (<) (map fst es)" and "e \<in> set es"
  shows "total_count (mset es) (fst e) = snd e"
  using assms
proof (induction es)
  case (Cons x es)
  have "fst x \<notin> fst ` set_mset (mset es)" using Cons.prems(1) by auto
  then have "total_count (mset es) (fst x) = 0" by (rule total_count_absent)
  then show ?case using Cons by auto
qed simp

lemma merge_one:
  assumes "fs p = Some (file_of (e # es), True)" and "sorted_unique (e # es)"
    and "newMerge (list_queue input_key) fs [p] dst False = Inr d" and "writable dst" and "\<forall>n. \<not> cancelled n"
  shows "merge_execute (list_queue input_key) writable cancelled d fs =
    Some (Inr (fs(dst \<mapsto> (file_of ((fst e, 2 * snd e) # es), True))))"
proof -
  let ?E = "\<lambda>_ :: string. e # es" and ?m = "(fst e, 2 * snd e) # es"
  have "\<forall>p' \<in> set [p]. fs p' = Some (file_of (?E p'), True) \<and> sorted_unique (?E p')" using assms(1,2) by simp
  from merge_files [of "[p]" fs ?E dst d writable cancelled, OF this not_Cons_self2 assms(3,4,5)] obtain out first j where
    run: "merge_execute (list_queue input_key) writable cancelled d fs = Some (Inr (fs(dst \<mapsto> (file_of out, True))))"
    and out: "sorted_unique out" and keys: "fst ` set out = (\<Union>p \<in> set [p]. fst ` set (?E p))"
    and fj: "\<exists>p \<in> set [p]. first = hd (?E p)" "j < length [p]"
    and cnt: "\<forall>(q, c) \<in> set out. c = (\<Sum>p \<leftarrow> [p]. total_count (mset (?E p)) q) + (if fst first = q then snd first else 0) +
       (\<Sum>i \<in> {..<length [p]} - {j}. if fst (last (?E ([p] ! i))) = q then snd (last (?E ([p] ! i))) else 0)"
    by (elim exE conjE) (rule that)
  have j: "{..<length [p]} - {j} = {}" and first: "first = e" using fj by auto
  have "out = ?m"
  proof (rule sorted_unique_eqI [OF out])
    show "sorted_unique ?m" using assms(2) by (simp add: sorted_unique_def)
    show "fst ` set out = fst ` set ?m" using keys by simp
    fix q m n
    assume q: "(q, m) \<in> set out" "(q, n) \<in> set ?m"
    then have m: "m = total_count (mset (e # es)) q + (if fst e = q then snd e else 0)"
      using cnt unfolding j first by (auto split: prod.splits)
    have u: "sorted_wrt (<) (map fst (e # es))" using assms(2) by (simp add: sorted_unique_def)
    from q(2) consider "q = fst e" "n = 2 * snd e" | "(q, n) \<in> set es" by auto
    then show "m = n"
    proof cases
      case 1
      then show ?thesis using m total_count_unique [OF u, of e] by simp
    next
      case 2
      then have "q \<noteq> fst e" using u by auto
      then show ?thesis using m total_count_unique [OF u, of "(q, n)"] 2 by simp
    qed
  qed
  then show ?thesis using run by simp
qed

text \<open>The counts as numbers: what the inputs say of a hash, and how far off a merge can be. The first
  record and a last record can be the same one, which is then counted three times.\<close>

definition weight :: "(string \<Rightarrow> entry list) \<Rightarrow> string list \<Rightarrow> quad \<Rightarrow> nat" where
  "weight E paths q = (\<Sum>p \<leftarrow> paths. \<Sum>e \<leftarrow> E p. if fst e = q then unat (snd e) else 0)"

definition counts_kept :: "(string \<Rightarrow> entry list) \<Rightarrow> string list \<Rightarrow> entry list \<Rightarrow> bool" where
  "counts_kept E paths es \<longleftrightarrow>
     (\<forall>(q, c) \<in> set es. 3 * weight E paths q < 2 ^ 32 \<longrightarrow> weight E paths q \<le> unat c \<and> unat c \<le> 3 * weight E paths q)"

lemma weight_mset:
  assumes "mset ps = mset qs"
  shows "weight E ps q = weight E qs q"
proof -
  have "weight E xs q = sum_mset (image_mset (\<lambda>p. \<Sum>e \<leftarrow> E p. if fst e = q then unat (snd e) else 0) (mset xs))" for xs
    by (simp only: weight_def mset_map [symmetric] sum_mset_sum_list)
  then show ?thesis by (simp only: assms)
qed

lemma total_count_weight: "total_count (mset es) q = word_of_nat (\<Sum>e \<leftarrow> es. if fst e = q then unat (snd e) else 0)"
  by (induction es) simp_all

lemma entry_weight:
  assumes "e \<in> set (E p)" and "p \<in> set paths" and "fst e = q"
  shows "unat (snd e) \<le> weight E paths q"
proof -
  have "unat (snd e) = (if fst e = q then unat (snd e) else 0)" using assms(3) by simp
  also have "\<dots> \<le> (\<Sum>e \<leftarrow> E p. if fst e = q then unat (snd e) else 0)"
    using assms(1) by (intro member_le_sum_list) auto
  also have "\<dots> \<le> weight E paths q"
    unfolding weight_def using assms(2) by (intro member_le_sum_list) auto
  finally show ?thesis .
qed

lemma lasts_weight:
  assumes "\<forall>p \<in> set paths. E p \<noteq> []"
  shows "(\<Sum>i \<in> {..<length paths} - {j}. if fst (last (E (paths ! i))) = q then unat (snd (last (E (paths ! i)))) else 0) \<le> weight E paths q"
proof -
  have each: "(if fst (last (E p)) = q then unat (snd (last (E p))) else 0) \<le> weight E [p] q" if "p \<in> set paths" for p
    using entry_weight [of "last (E p)" E p "[p]"] assms that by auto
  have "(\<Sum>i \<in> {..<length paths} - {j}. if fst (last (E (paths ! i))) = q then unat (snd (last (E (paths ! i)))) else 0)
    \<le> (\<Sum>i \<in> {..<length paths}. if fst (last (E (paths ! i))) = q then unat (snd (last (E (paths ! i)))) else 0)"
    by (rule sum_mono2) auto
  also have "\<dots> \<le> (\<Sum>i \<in> {..<length paths}. weight E [paths ! i] q)"
    by (intro sum_mono each) auto
  also have "\<dots> = weight E paths q"
    by (simp add: weight_def sum_list_sum_nth atLeast0LessThan)
  finally show ?thesis .
qed

lemma merge_keeps:
  assumes "\<forall>p \<in> set paths. fs p = Some (file_of (E p), True) \<and> sorted_unique (E p)" and "paths \<noteq> []"
    and "newMerge (list_queue input_key) fs paths dst False = Inr d" and "writable dst" and "\<forall>n. \<not> cancelled n"
  shows "\<exists>out. merge_execute (list_queue input_key) writable cancelled d fs = Some (Inr (fs(dst \<mapsto> (file_of out, True)))) \<and>
    sorted_unique out \<and> fst ` set out = (\<Union>p \<in> set paths. fst ` set (E p)) \<and> counts_kept E paths out"
proof -
  obtain out first j where out: "merge_execute (list_queue input_key) writable cancelled d fs = Some (Inr (fs(dst \<mapsto> (file_of out, True))))"
    "sorted_unique out" "fst ` set out = (\<Union>p \<in> set paths. fst ` set (E p))" "\<exists>p \<in> set paths. first = hd (E p)"
    and cnt: "\<forall>(q, c) \<in> set out. c = (\<Sum>p \<leftarrow> paths. total_count (mset (E p)) q) + (if fst first = q then snd first else 0) +
       (\<Sum>i \<in> {..<length paths} - {j}. if fst (last (E (paths ! i))) = q then snd (last (E (paths ! i))) else 0)"
    using merge_files [where fs = fs and paths = paths and E = E and dst = dst and d = d and writable = writable and cancelled = cancelled, OF assms]
    by (elim exE conjE) (rule that)
  have ne: "\<forall>p \<in> set paths. E p \<noteq> []" using assms(1) by (simp add: sorted_unique_def)
  have "weight E paths q \<le> unat c \<and> unat c \<le> 3 * weight E paths q" if qc: "(q, c) \<in> set out" and w: "3 * weight E paths q < 2 ^ 32" for q c
  proof -
    let ?f = "if fst first = q then unat (snd first) else 0"
    let ?l = "\<Sum>i \<in> {..<length paths} - {j}. if fst (last (E (paths ! i))) = q then unat (snd (last (E (paths ! i)))) else 0"
    have f: "?f \<le> weight E paths q" using out(4) ne hd_in_set entry_weight [of first E _ paths q] by force
    have l: "?l \<le> weight E paths q" by (rule lasts_weight [OF ne])
    have s: "(\<Sum>p \<leftarrow> paths. total_count (mset (E p)) q) = word_of_nat (weight E paths q)"
      unfolding total_count_weight weight_def by (induction paths) simp_all
    have "(\<Sum>i \<in> {..<length paths} - {j}. if fst (last (E (paths ! i))) = q then snd (last (E (paths ! i))) else 0) = (word_of_nat ?l :: u32)"
      by (simp add: of_nat_sum if_distrib [where f = word_of_nat] cong: if_cong)
    moreover have "(if fst first = q then snd first else 0) = (word_of_nat ?f :: u32)" by simp
    ultimately have "c = word_of_nat (weight E paths q + ?f + ?l)"
      using cnt qc s by auto
    moreover have "weight E paths q + ?f + ?l \<le> 3 * weight E paths q" using f l by linarith
    moreover from this w have "weight E paths q + ?f + ?l < 2 ^ 32" by (rule le_less_trans)
    ultimately have "unat c = weight E paths q + ?f + ?l" by (simp only: unsigned_of_nat) (simp add: take_bit_nat_eq_self)
    then show ?thesis using f l by linarith
  qed
  then have "counts_kept E paths out" by (auto simp: counts_kept_def)
  with out(1-3) show ?thesis by blast
qed

section \<open>Properties\<close>



text \<open>
  Merging a single file does not copy it: the count of its first record is doubled.
\<close>

theorem merge_one_file_doubles:
  assumes "fs p = Some (file_of (e # es), True)" and "sorted_unique (e # es)"
    and "newMerge (list_queue input_key) fs [p] dst False = Inr d" and "writable dst" and "\<forall>n. \<not> cancelled n"
  shows "merge_execute (list_queue input_key) writable cancelled d fs =
    Some (Inr (fs(dst \<mapsto> (file_of ((fst e, 2 * snd e) # es), True))))"
  using assms by (rule merge_one)

theorem merge_one_file_doubles_witness:
  "\<exists>d. newMerge (list_queue input_key) [''a'' \<mapsto> (file_of [(Quad 1 0, 5)], True)] [''a''] ''o'' False = Inr d \<and>
     merge_execute (list_queue input_key) (\<lambda>_. True) (\<lambda>_. False) d [''a'' \<mapsto> (file_of [(Quad 1 0, 5)], True)] =
       Some (Inr [''a'' \<mapsto> (file_of [(Quad 1 0, 5)], True), ''o'' \<mapsto> (file_of [(Quad 1 0, 10)], True)])"
proof -
  let ?fs = "[''a'' \<mapsto> (file_of [(Quad 1 0, 5)], True)] :: files"
  have ex: "\<forall>p \<in> set [''a'']. ?fs p \<noteq> None" by (simp del: not_None_eq)
  obtain d where d: "newMerge (list_queue input_key) ?fs [''a''] ''o'' False = Inr d"
    using list_merger.push_inputs_queue [of "[''a'']" ?fs, OF ex] by (force simp: newMerge_def)
  from merge_one_file_doubles [OF _ _ d, of "(Quad 1 0, 5)" "[]" "\<lambda>_. True" "\<lambda>_. False"] d show ?thesis
    by (auto simp: sorted_unique_def)
qed

end
