(* ===== verification/Uri.thy ===== *)
theory Uri
  imports Cpp_Regex Cpp_Numbers
begin

text \<open>
  \<^verbatim>\<open>pwned-server/uri.cpp\<close>: taking a URI apart with one regular expression (\<open>uri_parse\<close>, used
  for the address the server listens on and the one the load test talks to), and taking the target
  of a request apart by splitting (\<open>parseTarget\<close>, used for every request the server answers).

  \<^verbatim>\<open>boost::split\<close> is the parameter \<open>split\<close>: \<open>split s seps\<close> are the pieces of \<open>s\<close> between
  the characters of \<open>seps\<close>. What the code relies on is \<open>is_split\<close>.
\<close>

section \<open>Data\<close>

record uri =
  mIsValid :: bool
  mScheme :: string
  mUsername :: string
  mPassword :: string
  mHost :: string
  mPort :: u16
  mPath :: string
  mQuery :: "string \<rightharpoonup> string"
  mFragment :: string

definition newURI :: uri where
  "newURI = \<lparr>mIsValid = False, mScheme = [], mUsername = [], mPassword = [], mHost = [], mPort = 0,
     mPath = [], mQuery = Map.empty, mFragment = []\<rparr>"

definition SchemeToPort :: "string \<rightharpoonup> u16" where
  "SchemeToPort = [''http'' \<mapsto> 80, ''https'' \<mapsto> 443]"

section \<open>The regular expression\<close>

text \<open>The classes of the expression; \<^verbatim>\<open>9-.\<close> is the digit 9, a hyphen and a dot.\<close>

definition is_lower_digit :: "char \<Rightarrow> bool" where
  "is_lower_digit c \<longleftrightarrow> (let n = (of_char c :: nat) in 97 \<le> n \<and> n \<le> 122 \<or> 48 \<le> n \<and> n \<le> 57)"

definition scheme_char :: "char \<Rightarrow> bool" where
  "scheme_char c \<longleftrightarrow> is_lower_digit c \<or> c \<in> set ''+.-''"

definition host_char :: "char \<Rightarrow> bool" where
  "host_char c \<longleftrightarrow> is_lower_digit c \<or> c \<in> set ''-._~!$&'' \<or> c = CHR 0x27 \<or> c \<in> set ''()*+,;=''"

definition user_char :: "char \<Rightarrow> bool" where
  "user_char c \<longleftrightarrow> host_char c \<or> c = CHR '':''"

definition segment_char :: "char \<Rightarrow> bool" where
  "segment_char c \<longleftrightarrow> user_char c \<or> c = CHR ''@''"

definition path_char :: "char \<Rightarrow> bool" where
  "path_char c \<longleftrightarrow> segment_char c \<or> c = CHR ''/''"

definition query_char :: "char \<Rightarrow> bool" where
  "query_char c \<longleftrightarrow> path_char c \<or> c = CHR ''?''"

definition upper_hex :: "char \<Rightarrow> bool" where
  "upper_hex c \<longleftrightarrow> (let n = (of_char c :: nat) in 48 \<le> n \<and> n \<le> 57 \<or> 65 \<le> n \<and> n \<le> 70)"

text \<open>\<^verbatim>\<open>(?:[...]|%[0-9A-F]{2})\<close>\<close>

definition encoded :: "(char \<Rightarrow> bool) \<Rightarrow> regex" where
  "encoded P = Alt (Cls P) (Seq (literal ''%'') (times 2 (Cls upper_hex)))"

definition authority_path :: regex where
  "authority_path =
     Seq (literal ''//'')
     (Seq (opt (Seq (Group 2 (Greedy (encoded user_char))) (literal ''@'')))
     (Seq (Group 3 (Greedy (encoded host_char)))
     (Seq (opt (Seq (literal '':'') (Group 4 (Greedy (Cls is_digit)))))
          (opt (Group 5 (Seq (literal ''/'') (Greedy (encoded path_char))))))))"

definition opaque_path :: regex where
  "opaque_path =
     opt (Group 6 (Seq (opt (literal ''/'')) (Seq (plus (encoded segment_char)) (Greedy (encoded path_char)))))"

definition RE :: regex where
  "RE =
     Seq (Group 1 (plus (Cls scheme_char)))
     (Seq (literal '':'')
     (Seq (Alt authority_path opaque_path)
     (Seq (opt (Seq (literal ''?'') (Group 7 (Greedy (encoded query_char)))))
          (opt (Seq (literal ''#'') (Group 8 (Greedy (encoded query_char))))))))"

section \<open>Operations\<close>

type_synonym splitter = "string \<Rightarrow> string \<Rightarrow> string list"

text \<open>\<^verbatim>\<open>m[k].str()\<close>: empty for a group that took no part in the match.\<close>

definition str_of :: "captures \<Rightarrow> nat \<Rightarrow> string" where
  "str_of m k = (case m k of None \<Rightarrow> [] | Some s \<Rightarrow> s)"

text \<open>One \<^verbatim>\<open>key=value\<close>; a parameter of another shape makes a URI invalid, but not a target.\<close>

definition add_param :: "splitter \<Rightarrow> string \<Rightarrow> uri \<Rightarrow> uri" where
  "add_param split param u =
     (let pair = split param ''='' in
      if length pair = 2 then u\<lparr>mQuery := (mQuery u)(pair ! 0 \<mapsto> pair ! 1)\<rparr>
      else u\<lparr>mIsValid := False\<rparr>)"

definition add_target_param :: "splitter \<Rightarrow> string \<Rightarrow> uri \<Rightarrow> uri" where
  "add_target_param split param u =
     (let pair = split param ''='' in
      if length pair = 2 then u\<lparr>mQuery := (mQuery u)(pair ! 0 \<mapsto> pair ! 1)\<rparr> else u)"

definition parse_credentials :: "splitter \<Rightarrow> string \<Rightarrow> uri \<Rightarrow> uri" where
  "parse_credentials split credentials u =
     (let kv = split credentials '':'' in
      if length kv = 2 then u\<lparr>mUsername := kv ! 0, mPassword := kv ! 1\<rparr> else u\<lparr>mIsValid := False\<rparr>)"

definition parse_port :: "string \<Rightarrow> uri \<Rightarrow> number_error + uri" where
  "parse_port digits u =
     (if digits \<noteq> []
      then (case stoi digits of Inl e \<Rightarrow> Inl e | Inr p \<Rightarrow> Inr (u\<lparr>mPort := word_of_int p\<rparr>))
      else (case SchemeToPort (mScheme u) of None \<Rightarrow> Inr u | Some p \<Rightarrow> Inr (u\<lparr>mPort := p\<rparr>)))"

text \<open>The expression is anchored at both ends, so that searching is matching; it has eight groups, so
  that every test of \<^verbatim>\<open>m.size()\<close> holds after a match. \<^verbatim>\<open>std::stoi\<close> may throw.\<close>

definition uri_parse :: "splitter \<Rightarrow> string \<Rightarrow> uri \<Rightarrow> number_error + uri" where
  "uri_parse split s u =
     (let u = u\<lparr>mIsValid := True\<rparr> in
      case regex_match RE s of
        None \<Rightarrow> Inr u
      | Some m \<Rightarrow>
          (let u = u\<lparr>mScheme := str_of m 1\<rparr>;
               u = parse_credentials split (str_of m 2) u;
               u = u\<lparr>mHost := str_of m 3\<rparr>
           in case parse_port (str_of m 4) u of
                Inl e \<Rightarrow> Inl e
              | Inr u \<Rightarrow>
                  (let u = u\<lparr>mPath := str_of m 5\<rparr>;
                       u = fold (add_param split) (split (str_of m 7) ''&'') u
                   in Inr (u\<lparr>mFragment := str_of m 8\<rparr>))))"

definition URI :: "splitter \<Rightarrow> string \<Rightarrow> number_error + uri" where
  "URI split s = uri_parse split s newURI"

definition parseTarget :: "splitter \<Rightarrow> string \<Rightarrow> uri \<Rightarrow> uri" where
  "parseTarget split target u =
     (let pathAndQuery = split target ''?'';
          u = (if length pathAndQuery > 0 then u\<lparr>mPath := pathAndQuery ! 0\<rparr> else u)
      in if length pathAndQuery > 1
         then let queryAndFragment = split (pathAndQuery ! 1) ''#'';
                  u = (if length queryAndFragment > 0
                       then fold (add_target_param split) (split (queryAndFragment ! 0) ''&'') u else u)
              in if length queryAndFragment > 1 then u\<lparr>mFragment := queryAndFragment ! 1\<rparr> else u
         else u)"

section \<open>Splitting\<close>

text \<open>What \<^verbatim>\<open>boost::split\<close> does with \<^verbatim>\<open>is_any_of\<close> of one character: the pieces, at least one,
  do not hold the separator, and joined with it they give the string.\<close>

fun join_with :: "char \<Rightarrow> string list \<Rightarrow> string" where
  "join_with c [] = []"
| "join_with c [p] = p"
| "join_with c (p # ps) = p @ c # join_with c ps"

definition is_split :: "splitter \<Rightarrow> bool" where
  "is_split split \<longleftrightarrow>
     (\<forall>s c. split s [c] \<noteq> [] \<and> join_with c (split s [c]) = s \<and> (\<forall>p \<in> set (split s [c]). c \<notin> set p))"

fun split_on :: "splitter" where
  "split_on [] seps = [[]]"
| "split_on (c # s) seps =
     (if c \<in> set seps then [] # split_on s seps
      else (case split_on s seps of [] \<Rightarrow> [[c]] | p # ps \<Rightarrow> (c # p) # ps))"

lemma join_with_Cons: "ps \<noteq> [] \<Longrightarrow> join_with c (p # ps) = p @ c # join_with c ps"
  by (cases ps) auto

lemma split_on_not_Nil [simp]: "split_on s seps \<noteq> []"
  by (induction s) (auto split: list.splits)

lemma is_split_on: "is_split split_on"
proof -
  have "split_on s [c] \<noteq> [] \<and> join_with c (split_on s [c]) = s \<and> (\<forall>p \<in> set (split_on s [c]). c \<notin> set p)" for s c
  proof (induction s)
    case (Cons a s)
    obtain p ps where p: "split_on s [c] = p # ps" by (meson split_on_not_Nil neq_Nil_conv)
    then show ?case using Cons by (cases ps) (auto simp: join_with_Cons)
  qed simp
  then show ?thesis by (simp add: is_split_def)
qed

text \<open>There is only one way to split.\<close>

lemma append_sep_eq:
  assumes "p @ c # s = q @ c # t" and "c \<notin> set p" and "c \<notin> set q"
  shows "p = q \<and> s = t"
  using assms by (induction p arbitrary: q) (auto simp: Cons_eq_append_conv)

lemma join_with_inj:
  "\<lbrakk>ps \<noteq> []; qs \<noteq> []; \<forall>p \<in> set ps. c \<notin> set p; \<forall>q \<in> set qs. c \<notin> set q; join_with c ps = join_with c qs\<rbrakk> \<Longrightarrow> ps = qs"
proof (induction ps arbitrary: qs)
  case (Cons p ps)
  obtain q qs' where q: "qs = q # qs'" using Cons.prems(2) by (cases qs) auto
  have sep: "c \<in> set (join_with c (x # y # z))" for x y z by simp
  show ?case
  proof (cases "ps = [] \<or> qs' = []")
    case True
    then show ?thesis
    proof
      assume "ps = []"
      then show ?thesis using Cons.prems q sep [of q] by (cases qs') auto
    next
      assume "qs' = []"
      then show ?thesis using Cons.prems q sep [of p] by (cases ps) auto
    qed
  next
    case False
    then have "p @ c # join_with c ps = q @ c # join_with c qs'"
      using Cons.prems(5) q by (simp add: join_with_Cons)
    from append_sep_eq [OF this] Cons.prems(3,4) q have "p = q" "join_with c ps = join_with c qs'" by auto
    then show ?thesis using Cons.IH [of qs'] Cons.prems(3,4) q False by auto
  qed
qed simp

lemma is_split_join:
  assumes "is_split split" and "ps \<noteq> []" and "\<forall>p \<in> set ps. c \<notin> set p"
  shows "split (join_with c ps) [c] = ps"
  using assms join_with_inj [of "split (join_with c ps) [c]" ps c] by (auto simp: is_split_def)

lemma is_split_one: "is_split split \<Longrightarrow> c \<notin> set s \<Longrightarrow> split s [c] = [s]"
  using is_split_join [of split "[s]" c] by simp

lemma is_split_two: "is_split split \<Longrightarrow> c \<notin> set s \<Longrightarrow> c \<notin> set t \<Longrightarrow> split (s @ c # t) [c] = [s, t]"
  using is_split_join [of split "[s, t]" c] by simp

lemma is_split_length:
  assumes "is_split split"
  shows "length (split s [c]) = Suc (count_list s c)"
proof -
  have "count_list (join_with c ps) c = length ps - 1" if "ps \<noteq> []" "\<forall>p \<in> set ps. c \<notin> set p" for ps
    using that
  proof (induction ps)
    case (Cons p ps)
    then show ?case by (cases ps) (auto simp: join_with_Cons count_list_0_iff)
  qed simp
  moreover have "split s [c] \<noteq> []" "\<forall>p \<in> set (split s [c]). c \<notin> set p" "join_with c (split s [c]) = s"
    using assms by (auto simp: is_split_def)
  ultimately show ?thesis by (metis Suc_pred' length_greater_0_conv)
qed

section \<open>Targets\<close>

text \<open>The text of a request target with the given path, parameters and fragment.\<close>

definition plain :: "string \<Rightarrow> bool" where
  "plain s \<longleftrightarrow> set s \<inter> set ''?#&='' = {}"

definition param_text :: "string \<times> string \<Rightarrow> string" where
  "param_text kv = fst kv @ CHR ''='' # snd kv"

definition target_text :: "string \<Rightarrow> (string \<times> string) list \<Rightarrow> string \<Rightarrow> string" where
  "target_text p ps f = p @ CHR ''?'' # join_with (CHR ''&'') (map param_text ps) @ CHR ''#'' # f"

lemma join_with_notin:
  "\<forall>p \<in> set ps. d \<notin> set p \<Longrightarrow> c \<noteq> d \<Longrightarrow> d \<notin> set (join_with c ps)"
  by (induction c ps rule: join_with.induct) auto

lemma fold_add_target_param:
  assumes "is_split split" and "\<forall>(k, v) \<in> set ps. plain k \<and> plain v"
  shows "fold (add_target_param split) (map param_text ps) u = u\<lparr>mQuery := mQuery u ++ map_of (rev ps)\<rparr>"
  using assms(2)
proof (induction ps arbitrary: u)
  case (Cons kv ps)
  obtain k v where kv: "kv = (k, v)" by (cases kv)
  have "split (param_text kv) [CHR ''=''] = [k, v]"
    using Cons.prems kv by (auto simp: param_text_def plain_def intro!: is_split_two [OF assms(1)])
  then show ?case using Cons kv by (simp add: add_target_param_def map_add_upd_left)
qed simp

lemma parseTarget_text:
  assumes "is_split split" and "plain p" and "ps \<noteq> []" and "\<forall>(k, v) \<in> set ps. plain k \<and> plain v" and "plain f"
  shows "parseTarget split (target_text p ps f) u =
    u\<lparr>mPath := p, mQuery := mQuery u ++ map_of (rev ps), mFragment := f\<rparr>"
proof -
  let ?q = "join_with (CHR ''&'') (map param_text ps)"
  have parts: "d \<notin> set (param_text kv)" if "d \<in> set ''?#&''" "kv \<in> set ps" for d kv
    using that assms(4) by (cases kv) (auto simp: param_text_def plain_def)
  have q: "d \<notin> set ?q" if "d \<in> set ''?#''" for d
    using that parts by (intro join_with_notin) auto
  have "split (target_text p ps f) ''?'' = [p, ?q @ CHR ''#'' # f]"
    unfolding target_text_def using q assms(2,5) by (intro is_split_two [OF assms(1)]) (auto simp: plain_def)
  moreover have "split (?q @ CHR ''#'' # f) ''#'' = [?q, f]"
    using q assms(5) by (intro is_split_two [OF assms(1)]) (auto simp: plain_def)
  moreover have "split ?q ''&'' = map param_text ps"
    using assms(3) parts by (intro is_split_join [OF assms(1)]) auto
  ultimately show ?thesis
    by (simp add: parseTarget_def fold_add_target_param [OF assms(1,4)])
qed

text \<open>A target without a fragment, with one parameter.\<close>

lemma parseTarget_query:
  assumes "is_split split" and "plain p" and "plain k" and "plain v"
  shows "parseTarget split (p @ CHR ''?'' # k @ CHR ''='' # v) u = u\<lparr>mPath := p, mQuery := (mQuery u)(k \<mapsto> v)\<rparr>"
proof -
  let ?q = "k @ CHR ''='' # v"
  have "split (p @ CHR ''?'' # ?q) ''?'' = [p, ?q]" and "split ?q ''='' = [k, v]"
    using assms(2-4) by (auto simp: plain_def intro!: is_split_two [OF assms(1)])
  moreover have "split ?q ''#'' = [?q]" and "split ?q ''&'' = [?q]"
    using assms(3,4) by (auto simp: plain_def intro!: is_split_one [OF assms(1)])
  ultimately show ?thesis by (simp add: parseTarget_def add_target_param_def)
qed

section \<open>Validity\<close>

lemma add_param_valid:
  assumes "is_split split"
  shows "mIsValid (fold (add_param split) ps u) \<longleftrightarrow> mIsValid u \<and> (\<forall>p \<in> set ps. count_list p (CHR ''='') = 1)"
  by (induction ps arbitrary: u) (auto simp: add_param_def Let_def is_split_length [OF assms])

lemma parse_port_default: "\<exists>u'. parse_port [] u = Inr u'"
  by (auto simp: parse_port_def split: option.splits)

lemma uri_parse_no_port:
  assumes "regex_match RE s = Some m" and "str_of m 4 = []"
  shows "\<exists>u'. uri_parse split s u = Inr u'"
proof -
  obtain v where "parse_port [] (parse_credentials split (str_of m 2) (u\<lparr>mIsValid := True, mScheme := str_of m 1\<rparr>)\<lparr>mHost := str_of m 3\<rparr>) = Inr v"
    using parse_port_default by blast
  then show ?thesis using assms by (simp add: uri_parse_def Let_def)
qed

lemma uri_parse_valid:
  assumes "is_split split" and "uri_parse split s u = Inr u'"
  shows "mIsValid u' \<longleftrightarrow> (case regex_match RE s of None \<Rightarrow> True | Some m \<Rightarrow>
    count_list (str_of m 2) (CHR '':'') = 1 \<and> (\<forall>p \<in> set (split (str_of m 7) ''&''). count_list p (CHR ''='') = 1))"
proof (cases "regex_match RE s")
  case None
  then show ?thesis using assms(2) by (auto simp: uri_parse_def)
next
  case (Some m)
  let ?u = "parse_credentials split (str_of m 2) (u\<lparr>mIsValid := True, mScheme := str_of m 1\<rparr>)\<lparr>mHost := str_of m 3\<rparr>"
  obtain v where v: "parse_port (str_of m 4) ?u = Inr v"
    "u' = fold (add_param split) (split (str_of m 7) ''&'') (v\<lparr>mPath := str_of m 5\<rparr>)\<lparr>mFragment := str_of m 8\<rparr>"
    using assms(2) Some by (auto simp: uri_parse_def Let_def split: sum.splits)
  have "mIsValid v = mIsValid ?u"
    using v(1) by (auto simp: parse_port_def split: if_splits sum.splits option.splits)
  moreover have "mIsValid ?u \<longleftrightarrow> count_list (str_of m 2) (CHR '':'') = 1"
    by (simp add: parse_credentials_def Let_def is_split_length [OF assms(1)])
  ultimately show ?thesis using Some v(2) by (simp add: add_param_valid [OF assms(1)])
qed

section \<open>Properties\<close>

text \<open>
  C22: Taking a request target apart gives back the path, the parameters and the fragment it was put
  together from; of two parameters with the same key the later one counts, and parameters from an
  earlier target are kept.
\<close>

theorem parseTarget_roundtrip:
  assumes "is_split split" and "plain p" and "ps \<noteq> []" and "\<forall>(k, v) \<in> set ps. plain k \<and> plain v" and "plain f"
  shows "parseTarget split (target_text p ps f) u =
    u\<lparr>mPath := p, mQuery := mQuery u ++ map_of (rev ps), mFragment := f\<rparr>"
  using assms by (rule parseTarget_text)

theorem parseTarget_roundtrip_witness:
  "parseTarget split_on ''/lookup?hash=ab&x=1#top'' newURI =
     newURI\<lparr>mPath := ''/lookup'', mQuery := [''hash'' \<mapsto> ''ab'', ''x'' \<mapsto> ''1''], mFragment := ''top''\<rparr>"
  using parseTarget_roundtrip [OF is_split_on, of "''/lookup''" "[(''hash'', ''ab''), (''x'', ''1'')]" "''top''" newURI]
  by (simp add: plain_def target_text_def param_text_def newURI_def fun_upd_twist)

text \<open>
  When a parsed URI counts as valid: always if it does not have the form of a URI at all;
  otherwise only if it holds credentials of the form user:password and a query in which every
  parameter has exactly one equals sign.
\<close>

theorem uri_valid_iff:
  assumes "is_split split" and "uri_parse split s u = Inr u'"
  shows "mIsValid u' \<longleftrightarrow> (case regex_match RE s of None \<Rightarrow> True | Some m \<Rightarrow>
    count_list (str_of m 2) (CHR '':'') = 1 \<and> (\<forall>p \<in> set (split (str_of m 7) ''&''). count_list p (CHR ''='') = 1))"
  using assms by (rule uri_parse_valid)

theorem uri_valid_iff_witness:
  "\<exists>u v. URI split_on ''http://h/'' = Inr u \<and> \<not> mIsValid u \<and> URI split_on ''???'' = Inr v \<and> mIsValid v"
proof -
  have "\<not> Option.is_none (regex_match RE ''http://h/'')" by code_simp
  then obtain m where r: "regex_match RE ''http://h/'' = Some m" by (auto simp: Option.is_none_def)
  have "str_of (the (regex_match RE ''http://h/'')) 2 = []" "str_of (the (regex_match RE ''http://h/'')) 4 = []"
    by code_simp+
  with r have m: "regex_match RE ''http://h/'' = Some m" "str_of m 2 = []" "str_of m 4 = []" by simp_all
  have "Option.is_none (regex_match RE ''???'')" by code_simp
  then have n: "regex_match RE ''???'' = None" by (simp add: Option.is_none_def)
  obtain u where u: "URI split_on ''http://h/'' = Inr u"
    using uri_parse_no_port [OF m(1,3)] by (auto simp: URI_def)
  obtain v where v: "URI split_on ''???'' = Inr v" using n by (auto simp: URI_def uri_parse_def)
  show ?thesis
    using u v uri_valid_iff [OF is_split_on u [unfolded URI_def]] uri_valid_iff [OF is_split_on v [unfolded URI_def]] m n
    by auto
qed

end
