(* ===== verification/Http_Worker.thy ===== *)
theory Http_Worker
  imports Uri Lookup_Cli "HOL-Library.Sublist"
begin

text \<open>
  \<^verbatim>\<open>pwned-server/httpworker.cpp\<close>: one of the workers of the web service. A worker is a chain of
  asynchronous operations: accept a connection, read a request, write the answer, accept again; and
  a timer that closes the socket of a client that is too slow. The handlers are functions on the
  state of the worker; \<open>worker_step\<close> says which handler may run when.

  The library parameters (\<open>web\<close>) are boost's: \<^verbatim>\<open>split\<close>, \<^verbatim>\<open>write_json\<close> for a flat tree of
  strings without line breaks, \<^verbatim>\<open>replace_all\<close> and \<^verbatim>\<open>prepare_payload\<close>. A request is what
  beast's parser delivers: its method, its target, and with it the time stamp for the log line, the
  text of the measured duration, and the address of the peer. The address is \<open>None\<close> when
  \<^verbatim>\<open>mSocket.remote_endpoint()\<close> throws: the peer has reset the connection, or the timer has closed the
  socket. Nothing between that call and \<^verbatim>\<open>ioc.run()\<close> catches the exception, so it ends the process:
  the threads run \<^verbatim>\<open>ioc.run()\<close> without a handler, and the handler in \<^verbatim>\<open>main\<close> unwinds a vector of
  threads that are still joinable. (\<^verbatim>\<open>mSocket.close()\<close> in \<^verbatim>\<open>checkTimeout\<close> may throw in the same way
  when the system reports an error; this is left out, and so are two handlers of the same worker that
  run at the same time in different threads.)
\<close>

section \<open>Data\<close>

datatype verb = GET | OtherVerb string

record request =
  req_method :: verb
  req_target :: string

datatype http_status = status_ok | status_bad_request | status_not_found

record response =
  res_status :: http_status
  res_fields :: "(string \<times> string) list"
  res_body :: string

record web =
  w_split :: splitter
  w_write_json :: "(string \<times> string) list \<Rightarrow> string"
  w_replace_all :: "string \<Rightarrow> string \<Rightarrow> string \<Rightarrow> string"
  w_prepare_payload :: "response \<Rightarrow> response"

text \<open>Operations in flight on the socket.\<close>

datatype pending = Accepting | Reading | Writing

text \<open>\<open>mSent\<close> is not part of the class: it records the responses handed to \<^verbatim>\<open>async_write\<close>, and
  \<open>mLogged\<close> the lines given to the callback. An expiry of \<open>None\<close> is \<^verbatim>\<open>time_point::max()\<close>;
  waits on the timer are counted, those cancelled by a new expiry separately.\<close>

record worker =
  mBasePath :: string
  mInspector :: inspector
  mHasLog :: bool
  mLastUpdated :: int
  mSocketOpen :: bool
  mBuffer :: nat
  mParser :: bool
  mExpiry :: "int option"
  mWaits :: nat
  mCancelledWaits :: nat
  mResponse :: "response option"
  mSerializer :: bool
  mPending :: "pending list"
  mSent :: "response list"
  mLogged :: "string list"

definition Timeout :: int where
  "Timeout = 60"

definition PWNED_SERVER_VERSION :: string where
  "PWNED_SERVER_VERSION = ''1.0.1''"

definition server_name :: string where
  "server_name = ''#pwned server '' @ PWNED_SERVER_VERSION"

section \<open>Handlers\<close>

text \<open>The constructor; \<open>last_write\<close> is \<^verbatim>\<open>fs::last_write_time\<close>.\<close>

definition newWorker ::
  "files \<Rightarrow> (string \<Rightarrow> int) \<Rightarrow> string \<Rightarrow> string \<Rightarrow> string \<Rightarrow> bool \<Rightarrow> fs_error + worker" where
  "newWorker fs last_write basePath inputFilename indexFilename hasLog =
     (case inspector_open_index fs newInspector inputFilename indexFilename of
        Inl e \<Rightarrow> Inl e
      | Inr (_, d) \<Rightarrow>
          Inr \<lparr>mBasePath = basePath, mInspector = d, mHasLog = hasLog, mLastUpdated = last_write inputFilename,
               mSocketOpen = False, mBuffer = 0, mParser = False, mExpiry = None, mWaits = 0, mCancelledWaits = 0,
               mResponse = None, mSerializer = False, mPending = [], mSent = [], mLogged = []\<rparr>)"

definition set_expiry :: "int option \<Rightarrow> worker \<Rightarrow> worker" where
  "set_expiry t w = w\<lparr>mExpiry := t, mCancelledWaits := mCancelledWaits w + mWaits w, mWaits := 0\<rparr>"

definition accept :: "worker \<Rightarrow> worker" where
  "accept w = w\<lparr>mSocketOpen := False, mBuffer := 0, mPending := Accepting # mPending w\<rparr>"

definition checkTimeout :: "int \<Rightarrow> worker \<Rightarrow> worker" where
  "checkTimeout now w =
     (let w = (case mExpiry w of
                 None \<Rightarrow> w
               | Some t \<Rightarrow> if t \<le> now then set_expiry None (w\<lparr>mSocketOpen := False\<rparr>) else w)
      in w\<lparr>mWaits := mWaits w + 1\<rparr>)"

definition start :: "int \<Rightarrow> worker \<Rightarrow> worker" where
  "start now w = checkTimeout now (accept w)"

definition readRequest :: "worker \<Rightarrow> worker" where
  "readRequest w = w\<lparr>mParser := True, mPending := Reading # mPending w\<rparr>"

definition accepted :: "int \<Rightarrow> bool \<Rightarrow> worker \<Rightarrow> worker" where
  "accepted now ec w =
     (if ec then accept w else readRequest (set_expiry (Some (now + Timeout)) (w\<lparr>mSocketOpen := True\<rparr>)))"

text \<open>\<^verbatim>\<open>async_write\<close> with the response just made, and its completion.\<close>

definition write_response :: "worker \<Rightarrow> worker" where
  "write_response w =
     w\<lparr>mSerializer := True, mPending := Writing # mPending w,
       mSent := (case mResponse w of None \<Rightarrow> mSent w | Some r \<Rightarrow> mSent w @ [r])\<rparr>"

definition written :: "worker \<Rightarrow> worker" where
  "written w = accept (w\<lparr>mSerializer := False, mResponse := None\<rparr>)"

definition makeResponse :: "web \<Rightarrow> string \<Rightarrow> response" where
  "makeResponse lib msg =
     w_prepare_payload lib
       \<lparr>res_status = status_ok,
        res_fields = [(''Server'', server_name), (''Content-Type'', ''application/json''), (''Access-Control-Allow-Origin'', ''*'')],
        res_body = msg\<rparr>"

definition sendBadResponse :: "web \<Rightarrow> http_status \<Rightarrow> string \<Rightarrow> worker \<Rightarrow> worker" where
  "sendBadResponse lib status err w =
     write_response
       (w\<lparr>mResponse := Some (w_prepare_payload lib
            \<lparr>res_status = status, res_fields = [(''Server'', server_name), (''Content-Type'', ''text/plain'')], res_body = err\<rparr>)\<rparr>)"

definition lookup_body :: "web \<Rightarrow> hash \<Rightarrow> phc \<Rightarrow> string \<Rightarrow> string" where
  "lookup_body lib h p ms =
     (let s = w_write_json lib [(''hash'', toString False h), (''found'', ''[found]''), (''lookup-time-ms'', ''[lookup-time-ms]'')];
          s = w_replace_all lib s ''\"[found]\"'' (decimal (unat (phc_count p)))
      in w_replace_all lib s ''\"[lookup-time-ms]\"'' ms)"

definition info_body :: "web \<Rightarrow> int \<Rightarrow> int \<Rightarrow> string" where
  "info_body lib sz updated =
     (let s = w_write_json lib [(''count'', ''[count]''), (''last-update'', ''[last-update]'')];
          s = w_replace_all lib s ''\"[count]\"'' (decimal_int sz)
      in w_replace_all lib s ''\"[last-update]\"'' (decimal_int updated))"

text \<open>What becomes of a handler: it ends (\<open>Handled\<close>), an exception leaves it (\<open>Thrown\<close>), or the
  search does not return (\<open>Stuck\<close>).\<close>

datatype handled = Handled worker | Thrown worker | Stuck

definition sendResponse :: "web \<Rightarrow> string \<Rightarrow> string option \<Rightarrow> string \<Rightarrow> request \<Rightarrow> worker \<Rightarrow> handled" where
  "sendResponse lib stamp peer ms req w =
     (let u = parseTarget (w_split lib) (req_target req) newURI
      in if mHasLog w \<and> peer = None then Thrown w
         else let w = (if mHasLog w then w\<lparr>mLogged := mLogged w @ [stamp @ '' '' @ the peer @ '' '' @ req_target req]\<rparr> else w)
              in if mPath u = mBasePath w @ ''/lookup'' \<and> mQuery u ''hash'' \<noteq> None
                 then let h = fromHex (the (mQuery u ''hash'')) in
                      case binsearch (mInspector w) h of
                        None \<Rightarrow> Stuck
                      | Some (p, _, d) \<Rightarrow>
                          Handled (write_response
                            (w\<lparr>mInspector := d, mResponse := Some (makeResponse lib (lookup_body lib h p ms))\<rparr>))
                 else if mPath u = mBasePath w @ ''/info''
                 then Handled (write_response
                        (w\<lparr>mResponse := Some (makeResponse lib (info_body lib (inspector_size (mInspector w)) (mLastUpdated w)))\<rparr>))
                 else Handled (sendBadResponse lib status_not_found [] w))"

definition processRequest :: "web \<Rightarrow> string \<Rightarrow> string option \<Rightarrow> string \<Rightarrow> request \<Rightarrow> worker \<Rightarrow> handled" where
  "processRequest lib stamp peer ms req w =
     (case req_method req of
        GET \<Rightarrow> sendResponse lib stamp peer ms req w
      | OtherVerb name \<Rightarrow>
          Handled (sendBadResponse lib status_bad_request
                     (''Invalid request method '' @ [CHR 0x27] @ name @ [CHR 0x27, CHR 0x0D, CHR 0x0A]) w))"

definition was_read :: "web \<Rightarrow> string \<Rightarrow> string option \<Rightarrow> string \<Rightarrow> request option \<Rightarrow> worker \<Rightarrow> handled" where
  "was_read lib stamp peer ms req w =
     (case req of None \<Rightarrow> Handled (accept w) | Some r \<Rightarrow> processRequest lib stamp peer ms r w)"

section \<open>Events\<close>

text \<open>What may happen to a worker: an operation in flight completes and its handler runs. A wait on
  the timer completes when it was cancelled or the expiry has been reached. A socket the timer has
  closed has no peer any more. \<open>worker_throws\<close> are the events whose handler ends by an exception,
  after which there is no worker any more.\<close>

datatype event =
    Accepted int bool
  | WasRead string "string option" string "request option"
  | Written
  | TimerExpired int
  | TimerCancelled int

inductive worker_step :: "web \<Rightarrow> worker \<Rightarrow> event \<Rightarrow> worker \<Rightarrow> bool" for lib where
  Accepted: "Accepting \<in> set (mPending w) \<Longrightarrow>
    worker_step lib w (Accepted now ec) (accepted now ec (w\<lparr>mPending := remove1 Accepting (mPending w)\<rparr>))"
| WasRead: "Reading \<in> set (mPending w) \<Longrightarrow> mSocketOpen w \<or> peer = None \<Longrightarrow>
    was_read lib stamp peer ms req (w\<lparr>mPending := remove1 Reading (mPending w)\<rparr>) = Handled w' \<Longrightarrow>
    worker_step lib w (WasRead stamp peer ms req) w'"
| Written: "Writing \<in> set (mPending w) \<Longrightarrow>
    worker_step lib w Written (written (w\<lparr>mPending := remove1 Writing (mPending w)\<rparr>))"
| TimerExpired: "mWaits w > 0 \<Longrightarrow> mExpiry w = Some t \<Longrightarrow> t \<le> now \<Longrightarrow>
    worker_step lib w (TimerExpired now) (checkTimeout now (w\<lparr>mWaits := mWaits w - 1\<rparr>))"
| TimerCancelled: "mCancelledWaits w > 0 \<Longrightarrow>
    worker_step lib w (TimerCancelled now) (checkTimeout now (w\<lparr>mCancelledWaits := mCancelledWaits w - 1\<rparr>))"

inductive worker_throws :: "web \<Rightarrow> worker \<Rightarrow> event \<Rightarrow> worker \<Rightarrow> bool" for lib where
  WasRead: "Reading \<in> set (mPending w) \<Longrightarrow> mSocketOpen w \<or> peer = None \<Longrightarrow>
    was_read lib stamp peer ms req (w\<lparr>mPending := remove1 Reading (mPending w)\<rparr>) = Thrown w' \<Longrightarrow>
    worker_throws lib w (WasRead stamp peer ms req) w'"

inductive runs_to :: "web \<Rightarrow> worker \<Rightarrow> event list \<Rightarrow> worker \<Rightarrow> bool" for lib where
  start: "runs_to lib w [] w"
| step: "runs_to lib w es w' \<Longrightarrow> worker_step lib w' e w'' \<Longrightarrow> runs_to lib w (es @ [e]) w''"

section \<open>The invariant of a worker\<close>

text \<open>One operation in flight on the socket, one wait on the timer, a response exactly while it is
  being written.\<close>

definition worker_inv :: "worker \<Rightarrow> bool" where
  "worker_inv w \<longleftrightarrow> length (mPending w) = 1 \<and> mWaits w + mCancelledWaits w = 1 \<and>
     (mResponse w \<noteq> None \<longleftrightarrow> Writing \<in> set (mPending w)) \<and> (mSerializer w \<longleftrightarrow> mResponse w \<noteq> None)"

text \<open>The state between the end of one operation on the socket and the start of the next.\<close>

definition worker_idle :: "worker \<Rightarrow> bool" where
  "worker_idle w \<longleftrightarrow> mPending w = [] \<and> mWaits w + mCancelledWaits w = 1 \<and> mResponse w = None \<and> \<not> mSerializer w"

lemma remove1_single: "length xs = 1 \<Longrightarrow> x \<in> set xs \<Longrightarrow> remove1 x xs = []"
  by (cases xs) auto

lemma worker_idleI:
  assumes "worker_inv w" and "p \<in> set (mPending w)" and "p \<noteq> Writing"
  shows "worker_idle (w\<lparr>mPending := remove1 p (mPending w)\<rparr>)"
proof -
  have "mPending w = [p]" using assms(1,2) by (cases "mPending w") (auto simp: worker_inv_def)
  then show ?thesis using assms by (auto simp: worker_inv_def worker_idle_def)
qed

lemma idle_accept: "worker_idle w \<Longrightarrow> worker_inv (accept w)"
  by (auto simp: worker_idle_def worker_inv_def accept_def)

lemma idle_accepted: "worker_idle w \<Longrightarrow> worker_inv (accepted now ec w)"
  by (auto simp: worker_idle_def worker_inv_def accepted_def accept_def readRequest_def set_expiry_def)

lemma idle_write: "worker_idle w \<Longrightarrow> worker_inv (write_response (w\<lparr>mResponse := Some r\<rparr>))"
  by (auto simp: worker_idle_def worker_inv_def write_response_def)

lemma idle_log: "worker_idle w \<Longrightarrow> worker_idle (w\<lparr>mLogged := l\<rparr>)"
  by (simp add: worker_idle_def)

lemma idle_inspector: "worker_idle w \<Longrightarrow> worker_idle (w\<lparr>mInspector := d\<rparr>)"
  by (simp add: worker_idle_def)

text \<open>Every way of answering a request hands one response to the socket.\<close>

definition answered :: "worker \<Rightarrow> response \<Rightarrow> worker \<Rightarrow> bool" where
  "answered w r w' \<longleftrightarrow> worker_inv w' \<and> mSent w' = mSent w @ [r]"

lemma answered_write:
  "worker_idle w \<Longrightarrow> mSent w = mSent v \<Longrightarrow> answered v r (write_response (w\<lparr>mResponse := Some r\<rparr>))"
  by (simp add: answered_def idle_write) (simp add: write_response_def)

lemma processRequest_answers:
  assumes "worker_idle w" and "processRequest lib stamp peer ms req w = Handled w'"
  shows "\<exists>r. answered w r w'"
proof -
  let ?w = "if mHasLog w then w\<lparr>mLogged := mLogged w @ [stamp @ '' '' @ the peer @ '' '' @ req_target req]\<rparr> else w"
  have w: "worker_idle ?w" "mSent ?w = mSent w" "worker_idle (?w\<lparr>mInspector := d\<rparr>)" for d
    using assms(1) by (simp_all add: worker_idle_def)
  have "\<exists>r. answered w r w'" if "sendResponse lib stamp peer ms req w = Handled w'"
    using that answered_write [OF w(1,2)] answered_write [OF w(3), of _ w] w(2)
    unfolding sendResponse_def sendBadResponse_def Let_def
    by (simp del: if_split split: if_split_asm option.splits prod.splits) metis+
  then show ?thesis
    using assms answered_write [OF assms(1) refl]
    by (auto simp: processRequest_def sendBadResponse_def split: verb.splits)
qed

text \<open>The handler of a request throws exactly when the address is needed and cannot be had.\<close>

lemma processRequest_throws:
  "processRequest lib stamp peer ms req w = Thrown w' \<longleftrightarrow>
     req_method req = GET \<and> mHasLog w \<and> peer = None \<and> w' = w"
  by (auto simp: processRequest_def sendResponse_def Let_def split: verb.splits option.splits)

lemma timer_inv:
  assumes "mWaits w + mCancelledWaits w = 0" and "length (mPending w) = 1"
    and "mResponse w \<noteq> None \<longleftrightarrow> Writing \<in> set (mPending w)" and "mSerializer w \<longleftrightarrow> mResponse w \<noteq> None"
  shows "worker_inv (checkTimeout now w)"
  using assms by (auto simp: checkTimeout_def worker_inv_def set_expiry_def Let_def split: option.splits)

lemma checkTimeout_sent [simp]: "mSent (checkTimeout now w) = mSent w"
  by (simp add: checkTimeout_def set_expiry_def Let_def split: option.splits)

lemma accepted_sent [simp]: "mSent (accepted now ec w) = mSent w"
  by (simp add: accepted_def accept_def readRequest_def set_expiry_def)

definition is_request :: "event \<Rightarrow> bool" where
  "is_request e \<longleftrightarrow> (case e of WasRead _ _ _ (Some _) \<Rightarrow> True | _ \<Rightarrow> False)"

lemma step_inv:
  assumes "worker_step lib w e w'" and "worker_inv w"
  shows "worker_inv w' \<and> length (mSent w') = length (mSent w) + (if is_request e then 1 else 0)"
  using assms
proof (cases rule: worker_step.cases)
  case (Accepted now ec)
  then show ?thesis using idle_accepted [OF worker_idleI [OF assms(2)]] by (simp add: is_request_def)
next
  case (WasRead peer stamp ms req)
  have idle: "worker_idle (w\<lparr>mPending := remove1 Reading (mPending w)\<rparr>)"
    using WasRead(2) assms(2) by (intro worker_idleI) auto
  show ?thesis
  proof (cases req)
    case None
    then show ?thesis using WasRead idle_accept [OF idle] by (auto simp: was_read_def is_request_def accept_def)
  next
    case (Some r)
    with WasRead(4) obtain r' where "answered (w\<lparr>mPending := remove1 Reading (mPending w)\<rparr>) r' w'"
      using processRequest_answers [OF idle, of lib stamp peer ms r w'] by (auto simp: was_read_def)
    then show ?thesis using WasRead(1) Some by (simp add: answered_def is_request_def)
  qed
next
  case Written
  then have "mPending w = [Writing]" using assms(2) by (cases "mPending w") (auto simp: worker_inv_def)
  then show ?thesis using Written assms(2) by (auto simp: worker_inv_def written_def accept_def is_request_def)
next
  case (TimerExpired t now)
  have "worker_inv (checkTimeout now (w\<lparr>mWaits := mWaits w - 1\<rparr>))"
    using TimerExpired(3) assms(2) by (intro timer_inv) (auto simp: worker_inv_def)
  then show ?thesis using TimerExpired(1,2) by (simp add: is_request_def)
next
  case (TimerCancelled now)
  have "worker_inv (checkTimeout now (w\<lparr>mCancelledWaits := mCancelledWaits w - 1\<rparr>))"
    using TimerCancelled(3) assms(2) by (intro timer_inv) (auto simp: worker_inv_def)
  then show ?thesis using TimerCancelled(1,2) by (simp add: is_request_def)
qed

lemma start_inv:
  assumes "newWorker fs last_write base f idx l = Inr w"
  shows "worker_inv (start now w)" "mSent (start now w) = []"
proof -
  have w: "mPending w = [] \<and> mWaits w = 0 \<and> mCancelledWaits w = 0 \<and> mResponse w = None \<and> \<not> mSerializer w \<and> mSent w = [] \<and> mExpiry w = None"
    using assms by (auto simp: newWorker_def split: sum.splits prod.splits)
  then show "worker_inv (start now w)"
    by (auto simp: start_def accept_def intro!: timer_inv)
  show "mSent (start now w) = []" using w by (simp add: start_def accept_def)
qed

lemma runs_inv:
  assumes "runs_to lib w es w'" and "worker_inv w"
  shows "worker_inv w' \<and> length (mSent w') = length (mSent w) + length (filter is_request es)"
  using assms by (induction rule: runs_to.induct) (auto dest: step_inv)

section \<open>The answers\<close>

text \<open>What the code relies on of the libraries: \<^verbatim>\<open>write_json\<close> prints a flat tree of strings
  that need no escapes on one line, \<^verbatim>\<open>replace_all\<close> replaces the only occurrence of a text, and
  \<^verbatim>\<open>prepare_payload\<close> leaves status and body alone.\<close>

definition json_plain :: "string \<Rightarrow> bool" where
  "json_plain s \<longleftrightarrow> (\<forall>c \<in> set s. is_alnum c \<or> c \<in> set ''-[]'')"

definition json_text :: "(string \<times> string) list \<Rightarrow> string" where
  "json_text kvs =
     ''{'' @ join_with (CHR '','') (map (\<lambda>(k, v). ''\"'' @ k @ ''\":\"'' @ v @ ''\"'') kvs) @ [CHR ''}'', CHR 0x0A]"

definition web_ok :: "web \<Rightarrow> bool" where
  "web_ok lib \<longleftrightarrow> is_split (w_split lib) \<and>
     (\<forall>kvs. kvs \<noteq> [] \<and> (\<forall>(k, v) \<in> set kvs. json_plain k \<and> json_plain v) \<longrightarrow> w_write_json lib kvs = json_text kvs) \<and>
     (\<forall>a pat b new. pat \<noteq> [] \<and> \<not> sublist pat (a @ butlast pat) \<and> \<not> sublist pat b \<longrightarrow>
        w_replace_all lib (a @ pat @ b) pat new = a @ new @ b) \<and>
     (\<forall>r. res_status (w_prepare_payload lib r) = res_status r \<and> res_body (w_prepare_payload lib r) = res_body r)"

lemma not_sublist_set: "c \<in> set pat \<Longrightarrow> c \<notin> set s \<Longrightarrow> \<not> sublist pat s"
  by (meson set_mono_sublist subsetD)

text \<open>A text that starts with the only occurrence of its second character cannot start earlier.\<close>

lemma not_sublist_marker:
  assumes "d \<notin> set a" and "d \<notin> set pat" and "d \<noteq> c"
  shows "\<not> sublist (c # d # pat @ [e]) (a @ butlast (c # d # pat @ [e]))"
proof
  assume "sublist (c # d # pat @ [e]) (a @ butlast (c # d # pat @ [e]))"
  then obtain us vs where e: "a @ [c] @ d # pat = us @ [c] @ d # pat @ [e] @ vs"
    by (auto simp: sublist_def butlast_append)
  have "(a @ [c]) @ d # pat = (us @ [c]) @ d # (pat @ [e] @ vs)" using e by simp
  moreover have "d \<notin> set (a @ [c])" using assms by simp
  moreover have "d \<notin> set (us @ [c])"
  proof
    assume "d \<in> set (us @ [c])"
    then have "2 \<le> count_list (us @ [c] @ d # pat @ [e] @ vs) d"
      using count_notin [of d us] by (auto simp: assms(3) count_list_0_iff Suc_le_eq)
    moreover have "count_list (a @ [c] @ d # pat) d = 1"
      using assms by (simp add: count_list_0_iff)
    ultimately show False unfolding e [symmetric] by (simp only:)
  qed
  ultimately have "pat = pat @ [e] @ vs" using append_sep_eq [of "a @ [c]" d pat "us @ [c]" "pat @ [e] @ vs"] by simp
  then show False by simp
qed

lemma alnum_hex:
  assumes "isHexDigit c"
  shows "is_alnum c"
proof -
  have n: "(of_char c :: int) = int (of_char c :: nat)" by (rule of_nat_of_char [symmetric])
  from assms show ?thesis
    by (auto simp: isHexDigit_def decodeHex_def is_alnum_def Let_def n simp del: of_nat_of_char split: if_splits)
qed

lemma toString_alnum: "c \<in> set (toString u h) \<Longrightarrow> is_alnum c"
proof -
  assume "c \<in> set (toString u h)"
  moreover have "list_all isHexDigit (toString u h)"
    using isValid_fromHex [of "toString u h"] fromHex_toString [of u h] by simp
  ultimately show ?thesis by (auto simp: list_all_iff intro: alnum_hex)
qed

text \<open>The answer to a lookup, as the client gets it.\<close>

definition lookup_json :: "hash \<Rightarrow> nat \<Rightarrow> string \<Rightarrow> string" where
  "lookup_json h n ms =
     ''{\"hash\":\"'' @ toString False h @ ''\",\"found\":'' @ decimal n @ '',\"lookup-time-ms\":'' @ ms @ [CHR ''}'', CHR 0x0A]"

lemma decimal_not_bracket: "CHR ''['' \<notin> set (decimal n)"
  using decimal_digits [of n] by (auto simp: list_all_iff isDigit_def)

lemma toString_not_bracket: "CHR ''['' \<notin> set (toString u h)"
  using toString_alnum [of "CHR ''[''" u h] by (auto simp: is_alnum_def)

lemma lookup_body_json:
  assumes "web_ok lib"
  shows "lookup_body lib h p ms = lookup_json h (unat (phc_count p)) ms"
proof -
  have rep: "w_replace_all lib (a @ pat @ b) pat new = a @ new @ b"
    if "pat \<noteq> []" "\<not> sublist pat (a @ butlast pat)" "\<not> sublist pat b" for a pat b new
    using assms that unfolding web_ok_def by blast
  let ?kvs = "[(''hash'', toString False h), (''found'', ''[found]''), (''lookup-time-ms'', ''[lookup-time-ms]'')]"
  let ?a = "''{\"hash\":\"'' @ toString False h @ ''\",\"found\":''" and ?f = "''\"[found]\"''"
  let ?b = "'',\"lookup-time-ms\":''" and ?t = "''\"[lookup-time-ms]\"''" and ?e = "[CHR ''}'', CHR 0x0A]"
  have "\<forall>(k, v) \<in> set ?kvs. json_plain k \<and> json_plain v"
    using toString_alnum [of _ False h] by (auto simp: json_plain_def is_alnum_def)
  then have "w_write_json lib ?kvs = json_text ?kvs" using assms unfolding web_ok_def by blast
  also have "\<dots> = ?a @ ?f @ ?b @ ?t @ ?e" by (simp add: json_text_def)
  finally have s: "w_write_json lib ?kvs = ?a @ ?f @ ?b @ ?t @ ?e" .
  have a: "CHR ''['' \<notin> set ?a" using toString_not_bracket by auto
  have "\<not> sublist ?f (?a @ butlast ?f)"
    using not_sublist_marker [OF a, of "''found]''" "CHR ''\"''" "CHR ''\"''"] by simp
  moreover have "\<not> sublist ?f (?b @ ?t @ ?e)" by (rule not_sublist_set [of "CHR ''f''"]) auto
  ultimately have r1: "w_replace_all lib (?a @ ?f @ ?b @ ?t @ ?e) ?f (decimal (unat (phc_count p))) =
      ?a @ decimal (unat (phc_count p)) @ ?b @ ?t @ ?e" by (intro rep) auto
  let ?d = "?a @ decimal (unat (phc_count p)) @ ?b"
  have d: "CHR ''['' \<notin> set ?d" using a decimal_not_bracket by auto
  have "\<not> sublist ?t (?d @ butlast ?t)"
    using not_sublist_marker [OF d, of "''lookup-time-ms]''" "CHR ''\"''" "CHR ''\"''"] by simp
  moreover have "\<not> sublist ?t ?e" by (rule not_sublist_set [of "CHR ''l''"]) auto
  ultimately have "w_replace_all lib (?d @ ?t @ ?e) ?t ms = ?d @ ms @ ?e" by (intro rep) auto
  then show ?thesis unfolding lookup_body_def Let_def s r1 lookup_json_def by simp
qed

text \<open>One lookup, whatever the state of the inspector.\<close>

definition lookup_request :: "string \<Rightarrow> bool \<Rightarrow> hash \<Rightarrow> request" where
  "lookup_request base u h = \<lparr>req_method = GET, req_target = base @ ''/lookup?hash='' @ toString u h\<rparr>"

lemma plain_hex: "plain (toString u h)"
proof -
  have "\<not> is_alnum c" if "c \<in> set ''?#&=''" for c using that by (auto simp: is_alnum_def)
  then show ?thesis unfolding plain_def using toString_alnum [of _ u h] by blast
qed

lemma process_lookup:
  assumes "web_ok lib" and "plain (mBasePath w)" and "binsearch (mInspector w) (h\<lparr>isValid := True\<rparr>) = Some (p, n, d)"
  shows "\<exists>w' r. processRequest lib stamp (Some peer) ms (lookup_request (mBasePath w) u h) w = Handled w' \<and> mSent w' = mSent w @ [r] \<and>
    res_status r = status_ok \<and> res_body r = lookup_json h (unat (phc_count p)) ms \<and> mInspector w' = d \<and> mBasePath w' = mBasePath w"
proof -
  have sp: "is_split (w_split lib)" using assms(1) by (simp add: web_ok_def)
  have pp: "plain (mBasePath w @ ''/lookup'')" "plain ''hash''" using assms(2) by (auto simp: plain_def)
  have t: "req_target (lookup_request (mBasePath w) u h) =
      (mBasePath w @ ''/lookup'') @ CHR ''?'' # ''hash'' @ CHR ''='' # toString u h"
    by (simp add: lookup_request_def)
  have u: "parseTarget (w_split lib) (req_target (lookup_request (mBasePath w) u h)) newURI =
      newURI\<lparr>mPath := mBasePath w @ ''/lookup'', mQuery := [''hash'' \<mapsto> toString u h]\<rparr>"
    unfolding t by (subst parseTarget_query [OF sp pp plain_hex]) (simp add: newURI_def)
  have "toString False (h\<lparr>isValid := True\<rparr>) = toString False h" by (simp add: toString_def)
  then have b: "lookup_body lib (h\<lparr>isValid := True\<rparr>) p ms = lookup_json h (unat (phc_count p)) ms"
    by (simp add: lookup_body_json [OF assms(1)] lookup_json_def)
  have pl: "res_status (w_prepare_payload lib r) = res_status r" "res_body (w_prepare_payload lib r) = res_body r" for r
    using assms(1) by (auto simp: web_ok_def)
  show ?thesis
    using assms(3) b
    by (auto simp: processRequest_def lookup_request_def [of _ u h, THEN arg_cong [where f = req_method]]
        sendResponse_def u Let_def fromHex_toString write_response_def makeResponse_def pl)
qed

text \<open>Once the input stream of its inspector has failed, a worker finds nothing any more.\<close>

definition lost :: "inspector \<Rightarrow> bool" where
  "lost d \<longleftrightarrow> fail (mInputFile d) \<and> no_index d \<and> mFileSize d < 2 ^ 63"

lemma lost_binsearch: "lost d \<Longrightarrow> \<exists>p n d'. binsearch d h = Some (p, n, d') \<and> phc_count p = 0 \<and> lost d'"
  using binsearch_failed [of d h] by (fastforce simp: lost_def)

lemma overshoot_lost:
  assumes "serves d es" and "no_index d" and "\<forall>e \<in> set es. fst e < quad h"
  shows "\<exists>p n d'. binsearch d h = Some (p, n, d') \<and> phc_count p = 0 \<and> lost d'"
proof -
  obtain p n d' where b: "binsearch d h = Some (p, n, d')" and f: "found es (quad h) p"
    using binsearch_serves [OF assms(1,2), of h] by blast
  have "quad h \<notin> fst ` set es" using assms(3) by force
  with f have "phc_count p = 0" by (simp add: found_def)
  with b binsearch_overshoot [OF assms b] assms(1) show ?thesis by (auto simp: lost_def serves_def)
qed

lemma accept_inspector [simp]: "mInspector (accept w) = mInspector w" "mBasePath (accept w) = mBasePath w"
  by (simp_all add: accept_def)

lemma checkTimeout_inspector [simp]:
  "mInspector (checkTimeout now w) = mInspector w" "mBasePath (checkTimeout now w) = mBasePath w"
  by (simp_all add: checkTimeout_def set_expiry_def Let_def split: option.splits)

lemma process_lost:
  assumes "processRequest lib stamp peer ms req w = Handled w'" and "lost (mInspector w)"
  shows "lost (mInspector w') \<and> mBasePath w' = mBasePath w"
  using assms lost_binsearch [of "mInspector w"]
  by (auto simp: processRequest_def sendResponse_def sendBadResponse_def write_response_def Let_def
      split: verb.splits if_splits option.splits) (metis fst_conv snd_conv option.inject)+

lemma step_lost:
  assumes "worker_step lib w e w'" and "lost (mInspector w)"
  shows "lost (mInspector w') \<and> mBasePath w' = mBasePath w"
  using assms
proof (cases rule: worker_step.cases)
  case (WasRead peer stamp ms req)
  then show ?thesis
    using process_lost [of lib stamp peer ms _ "w\<lparr>mPending := remove1 Reading (mPending w)\<rparr>" w'] assms(2)
    by (auto simp: was_read_def split: option.splits)
qed (auto simp: accepted_def readRequest_def set_expiry_def written_def)

lemma runs_lost:
  assumes "runs_to lib w es w'" and "lost (mInspector w)"
  shows "lost (mInspector w') \<and> mBasePath w' = mBasePath w"
  using assms by (induction rule: runs_to.induct) (auto dest: step_lost)

section \<open>A concrete library\<close>

fun replace_on :: "string \<Rightarrow> string \<Rightarrow> string \<Rightarrow> string" where
  "replace_on [] pat new = []"
| "replace_on (c # s) pat new =
     (if pat \<noteq> [] \<and> prefix pat (c # s) then new @ replace_on (drop (length pat) (c # s)) pat new
      else c # replace_on s pat new)"

definition toy_web :: web where
  "toy_web = \<lparr>w_split = split_on, w_write_json = json_text, w_replace_all = replace_on, w_prepare_payload = (\<lambda>r. r)\<rparr>"

lemma replace_on_none: "\<not> sublist pat s \<Longrightarrow> replace_on s pat new = s"
  by (induction s pat new rule: replace_on.induct) (auto simp: sublist_Cons_right)

lemma replace_on_one:
  "\<lbrakk>pat \<noteq> []; \<not> sublist pat (a @ butlast pat); \<not> sublist pat b\<rbrakk> \<Longrightarrow> replace_on (a @ pat @ b) pat new = a @ new @ b"
proof (induction a)
  case Nil
  then show ?case by (cases pat) (simp_all add: replace_on_none)
next
  case (Cons c a)
  have "\<not> prefix pat (c # a @ pat @ b)"
  proof
    assume "prefix pat (c # a @ pat @ b)"
    moreover have "c # a @ pat @ b = ((c # a) @ butlast pat) @ last pat # b" using Cons.prems(1) by simp
    moreover have "length pat \<le> length ((c # a) @ butlast pat)" by simp
    ultimately have "prefix pat ((c # a) @ butlast pat)" by (metis prefix_length_prefix prefixI)
    then show False using Cons.prems(2) prefix_imp_sublist by blast
  qed
  then show ?case using Cons by (auto simp: sublist_Cons_right)
qed

lemma toy_web_ok: "web_ok toy_web"
  unfolding web_ok_def toy_web_def by (auto simp: is_split_on intro: replace_on_one)

section \<open>The exception\<close>

text \<open>A GET request for which no address is at hand.\<close>

definition without_peer :: "event \<Rightarrow> bool" where
  "without_peer e \<longleftrightarrow> (case e of WasRead _ None _ (Some r) \<Rightarrow> req_method r = GET | _ \<Rightarrow> False)"

lemma throws_iff:
  assumes "worker_inv w"
  shows "(\<exists>w'. worker_throws lib w e w') \<longleftrightarrow> mHasLog w \<and> Reading \<in> set (mPending w) \<and> without_peer e"
    and "worker_throws lib w e w' \<Longrightarrow> mSent w' = mSent w \<and> mPending w' = []"
proof -
  show "(\<exists>w'. worker_throws lib w e w') \<longleftrightarrow> mHasLog w \<and> Reading \<in> set (mPending w) \<and> without_peer e"
    by (auto simp: worker_throws.simps was_read_def processRequest_throws without_peer_def split: event.splits option.splits)
  assume "worker_throws lib w e w'"
  then show "mSent w' = mSent w \<and> mPending w' = []"
  proof (cases rule: worker_throws.cases)
    case (WasRead peer stamp ms req)
    then obtain r where r: "req = Some r" by (auto simp: was_read_def split: option.splits)
    have "mPending w = [Reading]" using WasRead(2) assms by (cases "mPending w") (auto simp: worker_inv_def)
    then show ?thesis using WasRead(4) by (simp add: r was_read_def processRequest_throws)
  qed
qed

lemma newWorker_log: "newWorker fs last_write base f idx l = Inr w \<Longrightarrow> mHasLog (start now w) = l"
  by (auto simp: newWorker_def start_def checkTimeout_def accept_def set_expiry_def Let_def split: sum.splits prod.splits option.splits)

lemma step_log:
  assumes "worker_step lib w e w'"
  shows "mHasLog w' = mHasLog w"
  using assms
proof (cases rule: worker_step.cases)
  case (WasRead peer stamp ms req)
  then show ?thesis
    by (auto simp: was_read_def processRequest_def sendResponse_def sendBadResponse_def write_response_def accept_def Let_def
        split: option.splits verb.splits if_splits)
qed (auto simp: accepted_def readRequest_def set_expiry_def written_def accept_def checkTimeout_def Let_def split: option.splits)

lemma runs_log: "runs_to lib w es w' \<Longrightarrow> mHasLog w' = mHasLog w"
  by (induction rule: runs_to.induct) (auto dest: step_log)

section \<open>Properties\<close>

text \<open>
  C18: In every state a started worker can reach, whatever the clients send and whenever the timer
  fires, exactly one operation is in flight on its socket and exactly one wait on its timer, it
  holds a response exactly while it writes it, and it has answered every request once. An exception
  leaves a handler exactly for a GET request whose peer has no address any more (if lines are
  logged, as the server asks for); this request gets no answer, nothing is in flight on the socket
  after it, and no event of the worker follows.
\<close>

theorem worker_invariant:
  assumes "newWorker fs last_write base f idx l = Inr w0" and "runs_to lib (start now w0) es w"
  shows "worker_inv w \<and> length (mSent w) = length (filter is_request es) \<and>
    (\<forall>e. (\<exists>w'. worker_throws lib w e w') \<longleftrightarrow> l \<and> Reading \<in> set (mPending w) \<and> without_peer e) \<and>
    (\<forall>e w'. worker_throws lib w e w' \<longrightarrow> mSent w' = mSent w \<and> mPending w' = [])"
proof -
  have "worker_inv w \<and> length (mSent w) = length (filter is_request es)"
    using runs_inv [OF assms(2)] start_inv [OF assms(1), of now] by simp
  moreover have "mHasLog w = l" using runs_log [OF assms(2)] newWorker_log [OF assms(1)] by simp
  ultimately show ?thesis using throws_iff [of w lib] by simp
qed

definition toy_db :: "entry list" where
  "toy_db = [(Quad 1 0, 3), (Quad 2 5, 7)]"

definition toy_worker :: worker where
  "toy_worker = (case newWorker [''db'' \<mapsto> (file_of toy_db, True)] (\<lambda>_. 0) ''/v1'' ''db'' [] False of Inr w \<Rightarrow> w)"

lemma toy_database: "database toy_db"
  by (simp add: toy_db_def database_def less_quad_def)

lemma toy_worker:
  "newWorker [''db'' \<mapsto> (file_of toy_db, True)] (\<lambda>_. 0) ''/v1'' ''db'' [] False = Inr toy_worker"
  "mInspector toy_worker = inspector_on toy_db" "mBasePath toy_worker = ''/v1''"
  by (simp_all add: toy_worker_def newWorker_def open_database [where es = toy_db])

theorem worker_invariant_witness:
  "\<exists>w. runs_to toy_web (start 0 toy_worker)
         [Accepted 0 False, WasRead [] (Some []) [] (Some \<lparr>req_method = OtherVerb ''POST'', req_target = []\<rparr>)] w \<and>
     worker_inv w \<and> length (mSent w) = 1"
proof -
  let ?w1 = "accepted 0 False (start 0 toy_worker\<lparr>mPending := remove1 Accepting (mPending (start 0 toy_worker))\<rparr>)"
  have s: "mPending (start 0 toy_worker) = [Accepting]"
    using start_inv(1) [OF toy_worker(1), of 0] by (simp add: worker_inv_def start_def accept_def checkTimeout_def set_expiry_def Let_def toy_worker_def newWorker_def open_database [where es = toy_db])
  have p: "Reading \<in> set (mPending ?w1)" and o: "mSocketOpen ?w1 \<or> Some [] = None"
    by (simp_all add: accepted_def readRequest_def set_expiry_def)
  have "runs_to toy_web (start 0 toy_worker) ([] @ [Accepted 0 False]) ?w1"
    using s by (intro runs_to.step [OF runs_to.start] worker_step.Accepted) simp
  moreover obtain w where w: "was_read toy_web [] (Some []) [] (Some \<lparr>req_method = OtherVerb ''POST'', req_target = []\<rparr>)
      (?w1\<lparr>mPending := remove1 Reading (mPending ?w1)\<rparr>) = Handled w"
    by (simp add: was_read_def processRequest_def)
  ultimately have r: "runs_to toy_web (start 0 toy_worker)
      (([] @ [Accepted 0 False]) @ [WasRead [] (Some []) [] (Some \<lparr>req_method = OtherVerb ''POST'', req_target = []\<rparr>)]) w"
    by (rule runs_to.step [OF _ worker_step.WasRead [OF p o]])
  from worker_invariant [OF toy_worker(1) r] r show ?thesis by (auto simp: is_request_def)
qed

text \<open>
  A lookup request for a hash is answered with status OK and the count the database holds for
  it, or 0; the worker then serves the database as before, unless the hash was above every entry.
\<close>

theorem worker_answers_lookup:
  assumes "web_ok lib" and "plain (mBasePath w)" and "database es" and "serves (mInspector w) es" and "no_index (mInspector w)"
  shows "\<exists>w' r. processRequest lib stamp (Some peer) ms (lookup_request (mBasePath w) u h) w = Handled w' \<and> mSent w' = mSent w @ [r] \<and>
    res_status r = status_ok \<and>
    res_body r = lookup_json h (case map_of es (quad h) of None \<Rightarrow> 0 | Some c \<Rightarrow> unat c) ms \<and>
    no_index (mInspector w') \<and> (serves (mInspector w') es \<or> (\<forall>e \<in> set es. fst e < quad h))"
proof -
  obtain p n d' where b: "binsearch (mInspector w) (h\<lparr>isValid := True\<rparr>) = Some (p, n, d')" and f: "found es (quad h) p"
    and d': "no_index d'" "serves d' es \<or> (\<forall>e \<in> set es. fst e < quad h)"
    using binsearch_serves [OF assms(4,5), of "h\<lparr>isValid := True\<rparr>"] by auto
  have "answer_of p = db_answer es (quad h)" by (rule answer_found [OF assms(3) f])
  then have "unat (phc_count p) = (case map_of es (quad h) of None \<Rightarrow> 0 | Some c \<Rightarrow> unat c)"
    by (auto simp: answer_of_def db_answer_def word_gt_0 split: if_splits option.splits)
  with process_lookup [OF assms(1,2) b, of stamp peer ms u] d' show ?thesis by metis
qed

theorem worker_answers_lookup_witness:
  "\<exists>w' r. processRequest toy_web [] (Some []) ''0.1'' (lookup_request ''/v1'' False (hash_of_quad 2 5)) toy_worker = Handled w' \<and>
     mSent w' = mSent toy_worker @ [r] \<and>
     res_body r = lookup_json (hash_of_quad 2 5) 7 ''0.1''"
proof -
  have "serves (mInspector toy_worker) toy_db" "no_index (mInspector toy_worker)"
    by (simp_all add: toy_worker serves_on [OF toy_database])
  moreover have "plain (mBasePath toy_worker)" by (simp add: toy_worker plain_def)
  moreover have "map_of toy_db (quad (hash_of_quad 2 5)) = Some 7" by (simp add: toy_db_def hash_of_quad_def)
  ultimately show ?thesis
    using worker_answers_lookup [OF toy_web_ok _ toy_database, of toy_worker "[]" "[]" "''0.1''" False "hash_of_quad 2 5"]
    by (auto simp: toy_worker)
qed

text \<open>
  C20: One lookup of a hash above the greatest entry, which any client can send, breaks the worker
  for all clients after it: whatever happens in between (short of the exception, which ends the
  service), it answers every later lookup with 0.
\<close>

theorem worker_lost:
  assumes "web_ok lib" and "plain (mBasePath w)" and "serves (mInspector w) es" and "no_index (mInspector w)"
    and "\<forall>e \<in> set es. fst e < quad h"
    and "processRequest lib stamp (Some peer) ms (lookup_request (mBasePath w) u h) w = Handled w1" and "runs_to lib w1 evs w2"
  shows "\<exists>w' r. processRequest lib stamp' (Some peer') ms' (lookup_request (mBasePath w) u' h') w2 = Handled w' \<and>
    mSent w' = mSent w2 @ [r] \<and> res_body r = lookup_json h' 0 ms'"
proof -
  obtain p n d where "binsearch (mInspector w) (h\<lparr>isValid := True\<rparr>) = Some (p, n, d)" and l: "lost d"
    using overshoot_lost [OF assms(3,4), of "h\<lparr>isValid := True\<rparr>"] assms(5) by auto
  from process_lookup [OF assms(1,2) this(1), of stamp peer ms u] assms(6)
  have w1: "mInspector w1 = d" "mBasePath w1 = mBasePath w" by auto
  have w2: "lost (mInspector w2)" "mBasePath w2 = mBasePath w"
    using runs_lost [OF assms(7)] l w1 by auto
  obtain p' n' d' where "binsearch (mInspector w2) (h'\<lparr>isValid := True\<rparr>) = Some (p', n', d')" "phc_count p' = 0"
    using lost_binsearch [OF w2(1), of "h'\<lparr>isValid := True\<rparr>"] by blast
  from process_lookup [OF assms(1) _ this(1), of stamp' peer' ms' u'] assms(2) w2(2) this(2) show ?thesis by auto
qed

theorem worker_lost_witness:
  "\<exists>w1 w' r. processRequest toy_web [] (Some []) [] (lookup_request ''/v1'' False (hash_of_quad 3 0)) toy_worker = Handled w1 \<and>
     processRequest toy_web [] (Some []) ''0.1'' (lookup_request ''/v1'' False (hash_of_quad 2 5)) w1 = Handled w' \<and>
     mSent w' = mSent w1 @ [r] \<and> res_body r = lookup_json (hash_of_quad 2 5) 0 ''0.1''"
proof -
  have s: "serves (mInspector toy_worker) toy_db" "no_index (mInspector toy_worker)" "plain (mBasePath toy_worker)"
    by (simp_all add: toy_worker serves_on [OF toy_database] plain_def)
  have above: "\<forall>e \<in> set toy_db. fst e < quad (hash_of_quad 3 0)" by (simp add: toy_db_def hash_of_quad_def less_quad_def)
  obtain p n d where "binsearch (mInspector toy_worker) (hash_of_quad 3 0\<lparr>isValid := True\<rparr>) = Some (p, n, d)"
    using overshoot_lost [OF s(1,2), of "hash_of_quad 3 0\<lparr>isValid := True\<rparr>"] above by auto
  from process_lookup [OF toy_web_ok s(3) this, of "[]" "[]" "[]" False]
  obtain w1 where "processRequest toy_web [] (Some []) [] (lookup_request (mBasePath toy_worker) False (hash_of_quad 3 0)) toy_worker = Handled w1"
    by blast
  from worker_lost [OF toy_web_ok s(3,1,2) above this runs_to.start, of "[]" "[]" "''0.1''" False "hash_of_quad 2 5"] this
  show ?thesis by (auto simp: toy_worker)
qed

end
