(* ===== verification/Server.thy ===== *)
theory Server
  imports Http_Worker Console
begin

text \<open>
  \<^verbatim>\<open>pwned-server/pwned-server.cpp\<close>: the service from its command line to the workers it starts.
  Parameters are the text \<^verbatim>\<open>usage()\<close> prints, the texts of exceptions, and the network: \<open>bind\<close>
  is the error of opening the acceptor on an address and a port, if there is one. After \<open>Serving\<close>
  the threads run the handlers of \<open>Http_Worker\<close>; \<^verbatim>\<open>ioc.run()\<close> only returns when no operation is
  in flight any more, and an exception that leaves a handler ends the process.
\<close>

record server_options =
  so_help :: bool
  so_input :: string
  so_index :: string
  so_address :: string
  so_workers :: int
  so_threads :: int
  so_verbosity :: nat

definition DefaultAddress :: string where
  "DefaultAddress = ''http://127.0.0.1:31337/v1/pwned/api''"

definition DefaultNumWorkers :: int where
  "DefaultNumWorkers = 64"

definition server_hello :: string where
  "server_hello = ''#pwned server '' @ PWNED_SERVER_VERSION @ '' - Copyright (c) 2019 Oliver Lau'' @ endl @ endl"

definition server_license :: string where
  "server_license =
     ''This program comes with ABSOLUTELY NO WARRANTY; for details type'' @ endl @
     [CHR 0x60] @ ''pwned-server --warranty'' @ [CHR 0x60] @ ''.'' @ endl @
     ''This is free software, and you are welcome to redistribute it'' @ endl @
     ''under certain conditions; see https://www.gnu.org/licenses/gpl-3.0.en.html'' @ endl @
     ''for details.'' @ endl @ endl"

text \<open>\<^verbatim>\<open>validate\<close>: one more \<^verbatim>\<open>-v\<close>.\<close>

definition validate_counter :: "nat option \<Rightarrow> nat option" where
  "validate_counter v = (case v of None \<Rightarrow> Some 1 | Some level \<Rightarrow> Some (level + 1))"

datatype server_run =
    ServerExit bool "console list"
  | Serving "console list" "worker list" int

text \<open>The loop that creates and starts the workers; an exception ends it.\<close>

primrec make_workers ::
  "files \<Rightarrow> (string \<Rightarrow> int) \<Rightarrow> int \<Rightarrow> string \<Rightarrow> string \<Rightarrow> string \<Rightarrow> nat \<Rightarrow> fs_error + worker list" where
  "make_workers fs last_write now basePath inputFilename indexFilename 0 = Inr []"
| "make_workers fs last_write now basePath inputFilename indexFilename (Suc n) =
     (case newWorker fs last_write basePath inputFilename indexFilename True of
        Inl e \<Rightarrow> Inl e
      | Inr w \<Rightarrow>
          (case make_workers fs last_write now basePath inputFilename indexFilename n of
             Inl e \<Rightarrow> Inl e
           | Inr ws \<Rightarrow> Inr (start now w # ws)))"

definition server_warn :: "server_options \<Rightarrow> console list" where
  "server_warn opts =
     (if so_workers opts < 1
      then [Out (''WARNING: Illegal number of workers given. Defaulting to '' @ decimal_int DefaultNumWorkers @ endl)]
      else [])"

definition server_workers :: "server_options \<Rightarrow> int" where
  "server_workers opts = (if so_workers opts < 1 then DefaultNumWorkers else so_workers opts)"

text \<open>The callback of the workers: what a log line prints.\<close>

definition server_log :: "nat \<Rightarrow> string \<Rightarrow> console list" where
  "server_log verbosity msg = (if verbosity > 1 then [Out (msg @ endl)] else [])"

definition server_banner :: "server_options \<Rightarrow> int \<Rightarrow> uri \<Rightarrow> console list" where
  "server_banner opts numWorkers u =
     (if so_verbosity opts > 0
      then [Out (decimal_int numWorkers @ '' workers in '' @ decimal_int (so_threads opts) @ '' threads'' @
                 '' listening on '' @ mHost u @ '':'' @ decimal (unat (mPort u)) @ '' ...'' @ endl)]
      else [])"

definition server_main ::
  "web \<Rightarrow> files \<Rightarrow> (string \<Rightarrow> int) \<Rightarrow> (string \<Rightarrow> u16 \<Rightarrow> string option) \<Rightarrow> int \<Rightarrow> string \<Rightarrow>
   (number_error \<Rightarrow> string) \<Rightarrow> (fs_error \<Rightarrow> string) \<Rightarrow> server_options parsed \<Rightarrow> server_run" where
  "server_main lib fs last_write bind now usage number_what fs_what parsed =
     (case parsed of
        Inl e \<Rightarrow> ServerExit False (option_error e usage)
      | Inr opts \<Rightarrow>
          (let c = (if so_verbosity opts > 0 then [Out server_hello] else []);
               failed = (\<lambda>c what. ServerExit False (c @ [Err (''Error: '' @ what @ endl)]))
           in if so_help opts then ServerExit True (c @ [Out (usage @ endl)])
              else if so_input opts = []
              then ServerExit False (c @ [Err (''ERROR: input file not given.'' @ endl), Out (usage @ endl)])
              else let c = c @ server_warn opts;
                       numWorkers = server_workers opts
                   in case URI (w_split lib) (so_address opts) of
                        Inl e \<Rightarrow> failed c (number_what e)
                      | Inr u \<Rightarrow>
                          (case bind (mHost u) (mPort u) of
                             Some what \<Rightarrow> failed c what
                           | None \<Rightarrow>
                               (case make_workers fs last_write now (mPath u) (so_input opts) (so_index opts) (nat numWorkers) of
                                  Inl e \<Rightarrow> failed c (fs_what e)
                                | Inr ws \<Rightarrow> Serving (c @ server_banner opts numWorkers u) ws (so_threads opts)))))"

section \<open>The workers of a server\<close>

lemma make_workers_started:
  "make_workers fs last_write now base f idx n = Inr ws \<Longrightarrow>
   length ws = n \<and> (\<forall>w \<in> set ws. \<exists>v. newWorker fs last_write base f idx True = Inr v \<and> w = start now v)"
  by (induction n arbitrary: ws) (auto split: sum.splits)

lemma server_main_serving:
  assumes "server_main lib fs last_write bind now usage nw fw (Inr opts) = Serving c ws n"
  shows "\<exists>u. URI (w_split lib) (so_address opts) = Inr u \<and> bind (mHost u) (mPort u) = None \<and>
    length ws = nat (server_workers opts) \<and>
    (\<forall>w \<in> set ws. \<exists>v. newWorker fs last_write (mPath u) (so_input opts) (so_index opts) True = Inr v \<and> w = start now v)"
  using assms make_workers_started
  by (fastforce simp: server_main_def Let_def split: if_splits sum.splits option.splits)

text \<open>Requests that keep the inspectors usable: not above the greatest entry.\<close>

definition asked :: "web \<Rightarrow> event \<Rightarrow> string option" where
  "asked lib e =
     (case e of
        WasRead _ _ _ (Some r) \<Rightarrow> mQuery (parseTarget (w_split lib) (req_target r) newURI) ''hash''
      | _ \<Rightarrow> None)"

definition harmless :: "web \<Rightarrow> entry list \<Rightarrow> event \<Rightarrow> bool" where
  "harmless lib es e \<longleftrightarrow>
     (case asked lib e of None \<Rightarrow> True | Some s \<Rightarrow> \<exists>x \<in> set es. quad (fromHex s) \<le> fst x)"

definition worker_serves :: "entry list \<Rightarrow> worker \<Rightarrow> bool" where
  "worker_serves es w \<longleftrightarrow> serves (mInspector w) es \<and> no_index (mInspector w)"

lemma process_serves:
  assumes "processRequest lib stamp peer ms req w = Handled w'" and "worker_serves es w"
    and "harmless lib es (WasRead stamp peer ms (Some req))"
  shows "worker_serves es w' \<and> mBasePath w' = mBasePath w"
proof -
  have keep: "serves d es \<and> no_index d"
    if "binsearch (mInspector w) h = Some (p, n, d)" "(q, c) \<in> set es" "quad h \<le> q" for h p n d q c
    using that binsearch_serves [of "mInspector w" es h] assms(2) by (force simp: worker_serves_def not_le [symmetric])
  show ?thesis
    using assms
    by (auto dest: keep simp: processRequest_def sendResponse_def sendBadResponse_def write_response_def Let_def harmless_def asked_def
        worker_serves_def split: verb.splits if_splits option.splits)
qed

lemma step_serves:
  assumes "worker_step lib w e w'" and "worker_serves es w" and "harmless lib es e"
  shows "worker_serves es w' \<and> mBasePath w' = mBasePath w"
  using assms
proof (cases rule: worker_step.cases)
  case (WasRead peer stamp ms req)
  then show ?thesis
    using process_serves [of lib stamp peer ms _ "w\<lparr>mPending := remove1 Reading (mPending w)\<rparr>" w' es] assms(2,3)
    by (auto simp: was_read_def worker_serves_def split: option.splits)
qed (auto simp: accepted_def readRequest_def set_expiry_def written_def worker_serves_def)

lemma runs_serves:
  assumes "runs_to lib w evs w'" and "worker_serves es w" and "list_all (harmless lib es) evs"
  shows "worker_serves es w' \<and> mBasePath w' = mBasePath w"
  using assms by (induction rule: runs_to.induct) (auto dest: step_serves)

section \<open>Properties\<close>

text \<open>
  C16: A server started on a database without an index runs the given number of workers (64 if that
  is not positive), and each of them, after any sequence of events in which nobody asked for a hash
  above the greatest entry, answers a lookup with the count the database holds (as long as the
  address of the client can be read).
\<close>

theorem server_answers:
  assumes "web_ok lib" and "database es" and "fs (so_input opts) = Some (file_of es, True)" and "so_index opts = []"
    and "server_main lib fs last_write bind now usage nw fw (Inr opts) = Serving c ws n" and "w \<in> set ws"
    and "runs_to lib w evs w'" and "list_all (harmless lib es) evs" and "plain (mBasePath w)"
  shows "length ws = nat (if so_workers opts < 1 then 64 else so_workers opts) \<and>
    (\<exists>w'' r. processRequest lib stamp (Some peer) ms (lookup_request (mBasePath w) u h) w' = Handled w'' \<and> mSent w'' = mSent w' @ [r] \<and>
       res_body r = lookup_json h (case map_of es (quad h) of None \<Rightarrow> 0 | Some c \<Rightarrow> unat c) ms)"
proof -
  obtain v and ur :: uri where v: "newWorker fs last_write (mPath ur) (so_input opts) (so_index opts) True = Inr v" "w = start now v"
    and len: "length ws = nat (server_workers opts)"
    using server_main_serving [OF assms(5)] assms(6) by blast
  have "mInspector v = inspector_on es"
    using v(1) open_database [of fs "so_input opts" es, OF assms(3)] assms(4) by (auto simp: newWorker_def)
  then have "worker_serves es w" using v(2) serves_on [OF assms(2)] by (simp add: worker_serves_def start_def)
  from runs_serves [OF assms(7) this assms(8)]
  have w': "worker_serves es w'" "mBasePath w' = mBasePath w" by auto
  obtain p n' d' where b: "binsearch (mInspector w') (h\<lparr>isValid := True\<rparr>) = Some (p, n', d')" and f: "found es (quad h) p"
    using binsearch_serves [of "mInspector w'" es "h\<lparr>isValid := True\<rparr>"] w'(1) by (auto simp: worker_serves_def)
  have "answer_of p = db_answer es (quad h)" by (rule answer_found [OF assms(2) f])
  then have "unat (phc_count p) = (case map_of es (quad h) of None \<Rightarrow> 0 | Some c \<Rightarrow> unat c)"
    by (auto simp: answer_of_def db_answer_def word_gt_0 split: if_splits option.splits)
  moreover have "\<exists>w'' r. processRequest lib stamp (Some peer) ms (lookup_request (mBasePath w) u h) w' = Handled w'' \<and> mSent w'' = mSent w' @ [r] \<and>
       res_body r = lookup_json h (unat (phc_count p)) ms"
    using process_lookup [OF assms(1) _ b, of stamp peer ms u] assms(9) w'(2) by auto
  ultimately show ?thesis using len by (simp add: server_workers_def DefaultNumWorkers_def)
qed

definition toy_options :: server_options where
  "toy_options = \<lparr>so_help = False, so_input = ''db'', so_index = [], so_address = ''http://h:1/a'', so_workers = 1,
     so_threads = 2, so_verbosity = 0\<rparr>"

lemma toy_uri: "\<exists>u. URI split_on ''http://h:1/a'' = Inr u \<and> mPath u = ''/a''"
proof -
  have "case URI split_on ''http://h:1/a'' of Inl e \<Rightarrow> False | Inr u \<Rightarrow> mPath u = ''/a''" by code_simp
  then show ?thesis by (auto split: sum.splits)
qed

theorem server_answers_witness:
  "\<exists>w w' r. server_main toy_web [''db'' \<mapsto> (file_of toy_db, True)] (\<lambda>_. 0) (\<lambda>_ _. None) 0 [] (\<lambda>_. []) (\<lambda>_. [])
       (Inr toy_options) = Serving [] [w] 2 \<and>
     processRequest toy_web [] (Some []) ''0.1'' (lookup_request ''/a'' False (hash_of_quad 2 5)) w = Handled w' \<and>
     mSent w' = mSent w @ [r] \<and> res_body r = lookup_json (hash_of_quad 2 5) 7 ''0.1''"
proof -
  let ?fs = "[''db'' \<mapsto> (file_of toy_db, True)]"
  obtain u where u: "URI split_on ''http://h:1/a'' = Inr u" "mPath u = ''/a''" using toy_uri by blast
  obtain v where v: "newWorker ?fs (\<lambda>_. 0) ''/a'' ''db'' [] True = Inr v"
    by (simp add: newWorker_def open_database [where es = toy_db])
  have run: "server_main toy_web ?fs (\<lambda>_. 0) (\<lambda>_ _. None) 0 [] (\<lambda>_. []) (\<lambda>_. []) (Inr toy_options) = Serving [] [start 0 v] 2"
    using u v by (simp add: server_main_def toy_options_def toy_web_def server_warn_def server_workers_def server_banner_def)
  have base: "mBasePath (start 0 v) = ''/a''" using v by (auto simp: newWorker_def start_def split: sum.splits prod.splits)
  have "map_of toy_db (quad (hash_of_quad 2 5)) = Some 7" by (simp add: toy_db_def hash_of_quad_def)
  then show ?thesis
    using server_answers [OF toy_web_ok toy_database _ _ run _ runs_to.start, of "start 0 v" "[]" "[]" "''0.1''" False "hash_of_quad 2 5"]
      run base by (auto simp: toy_options_def plain_def)
qed

end
