(* ===== verification/Operation.thy ===== *)
theory Operation
  imports Util Console
begin

text \<open>
  What the operation queue is made of: the counting semaphore (\<^verbatim>\<open>pwned-lib/semaphore.hpp\<close>), the
  exception operations throw (\<^verbatim>\<open>operationexception.cpp\<close>), the identifiers they print
  (\<^verbatim>\<open>uuid.cpp\<close>) and the operation itself (\<^verbatim>\<open>operation.cpp\<close>).
\<close>

section \<open>Semaphore\<close>

record semaphore =
  sem_capacity :: u32

definition newSemaphore :: "u32 \<Rightarrow> semaphore" where
  "newSemaphore n = \<lparr>sem_capacity = n\<rparr>"

definition setCapacity :: "u32 \<Rightarrow> semaphore \<Rightarrow> semaphore" where
  "setCapacity n s = (if n > 0 then s\<lparr>sem_capacity := n - sem_capacity s\<rparr> else s)"

definition sem_notify :: "semaphore \<Rightarrow> semaphore" where
  "sem_notify s = s\<lparr>sem_capacity := sem_capacity s + 1\<rparr>"

text \<open>\<open>None\<close> while the caller has to wait.\<close>

definition sem_wait :: "semaphore \<Rightarrow> semaphore option" where
  "sem_wait s = (if sem_capacity s = 0 then None else Some (s\<lparr>sem_capacity := sem_capacity s - 1\<rparr>))"

section \<open>Exceptions\<close>

record operation_exception =
  mMsg :: string
  mCode :: int

definition OperationException :: "string \<Rightarrow> int \<Rightarrow> operation_exception" where
  "OperationException message c = \<lparr>mMsg = message, mCode = c\<rparr>"

definition QueueNotSet :: int where
  "QueueNotSet = 1"

definition exception_what :: "operation_exception \<Rightarrow> string" where
  "exception_what e = mMsg e"

definition exception_code :: "operation_exception \<Rightarrow> int" where
  "exception_code e = mCode e"

section \<open>Identifiers\<close>

datatype uuid = UUID (uuid0: u64) (uuid1: u64)

text \<open>The constructor takes two values from the generator \<open>rng\<close>, whose state it moves on.\<close>

definition newUUID :: "('g \<Rightarrow> u64 \<times> 'g) \<Rightarrow> 'g \<Rightarrow> uuid \<times> 'g" where
  "newUUID rng g = (let (a, g) = rng g; (b, g) = rng g in (UUID a b, g))"

definition uuid_eq :: "uuid \<Rightarrow> uuid \<Rightarrow> bool" where
  "uuid_eq u v \<longleftrightarrow> uuid0 u = uuid0 v \<and> uuid1 u = uuid1 v"

definition uuid_text :: "uuid \<Rightarrow> string" where
  "uuid_text u =
     (let a = ucast (drop_bit 32 (uuid0 u)) :: u32;
          b = ucast ((ucast (drop_bit 16 (uuid0 u)) :: u32) AND 0xffff) :: u16;
          c = ucast ((ucast (uuid0 u) :: u32) AND 0xffff) :: u16;
          d = ucast ((ucast (drop_bit 48 (uuid0 u)) :: u32) AND 0xffff) :: u16;
          e = ucast ((ucast (drop_bit 32 (uuid0 u)) :: u32) AND 0xffff) :: u16;
          f = (ucast (uuid0 u) :: u32) AND 0xffffffff
      in padLeft 8 (CHR ''0'') (hexDigits True (unat a)) @ ''-'' @
         padLeft 4 (CHR ''0'') (hexDigits True (unat b)) @ ''-'' @
         padLeft 4 (CHR ''0'') (hexDigits True (unat c)) @ ''-'' @
         padLeft 4 (CHR ''0'') (hexDigits True (unat d)) @ ''-'' @
         padLeft 4 (CHR ''0'') (hexDigits True (unat e)) @
         padLeft 8 (CHR ''0'') (hexDigits True (unat f)))"

section \<open>Operations\<close>

record operation =
  isRunning :: bool
  isFinished :: bool
  isCancelled :: bool
  isPaused :: bool
  hasQueue :: bool
  op_uuid :: uuid
  priority :: int

definition newOperation :: "uuid \<Rightarrow> int \<Rightarrow> operation" where
  "newOperation u p =
     \<lparr>isRunning = False, isFinished = False, isCancelled = False, isPaused = False, hasQueue = False, op_uuid = u, priority = p\<rparr>"

definition setQueue :: "operation \<Rightarrow> operation" where
  "setQueue op = op\<lparr>hasQueue := True\<rparr>"

definition op_pause :: "operation \<Rightarrow> console list \<times> operation" where
  "op_pause op = ([Out (''Operation::pause() '' @ uuid_text (op_uuid op) @ endl)], op\<lparr>isPaused := True\<rparr>)"

text \<open>\<^verbatim>\<open>wait()\<close>: waiting for the queue to resume (\<open>Inr\<close>), or an exception.\<close>

definition op_wait :: "operation \<Rightarrow> operation_exception + operation" where
  "op_wait op = (if hasQueue op then Inr op else Inl (OperationException ''Queue not set'' QueueNotSet))"

text \<open>\<^verbatim>\<open>start()\<close> before and after the call of \<^verbatim>\<open>execute()\<close>, and as a whole with what
  \<^verbatim>\<open>execute()\<close> does: throw an exception, or return, with a new state of the operation.\<close>

definition op_begin :: "operation \<Rightarrow> operation" where
  "op_begin op = op\<lparr>isRunning := True, isPaused := False\<rparr>"

definition op_end :: "operation \<Rightarrow> operation" where
  "op_end op = op\<lparr>isRunning := False, isFinished := True\<rparr>"

definition op_start ::
  "(operation \<Rightarrow> operation_exception option \<times> operation) \<Rightarrow> operation \<Rightarrow> console list \<times> operation" where
  "op_start execute op =
     (if isCancelled op then ([], op)
      else case execute (op_begin op) of
             (None, op) \<Rightarrow> ([], op_end op)
           | (Some e, op) \<Rightarrow>
               ([Err (''Exception in Operation::execute(): '' @ exception_what e @ endl)], op_end op))"

text \<open>\<^verbatim>\<open>cancel()\<close> up to the wait for the operation to finish; the destructor calls it for a running
  operation.\<close>

definition op_cancel :: "operation \<Rightarrow> console list \<times> operation" where
  "op_cancel op = ([Out (''Operation::cancel()'' @ endl)], op\<lparr>isCancelled := True\<rparr>)"

definition op_destroy :: "operation \<Rightarrow> console list \<times> operation" where
  "op_destroy op = (if isRunning op then op_cancel op else ([], op))"

section \<open>Lemmas\<close>

lemma unat_sem_wait:
  assumes "sem_wait s = Some s'"
  shows "unat (sem_capacity s) = Suc (unat (sem_capacity s'))"
proof -
  have s: "sem_capacity s \<noteq> 0" "sem_capacity s' = sem_capacity s - 1"
    using assms by (auto simp: sem_wait_def split: if_splits)
  then have "unat (sem_capacity s - 1) = unat (sem_capacity s) - 1"
    by (simp add: unat_minus_one)
  moreover have "0 < unat (sem_capacity s)" using s(1) by (simp add: unat_gt_0)
  ultimately show ?thesis using s(2) by simp
qed

lemma unat_sem_notify:
  assumes "Suc (unat (sem_capacity s)) < 2 ^ 32"
  shows "unat (sem_capacity (sem_notify s)) = Suc (unat (sem_capacity s))"
proof -
  have "unat (sem_capacity s) + unat (1 :: u32) < 2 ^ LENGTH(32)" using assms by simp
  then have "unat (sem_capacity s + 1) = unat (sem_capacity s) + unat (1 :: u32)"
    using no_olen_add_nat unat_add_lem by blast
  then show ?thesis by (simp add: sem_notify_def)
qed

lemma op_start_finished:
  "\<not> isCancelled op \<Longrightarrow>
   isFinished (snd (op_start execute op)) \<and> \<not> isRunning (snd (op_start execute op))"
  by (auto simp: op_start_def op_end_def split: prod.splits option.splits)

end
