(* ===== verification/Operation_Queue.thy ===== *)
theory Operation_Queue
  imports Operation "HOL-Library.Multiset"
begin

text \<open>
  \<^verbatim>\<open>pwned-lib/operationqueue.hpp\<close>: operations run by a pool of threads in the order of their
  priority. Four kinds of threads share the queue: the one that schedules (\<^verbatim>\<open>exeThread\<close>), one per
  operation, the main thread, which runs \<^verbatim>\<open>execute(true)\<close> and \<^verbatim>\<open>waitForFinished()\<close>, and the
  thread that listens to the keyboard and calls \<^verbatim>\<open>pause()\<close>, \<^verbatim>\<open>resume()\<close> and \<^verbatim>\<open>cancel()\<close>.
  Each has a program counter, and \<open>queue_step\<close> has one rule per piece of code between two points
  where threads can be switched: taking the mutex, waiting for the semaphore, for a condition, or for
  another thread. Spurious wake-ups are not steps; what they would do is \<open>spurious_step\<close>.
\<close>

section \<open>The state\<close>

type_synonym opid = nat

datatype exe_pc = ExeNone | ExeTest | ExeCancelTest | ExeWait | ExeLock | ExeSchedule | ExeUnlock | ExeEnd

datatype thr_pc = ThrStart | ThrRun | ThrPaused | ThrLock | ThrFinished | ThrNotify | ThrEnd

datatype main_pc = MainExecute | MainWaitForScheduled | MainJoin | MainReset | MainBlocked opid | MainPop opid | MainCancelLoop
  | MainDone

datatype user_pc = UserIdle | UserPause | UserCancel | UserCancelRunning "opid list" | UserCancelWait opid "opid list"
  | UserBlocked opid | UserPop opid

text \<open>Operations are objects that several threads refer to: \<open>store\<close> maps their addresses to their
  state. \<open>opThreads\<close> lists the threads started, \<open>thr\<close> their program counters. \<open>mtx\<close> is whether
  the mutex is taken. \<open>started\<close> and \<open>executed\<close> are histories: the operations scheduled, and those
  whose \<^verbatim>\<open>start()\<close> has returned, in order.\<close>

record oqueue =
  unscheduledOps :: "opid list"
  runningOps :: "opid list"
  opThreads :: "opid list"
  thr :: "opid \<Rightarrow> thr_pc"
  store :: "opid \<Rightarrow> operation"
  guard :: semaphore
  mtx :: bool
  oq_isRunning :: bool
  oq_isCancelled :: bool
  exe :: exe_pc
  main :: main_pc
  user :: user_pc
  started :: "opid list"
  executed :: "opid list"

definition newQueue :: "u32 \<Rightarrow> (opid \<Rightarrow> operation) \<Rightarrow> oqueue" where
  "newQueue n st =
     \<lparr>unscheduledOps = [], runningOps = [], opThreads = [], thr = (\<lambda>_. ThrStart), store = st, guard = newSemaphore n,
      mtx = False, oq_isRunning = False, oq_isCancelled = False, exe = ExeNone, main = MainExecute, user = UserIdle,
      started = [], executed = []\<rparr>"

text \<open>\<^verbatim>\<open>add\<close>, before the queue is executed.\<close>

definition add :: "opid \<Rightarrow> oqueue \<Rightarrow> oqueue" where
  "add op q = q\<lparr>store := (store q)(op := setQueue (store q op)), unscheduledOps := op # unscheduledOps q\<rparr>"

definition oq_size :: "oqueue \<Rightarrow> nat" where
  "oq_size q = length (unscheduledOps q) + length (runningOps q)"

section \<open>The pieces of the code\<close>

text \<open>\<^verbatim>\<open>opGreaterPriority\<close>, and what \<^verbatim>\<open>top()\<close> may return: an operation below no other one.\<close>

definition opGreaterPriority :: "operation \<Rightarrow> operation \<Rightarrow> bool" where
  "opGreaterPriority lhs rhs \<longleftrightarrow> priority lhs < priority rhs"

definition is_top :: "oqueue \<Rightarrow> opid \<Rightarrow> bool" where
  "is_top q op \<longleftrightarrow> op \<in> set (unscheduledOps q) \<and> (\<forall>p \<in> set (unscheduledOps q). \<not> opGreaterPriority (store q op) (store q p))"

definition set_op :: "opid \<Rightarrow> (operation \<Rightarrow> operation) \<Rightarrow> oqueue \<Rightarrow> oqueue" where
  "set_op op f q = q\<lparr>store := (store q)(op := f (store q op))\<rparr>"

definition set_thr :: "opid \<Rightarrow> thr_pc \<Rightarrow> oqueue \<Rightarrow> oqueue" where
  "set_thr op pc q = q\<lparr>thr := (thr q)(op := pc)\<rparr>"

text \<open>The scheduler, holding the mutex: one operation moves to the running ones and gets a thread.\<close>

definition schedule :: "opid \<Rightarrow> oqueue \<Rightarrow> oqueue" where
  "schedule op q =
     set_thr op ThrStart
       (q\<lparr>unscheduledOps := remove1 op (unscheduledOps q), runningOps := runningOps q @ [op],
          opThreads := opThreads q @ [op], started := started q @ [op], exe := ExeUnlock\<rparr>)"

text \<open>\<^verbatim>\<open>finishedCondition.notify_one()\<close> of an operation wakes the thread that waits for it in \<^verbatim>\<open>cancel()\<close>,
  if there is one: in the loop over the running operations or in the loop over the waiting ones.\<close>

fun user_notified :: "opid \<Rightarrow> user_pc \<Rightarrow> user_pc" where
  "user_notified op (UserCancelWait p ops) = (if p = op then UserCancelRunning ops else UserCancelWait p ops)"
| "user_notified op (UserBlocked p) = (if p = op then UserPop p else UserBlocked p)"
| "user_notified op u = u"

fun main_notified :: "opid \<Rightarrow> main_pc \<Rightarrow> main_pc" where
  "main_notified op (MainBlocked p) = (if p = op then MainPop p else MainBlocked p)"
| "main_notified op m = m"

text \<open>\<^verbatim>\<open>delete op; unscheduledOps.pop()\<close>, once \<^verbatim>\<open>op->cancel()\<close> has returned.\<close>

definition cancel_pop :: "opid \<Rightarrow> oqueue \<Rightarrow> oqueue" where
  "cancel_pop op q = set_op op (snd \<circ> op_destroy) (q\<lparr>unscheduledOps := remove1 op (unscheduledOps q)\<rparr>)"

text \<open>The thread of an operation: \<^verbatim>\<open>start()\<close> returns at once when the operation is cancelled;
  when it has finished, it notifies.\<close>

definition thread_begin :: "opid \<Rightarrow> oqueue \<Rightarrow> oqueue" where
  "thread_begin op q =
     (if isCancelled (store q op) then set_thr op ThrLock (q\<lparr>executed := executed q @ [op]\<rparr>)
      else set_thr op ThrRun (set_op op op_begin q))"

definition thread_finish :: "opid \<Rightarrow> oqueue \<Rightarrow> oqueue" where
  "thread_finish op q =
     (let q = set_thr op ThrLock (set_op op op_end (q\<lparr>executed := executed q @ [op]\<rparr>))
      in q\<lparr>user := user_notified op (user q), main := main_notified op (main q)\<rparr>)"

definition finished :: "opid \<Rightarrow> oqueue \<Rightarrow> oqueue" where
  "finished op q = set_thr op ThrNotify (q\<lparr>runningOps := removeAll op (runningOps q), mtx := False\<rparr>)"

text \<open>\<^verbatim>\<open>resume()\<close> wakes every operation that waits in \<^verbatim>\<open>operationWait()\<close>.\<close>

definition wake :: "(opid \<Rightarrow> thr_pc) \<Rightarrow> opid \<Rightarrow> thr_pc" where
  "wake t op = (if t op = ThrPaused then ThrRun else t op)"

definition clear_pause :: "(opid \<Rightarrow> thr_pc) \<Rightarrow> (opid \<Rightarrow> operation) \<Rightarrow> opid \<Rightarrow> operation" where
  "clear_pause t st op = (if t op = ThrPaused then st op\<lparr>isPaused := False\<rparr> else st op)"

definition resume :: "oqueue \<Rightarrow> oqueue" where
  "resume q =
     (if oq_isCancelled q then q
      else if \<not> oq_isRunning q
      then q\<lparr>thr := wake (thr q), store := clear_pause (thr q) (store q), oq_isRunning := True\<rparr>
      else q)"

definition pause_ops :: "oqueue \<Rightarrow> oqueue" where
  "pause_ops q = q\<lparr>store := (\<lambda>op. if op \<in> set (runningOps q) then snd (op_pause (store q op)) else store q op)\<rparr>"

text \<open>\<^verbatim>\<open>reset()\<close> after its \<^verbatim>\<open>cancel()\<close> has gone through.\<close>

definition reset_done :: "oqueue \<Rightarrow> oqueue" where
  "reset_done q = q\<lparr>opThreads := [], oq_isRunning := False, oq_isCancelled := False, main := MainDone\<rparr>"

section \<open>Steps\<close>

text \<open>Steps of the queue's own threads.\<close>

inductive work_step :: "oqueue \<Rightarrow> oqueue \<Rightarrow> bool" where
  exe_test: "exe q = ExeTest \<Longrightarrow>
    work_step q (q\<lparr>exe := (if unscheduledOps q = [] then ExeEnd else ExeCancelTest)\<rparr>)"
| exe_cancel_test: "exe q = ExeCancelTest \<Longrightarrow>
    work_step q (q\<lparr>exe := (if oq_isCancelled q then ExeEnd else ExeWait)\<rparr>)"
| exe_wait: "exe q = ExeWait \<Longrightarrow> sem_wait (guard q) = Some g \<Longrightarrow> work_step q (q\<lparr>guard := g, exe := ExeLock\<rparr>)"
| exe_lock: "exe q = ExeLock \<Longrightarrow> \<not> mtx q \<Longrightarrow> work_step q (q\<lparr>mtx := True, exe := ExeSchedule\<rparr>)"
| exe_schedule: "exe q = ExeSchedule \<Longrightarrow> is_top q op \<Longrightarrow> work_step q (schedule op q)"
| exe_unlock: "exe q = ExeUnlock \<Longrightarrow> work_step q (q\<lparr>mtx := False, exe := ExeTest\<rparr>)"
| thr_begin: "op \<in> set (opThreads q) \<Longrightarrow> thr q op = ThrStart \<Longrightarrow> work_step q (thread_begin op q)"
| thr_finish: "op \<in> set (opThreads q) \<Longrightarrow> thr q op = ThrRun \<Longrightarrow> work_step q (thread_finish op q)"
| thr_lock: "op \<in> set (opThreads q) \<Longrightarrow> thr q op = ThrLock \<Longrightarrow> \<not> mtx q \<Longrightarrow>
    work_step q (set_thr op ThrFinished (q\<lparr>mtx := True\<rparr>))"
| thr_finished: "op \<in> set (opThreads q) \<Longrightarrow> thr q op = ThrFinished \<Longrightarrow> work_step q (finished op q)"
| thr_notify: "op \<in> set (opThreads q) \<Longrightarrow> thr q op = ThrNotify \<Longrightarrow>
    work_step q (set_thr op ThrEnd (q\<lparr>guard := sem_notify (guard q)\<rparr>))"
| main_execute: "main q = MainExecute \<Longrightarrow> work_step q (q\<lparr>exe := ExeTest, oq_isRunning := True, main := MainWaitForScheduled\<rparr>)"
| main_scheduled: "main q = MainWaitForScheduled \<Longrightarrow> exe q = ExeEnd \<Longrightarrow> work_step q (q\<lparr>main := MainJoin\<rparr>)"
| main_join: "main q = MainJoin \<Longrightarrow> \<forall>op \<in> set (opThreads q). thr q op = ThrEnd \<Longrightarrow> work_step q (q\<lparr>main := MainReset\<rparr>)"
| main_reset: "main q = MainReset \<Longrightarrow> \<not> mtx q \<Longrightarrow> unscheduledOps q = [] \<Longrightarrow> work_step q (reset_done q)"
| main_blocked: "main q = MainReset \<Longrightarrow> \<not> mtx q \<Longrightarrow> is_top q op \<Longrightarrow>
    work_step q (set_op op (snd \<circ> op_cancel) (q\<lparr>mtx := True, oq_isCancelled := True, main := MainBlocked op\<rparr>))"
| main_pop: "main q = MainPop op \<Longrightarrow> work_step q (cancel_pop op q\<lparr>main := MainCancelLoop\<rparr>)"
| main_next: "main q = MainCancelLoop \<Longrightarrow> is_top q op \<Longrightarrow> work_step q (set_op op (snd \<circ> op_cancel) (q\<lparr>main := MainBlocked op\<rparr>))"
| main_cancelled: "main q = MainCancelLoop \<Longrightarrow> unscheduledOps q = [] \<Longrightarrow> work_step q (reset_done (q\<lparr>mtx := False\<rparr>))"

text \<open>Steps of the thread that listens to the keyboard, and an operation's own waiting after it was
  told to pause. Cancelling an operation means waiting, with the mutex held, until a notification of
  the operation comes, for the waiting operations as for the running ones; after that a waiting
  operation is deleted and taken off the queue.\<close>

inductive user_step :: "oqueue \<Rightarrow> oqueue \<Rightarrow> bool" where
  thr_pause: "op \<in> set (opThreads q) \<Longrightarrow> thr q op = ThrRun \<Longrightarrow> isPaused (store q op) \<Longrightarrow>
    user_step q (set_thr op ThrPaused q)"
| user_pause: "user q = UserIdle \<Longrightarrow> \<not> oq_isCancelled q \<Longrightarrow> oq_isRunning q \<Longrightarrow>
    user_step q (pause_ops q\<lparr>user := UserPause\<rparr>)"
| user_paused: "user q = UserPause \<Longrightarrow> \<not> mtx q \<Longrightarrow> user_step q (q\<lparr>oq_isRunning := False, user := UserIdle\<rparr>)"
| user_resume: "user q = UserIdle \<Longrightarrow> user_step q (resume q)"
| user_cancel: "user q = UserIdle \<Longrightarrow> user_step q (q\<lparr>user := UserCancel\<rparr>)"
| user_cancel_lock: "user q = UserCancel \<Longrightarrow> \<not> mtx q \<Longrightarrow>
    user_step q (q\<lparr>mtx := True, oq_isCancelled := True, user := UserCancelRunning (runningOps q)\<rparr>)"
| user_cancel_op: "user q = UserCancelRunning (op # ops) \<Longrightarrow>
    user_step q (set_op op (snd \<circ> op_cancel) (q\<lparr>user := UserCancelWait op ops\<rparr>))"
| user_cancel_end: "user q = UserCancelRunning [] \<Longrightarrow> unscheduledOps q = [] \<Longrightarrow>
    user_step q (q\<lparr>mtx := False, user := UserIdle\<rparr>)"
| user_blocked: "user q = UserCancelRunning [] \<Longrightarrow> is_top q op \<Longrightarrow>
    user_step q (set_op op (snd \<circ> op_cancel) (q\<lparr>user := UserBlocked op\<rparr>))"
| user_pop: "user q = UserPop op \<Longrightarrow> user_step q (cancel_pop op q\<lparr>user := UserCancelRunning []\<rparr>)"

definition queue_step :: "oqueue \<Rightarrow> oqueue \<Rightarrow> bool" where
  "queue_step q q' \<longleftrightarrow> work_step q q' \<or> user_step q q'"

text \<open>The conditions are waited for without a predicate, so that a thread that waits may go on although
  nobody has notified it.\<close>

inductive spurious_step :: "oqueue \<Rightarrow> oqueue \<Rightarrow> bool" where
  thr_paused: "thr q op = ThrPaused \<Longrightarrow> spurious_step q (set_thr op ThrRun q)"
| user_wait: "user q = UserCancelWait op ops \<Longrightarrow> spurious_step q (q\<lparr>user := UserCancelRunning ops\<rparr>)"
| user_blocked: "user q = UserBlocked op \<Longrightarrow> spurious_step q (q\<lparr>user := UserPop op\<rparr>)"
| main_blocked: "main q = MainBlocked op \<Longrightarrow> spurious_step q (q\<lparr>main := MainPop op\<rparr>)"

text \<open>The initial states: any operations added in any order.\<close>

definition initial :: "u32 \<Rightarrow> (opid \<Rightarrow> operation) \<Rightarrow> opid list \<Rightarrow> oqueue" where
  "initial n st ops = fold add ops (newQueue n st)"

inductive reachable :: "oqueue \<Rightarrow> oqueue \<Rightarrow> bool" for q0 where
  init: "reachable q0 q0"
| step: "reachable q0 q \<Longrightarrow> queue_step q q' \<Longrightarrow> reachable q0 q'"

lemmas step_defs = schedule_def thread_begin_def thread_finish_def finished_def set_thr_def set_op_def resume_def
  pause_ops_def reset_done_def cancel_pop_def

section \<open>What stays put\<close>

lemma initial_simps:
  "unscheduledOps (initial n st ops) = rev ops" "runningOps (initial n st ops) = []" "opThreads (initial n st ops) = []"
  "thr (initial n st ops) = (\<lambda>_. ThrStart)" "guard (initial n st ops) = newSemaphore n" "\<not> mtx (initial n st ops)"
  "\<not> oq_isRunning (initial n st ops)" "\<not> oq_isCancelled (initial n st ops)" "exe (initial n st ops) = ExeNone"
  "main (initial n st ops) = MainExecute" "user (initial n st ops) = UserIdle" "started (initial n st ops) = []"
  "executed (initial n st ops) = []" "priority (store (initial n st ops) p) = priority (st p)"
  "isCancelled (store (initial n st ops) p) = isCancelled (st p)"
proof -
  have *: "unscheduledOps (fold add ops q) = rev ops @ unscheduledOps q \<and> runningOps (fold add ops q) = runningOps q \<and>
      opThreads (fold add ops q) = opThreads q \<and> thr (fold add ops q) = thr q \<and> guard (fold add ops q) = guard q \<and>
      mtx (fold add ops q) = mtx q \<and> oq_isRunning (fold add ops q) = oq_isRunning q \<and>
      oq_isCancelled (fold add ops q) = oq_isCancelled q \<and> exe (fold add ops q) = exe q \<and> main (fold add ops q) = main q \<and>
      user (fold add ops q) = user q \<and> started (fold add ops q) = started q \<and> executed (fold add ops q) = executed q \<and>
      priority (store (fold add ops q) p) = priority (store q p) \<and> isCancelled (store (fold add ops q) p) = isCancelled (store q p)" for q
    by (induction ops arbitrary: q) (auto simp: add_def setQueue_def)
  show "unscheduledOps (initial n st ops) = rev ops" "runningOps (initial n st ops) = []" "opThreads (initial n st ops) = []"
  "thr (initial n st ops) = (\<lambda>_. ThrStart)" "guard (initial n st ops) = newSemaphore n" "\<not> mtx (initial n st ops)"
  "\<not> oq_isRunning (initial n st ops)" "\<not> oq_isCancelled (initial n st ops)" "exe (initial n st ops) = ExeNone"
  "main (initial n st ops) = MainExecute" "user (initial n st ops) = UserIdle" "started (initial n st ops) = []"
  "executed (initial n st ops) = []" "priority (store (initial n st ops) p) = priority (st p)"
  "isCancelled (store (initial n st ops) p) = isCancelled (st p)"
    using * [of "newQueue n st"] by (simp_all add: initial_def newQueue_def)
qed

lemma op_changes [simp]:
  "priority (op_begin x) = priority x" "priority (op_end x) = priority x" "priority (snd (op_pause x)) = priority x"
  "priority (snd (op_cancel x)) = priority x" "priority (snd (op_destroy x)) = priority x"
  by (simp_all add: op_begin_def op_end_def op_pause_def op_cancel_def op_destroy_def)

lemma clear_pause_priority [simp]: "priority (clear_pause t st p) = priority (st p)"
  by (simp add: clear_pause_def)

lemma step_priority: "queue_step q q' \<Longrightarrow> priority (store q' p) = priority (store q p)"
  unfolding queue_step_def
  by (erule disjE; erule work_step.cases user_step.cases)
    (auto simp: step_defs Let_def split: user_pc.splits)

lemma reachable_priority: "reachable q0 q \<Longrightarrow> priority (store q p) = priority (store q0 p)"
  by (induction rule: reachable.induct) (simp_all add: step_priority)

section \<open>Invariants\<close>

text \<open>Every operation added waits or has been started, once.\<close>

definition inv_places :: "opid list \<Rightarrow> oqueue \<Rightarrow> bool" where
  "inv_places ops q \<longleftrightarrow> mset (started q) + mset (unscheduledOps q) = mset ops"

text \<open>A thread that waits for an operation in the loop over the waiting ones waits for one that is
  still there, so that nobody runs it, and has never been notified.\<close>

definition inv_blocked :: "oqueue \<Rightarrow> bool" where
  "inv_blocked q \<longleftrightarrow> (\<forall>op. user q \<noteq> UserPop op \<and> main q \<noteq> MainPop op \<and>
     (user q = UserBlocked op \<or> main q = MainBlocked op \<longrightarrow> op \<in> set (unscheduledOps q))) \<and> main q \<noteq> MainCancelLoop"

lemma inv_blocked_no_pop:
  "inv_blocked q \<Longrightarrow> user q \<noteq> UserPop op" "inv_blocked q \<Longrightarrow> main q \<noteq> MainPop op" "inv_blocked q \<Longrightarrow> main q \<noteq> MainCancelLoop"
  by (simp_all add: inv_blocked_def)

text \<open>How far the main thread is, and what it has waited for.\<close>

fun is_blocked :: "main_pc \<Rightarrow> bool" where
  "is_blocked (MainBlocked _) = True"
| "is_blocked (MainPop _) = True"
| "is_blocked MainCancelLoop = True"
| "is_blocked _ = False"

definition main_joined :: "oqueue \<Rightarrow> bool" where
  "main_joined q \<longleftrightarrow> main q \<in> {MainReset, MainDone} \<or> is_blocked (main q)"

definition inv_main :: "oqueue \<Rightarrow> bool" where
  "inv_main q \<longleftrightarrow> (main q = MainExecute \<longleftrightarrow> exe q = ExeNone) \<and> (main q = MainJoin \<or> main_joined q \<longrightarrow> exe q = ExeEnd) \<and>
     (main_joined q \<longrightarrow> (\<forall>op \<in> set (started q). thr q op = ThrEnd)) \<and>
     opThreads q = (if main q = MainDone then [] else started q)"

lemma wake_end [simp]: "wake t op = ThrEnd \<longleftrightarrow> t op = ThrEnd"
  by (simp add: wake_def)

lemma step_places:
  assumes "queue_step q q'" and "inv_places ops q" and "inv_blocked q"
  shows "inv_places ops q'"
proof -
  have "inv_places ops (schedule op q)" if "is_top q op" for op
  proof -
    have "mset (unscheduledOps q) = add_mset op (mset (remove1 op (unscheduledOps q)))"
      using that by (simp add: is_top_def)
    then show ?thesis using assms(2)
      by (simp add: inv_places_def step_defs) (metis union_mset_add_mset_right)
  qed
  then show ?thesis
    using assms inv_blocked_no_pop [OF assms(3)] unfolding queue_step_def
    by (elim disjE; elim work_step.cases user_step.cases)
      (auto simp: inv_places_def step_defs Let_def)
qed

lemma inv_main_keep:
  assumes "inv_main q" and "main q' = main q" and "exe q' = exe q" and "started q' = started q" and "opThreads q' = opThreads q"
    and "\<And>op. thr q op = ThrEnd \<Longrightarrow> thr q' op = ThrEnd"
  shows "inv_main q'"
  using assms by (auto simp: inv_main_def main_joined_def)

lemma thread_steps_keep [simp]:
  "main (thread_begin op q) = main q" "exe (thread_begin op q) = exe q" "started (thread_begin op q) = started q"
  "opThreads (thread_begin op q) = opThreads q"
  "main (thread_finish op q) = main_notified op (main q)" "exe (thread_finish op q) = exe q" "started (thread_finish op q) = started q"
  "opThreads (thread_finish op q) = opThreads q"
  "main (finished op q) = main q" "exe (finished op q) = exe q" "started (finished op q) = started q"
  "opThreads (finished op q) = opThreads q"
  "main (resume q) = main q" "exe (resume q) = exe q" "started (resume q) = started q" "opThreads (resume q) = opThreads q"
  "main (pause_ops q) = main q" "exe (pause_ops q) = exe q" "started (pause_ops q) = started q" "opThreads (pause_ops q) = opThreads q"
  "main (set_thr op pc q) = main q" "exe (set_thr op pc q) = exe q" "started (set_thr op pc q) = started q"
  "opThreads (set_thr op pc q) = opThreads q"
  "main (set_op op f q) = main q" "exe (set_op op f q) = exe q" "started (set_op op f q) = started q"
  "main (cancel_pop op q) = main q" "exe (cancel_pop op q) = exe q" "started (cancel_pop op q) = started q"
  "opThreads (cancel_pop op q) = opThreads q" "thr (cancel_pop op q) = thr q"
  "opThreads (set_op op f q) = opThreads q" "thr (set_op op f q) = thr q" "thr (set_thr op pc q) = (thr q)(op := pc)"
  by (simp_all add: step_defs Let_def split: user_pc.splits)

lemma thread_pcs:
  "thr (thread_begin op q) = (thr q)(op := if isCancelled (store q op) then ThrLock else ThrRun)"
  "thr (thread_finish op q) = (thr q)(op := ThrLock)"
  "thr (finished op q) = (thr q)(op := ThrNotify)"
  "thr (resume q) = (if \<not> oq_isCancelled q \<and> \<not> oq_isRunning q then wake (thr q) else thr q)"
  "thr (pause_ops q) = thr q"
  by (simp_all add: step_defs Let_def split: user_pc.splits)

lemma user_step_main: "user_step q q' \<Longrightarrow> inv_main q \<Longrightarrow> inv_main q'"
  by (erule user_step.cases; erule inv_main_keep) (auto simp: thread_pcs)

lemma work_step_main:
  assumes "work_step q q'" and "inv_main q"
  shows "inv_main q'"
  using assms(1)
proof (cases rule: work_step.cases)
  case (thr_begin op)
  then show ?thesis using assms(2) by (auto simp: thread_pcs intro!: inv_main_keep [OF assms(2)] split: if_splits)
next
  case (thr_finish op)
  have "op \<in> set (started q)" using thr_finish(2) assms(2) by (auto simp: inv_main_def split: if_splits)
  then have "\<not> main_joined q" using thr_finish(3) assms(2) by (auto simp: inv_main_def)
  then have "main_notified op (main q) = main q" by (cases "main q") (simp_all add: main_joined_def)
  then show ?thesis using thr_finish by (auto simp: thread_pcs intro!: inv_main_keep [OF assms(2)] split: if_splits)
next
  case (thr_lock op)
  then show ?thesis using assms(2) by (auto intro!: inv_main_keep [OF assms(2)])
next
  case (thr_finished op)
  then show ?thesis using assms(2) by (auto simp: thread_pcs intro!: inv_main_keep [OF assms(2)] split: if_splits)
next
  case (thr_notify op)
  then show ?thesis using assms(2) by (auto intro!: inv_main_keep [OF assms(2)])
qed (use assms(2) in \<open>auto simp: inv_main_def main_joined_def schedule_def reset_done_def\<close>)

lemma step_main: "queue_step q q' \<Longrightarrow> inv_main q \<Longrightarrow> inv_main q'"
  unfolding queue_step_def using user_step_main work_step_main by blast

text \<open>The scheduler only takes an operation from a queue that holds one.\<close>

definition inv_exe :: "oqueue \<Rightarrow> bool" where
  "inv_exe q \<longleftrightarrow> (exe q \<in> {ExeCancelTest, ExeWait, ExeLock, ExeSchedule} \<longrightarrow> unscheduledOps q \<noteq> [])"

lemma step_exe:
  assumes "queue_step q q'" and "inv_exe q" and "inv_blocked q"
  shows "inv_exe q'"
  using assms inv_blocked_no_pop [OF assms(3)] unfolding queue_step_def
  by (elim disjE; elim work_step.cases user_step.cases)
    (auto simp: inv_exe_def step_defs Let_def split: user_pc.splits if_splits)

text \<open>Priorities: what has been started goes before what waits.\<close>

definition inv_order :: "(opid \<Rightarrow> int) \<Rightarrow> oqueue \<Rightarrow> bool" where
  "inv_order p q \<longleftrightarrow> (\<forall>op. priority (store q op) = p op) \<and>
     sorted_wrt (\<lambda>a b. p b \<le> p a) (started q) \<and> (\<forall>a \<in> set (started q). \<forall>b \<in> set (unscheduledOps q). p b \<le> p a)"

lemma step_order:
  assumes "queue_step q q'" and "inv_order p q" and "inv_blocked q"
  shows "inv_order p q'"
proof -
  have pr: "priority (store q' op) = p op" for op
    using step_priority [OF assms(1)] assms(2) by (simp add: inv_order_def)
  have "inv_order p (schedule op q)" if "is_top q op" for op
    using that assms(2)
    by (auto simp: inv_order_def schedule_def set_thr_def is_top_def opGreaterPriority_def sorted_wrt_append not_less
        dest: notin_set_remove1 set_remove1_subset [THEN subsetD])
  then show ?thesis
    using assms pr inv_blocked_no_pop [OF assms(3)] unfolding queue_step_def
    by (elim disjE; elim work_step.cases user_step.cases)
      (auto simp: inv_order_def step_defs Let_def split: user_pc.splits)
qed

text \<open>Counting the threads in a given state.\<close>

definition thr_count :: "(thr_pc \<Rightarrow> nat) \<Rightarrow> oqueue \<Rightarrow> nat" where
  "thr_count f q = (\<Sum>op \<in> set (started q). f (thr q op))"

lemma sum_upd:
  assumes "op \<in> set xs"
  shows "(\<Sum>x \<in> set xs. f ((t(op := pc)) x)) + f (t op) = (\<Sum>x \<in> set xs. f (t x)) + (f pc :: nat)"
proof -
  have "(\<Sum>x \<in> set xs. f ((t(op := pc)) x)) = f pc + (\<Sum>x \<in> set xs - {op}. f (t x))"
  proof -
    have "(\<Sum>x \<in> set xs - {op}. f ((t(op := pc)) x)) = (\<Sum>x \<in> set xs - {op}. f (t x))" by (intro sum.cong) auto
    then show ?thesis using sum.remove [OF finite_set assms, of "\<lambda>x. f ((t(op := pc)) x)"] by simp
  qed
  moreover have "(\<Sum>x \<in> set xs. f (t x)) = f (t op) + (\<Sum>x \<in> set xs - {op}. f (t x))"
    by (rule sum.remove [OF finite_set assms])
  ultimately show ?thesis by simp
qed

lemma thr_count_move:
  assumes "op \<in> set (started q)" and "thr q' = (thr q)(op := pc)" and "started q' = started q"
  shows "thr_count f q' + f (thr q op) = thr_count f q + f pc"
  using sum_upd [OF assms(1), of f "thr q" pc] by (simp only: thr_count_def assms(2,3))

lemma thr_count_schedule:
  assumes "op \<notin> set (started q)"
  shows "thr_count f (schedule op q) = thr_count f q + f ThrStart"
  using assms by (auto simp: thr_count_def schedule_def intro!: sum.cong)

lemma thr_count_same:
  "thr q' = thr q \<Longrightarrow> started q' = started q \<Longrightarrow> thr_count f q' = thr_count f q"
  by (simp add: thr_count_def)

lemma thr_count_wake:
  "f ThrPaused = f ThrRun \<Longrightarrow> thr_count f (resume q) = thr_count f q"
  by (auto simp: thr_count_def thread_pcs wake_def intro!: sum.cong)

text \<open>The permits of the semaphore: free, or held by a thread that has not given it back, or by the
  scheduler on behalf of the next one. So it never wraps around.\<close>

definition holds_permit :: "thr_pc \<Rightarrow> nat" where
  "holds_permit pc = (if pc = ThrEnd then 0 else 1)"

definition inv_permits :: "u32 \<Rightarrow> oqueue \<Rightarrow> bool" where
  "inv_permits n q \<longleftrightarrow>
     unat (sem_capacity (guard q)) + thr_count holds_permit q + (if exe q \<in> {ExeLock, ExeSchedule} then 1 else 0) = unat n"

definition inv_started :: "opid list \<Rightarrow> oqueue \<Rightarrow> bool" where
  "inv_started ops q \<longleftrightarrow> distinct ops \<and> inv_places ops q \<and> inv_main q \<and> inv_blocked q"

lemma inv_started_no_pop:
  "inv_started ops q \<Longrightarrow> user q \<noteq> UserPop op" "inv_started ops q \<Longrightarrow> main q \<noteq> MainPop op"
  "inv_started ops q \<Longrightarrow> main q \<noteq> MainCancelLoop"
  by (simp_all add: inv_started_def inv_blocked_no_pop)

lemma inv_started_distinct: "inv_started ops q \<Longrightarrow> distinct (started q @ unscheduledOps q)"
  unfolding inv_started_def inv_places_def by (metis mset_append mset_eq_imp_distinct_iff)

lemma inv_started_top: "inv_started ops q \<Longrightarrow> is_top q op \<Longrightarrow> op \<notin> set (started q)"
  using inv_started_distinct [of ops q] by (auto simp: is_top_def)

lemma inv_started_thread: "inv_started ops q \<Longrightarrow> op \<in> set (opThreads q) \<Longrightarrow> op \<in> set (started q)"
  by (auto simp: inv_started_def inv_main_def split: if_splits)

lemma guard_keep [simp]:
  "guard (thread_begin op q) = guard q" "guard (thread_finish op q) = guard q" "guard (finished op q) = guard q"
  "guard (cancel_pop op q) = guard q" "guard (resume q) = guard q" "guard (pause_ops q) = guard q" "guard (set_thr op pc q) = guard q" "guard (set_op op f q) = guard q"
  "guard (schedule op q) = guard q" "exe (schedule op q) = ExeUnlock"
  by (simp_all add: step_defs Let_def split: user_pc.splits)

lemma work_step_permits:
  assumes "work_step q q'" and "inv_permits n q" and "inv_started ops q"
  shows "inv_permits n q'"
  using assms(1)
proof (cases rule: work_step.cases)
  case (exe_wait g)
  then show ?thesis using assms(2) unat_sem_wait [of "guard q" g] by (simp add: inv_permits_def thr_count_def)
next
  case (exe_schedule op)
  then show ?thesis
    using assms(2) thr_count_schedule [OF inv_started_top [OF assms(3)]] by (simp add: inv_permits_def holds_permit_def)
next
  case (thr_begin op)
  then show ?thesis
    using assms(2) thr_count_move [OF inv_started_thread [OF assms(3)] thread_pcs(1), of op holds_permit]
    by (simp add: inv_permits_def holds_permit_def split: if_splits)
next
  case (thr_finish op)
  then show ?thesis
    using assms(2) thr_count_move [OF inv_started_thread [OF assms(3)] thread_pcs(2), of op holds_permit]
    by (simp add: inv_permits_def holds_permit_def)
next
  case (thr_lock op)
  then show ?thesis
    using assms(2) thr_count_move [OF inv_started_thread [OF assms(3)], of op q' ThrFinished holds_permit]
    by (simp add: inv_permits_def holds_permit_def)
next
  case (thr_finished op)
  then show ?thesis
    using assms(2) thr_count_move [OF inv_started_thread [OF assms(3)] thread_pcs(3), of op holds_permit]
    by (simp add: inv_permits_def holds_permit_def)
next
  case (thr_notify op)
  have c: "thr_count holds_permit q = Suc (thr_count holds_permit q')"
    using thr_notify thr_count_move [OF inv_started_thread [OF assms(3)], of op q' ThrEnd holds_permit]
    by (simp add: holds_permit_def)
  have "Suc (unat (sem_capacity (guard q))) < 2 ^ 32 \<or> unat (sem_capacity (guard q)) + 1 \<le> unat n"
    using assms(2) c by (simp add: inv_permits_def)
  moreover have "unat n < 2 ^ 32" using unsigned_less [of n, where ?'a = nat] by simp
  ultimately have "Suc (unat (sem_capacity (guard q))) < 2 ^ 32 " using assms(2) c by (simp add: inv_permits_def)
  then show ?thesis using assms(2) c thr_notify unat_sem_notify [of "guard q"] by (simp add: inv_permits_def)
next
  case main_execute
  then have "exe q = ExeNone" using assms(3) by (simp add: inv_started_def inv_main_def)
  then show ?thesis using main_execute assms(2) by (simp add: inv_permits_def thr_count_def)
qed (use assms(2) in \<open>simp_all add: inv_permits_def thr_count_def reset_done_def\<close>)

lemma user_step_permits:
  assumes "user_step q q'" and "inv_permits n q" and "inv_started ops q"
  shows "inv_permits n q'"
  using assms(1)
proof (cases rule: user_step.cases)
  case (thr_pause op)
  then show ?thesis
    using assms(2) thr_count_move [OF inv_started_thread [OF assms(3)], of op q' ThrPaused holds_permit]
    by (simp add: inv_permits_def holds_permit_def)
next
  case user_resume
  then show ?thesis using assms(2) thr_count_wake [of holds_permit q] by (simp add: inv_permits_def holds_permit_def)
qed (use assms(2) in \<open>simp_all add: inv_permits_def thr_count_def thread_pcs\<close>)

text \<open>The mutex has one owner at most. A thread that cancels keeps it.\<close>

definition cancelling :: "oqueue \<Rightarrow> bool" where
  "cancelling q \<longleftrightarrow> (case user q of UserCancelRunning _ \<Rightarrow> True | UserCancelWait _ _ \<Rightarrow> True | UserBlocked _ \<Rightarrow> True
     | UserPop _ \<Rightarrow> True | _ \<Rightarrow> False)"

definition owns_mutex :: "thr_pc \<Rightarrow> nat" where
  "owns_mutex pc = (if pc = ThrFinished then 1 else 0)"

definition inv_mutex :: "oqueue \<Rightarrow> bool" where
  "inv_mutex q \<longleftrightarrow>
     thr_count owns_mutex q + (if exe q \<in> {ExeSchedule, ExeUnlock} then 1 else 0) + (if cancelling q then 1 else 0) +
     (if is_blocked (main q) then 1 else 0) = (if mtx q then 1 else 0)"

lemma mtx_keep [simp]:
  "mtx (thread_begin op q) = mtx q" "mtx (thread_finish op q) = mtx q" "\<not> mtx (finished op q)" "mtx (resume q) = mtx q"
  "mtx (cancel_pop op q) = mtx q" "mtx (pause_ops q) = mtx q" "mtx (set_thr op pc q) = mtx q" "mtx (set_op op f q) = mtx q" "mtx (schedule op q) = mtx q"
  "main (schedule op q) = main q" "mtx (reset_done q) = mtx q"
  by (simp_all add: step_defs Let_def split: user_pc.splits)

lemma user_keep [simp]:
  "user (thread_finish op q) = user_notified op (user q)" "user (cancel_pop op q) = user q"
  "user (thread_begin op q) = user q" "user (finished op q) = user q" "user (resume q) = user q"
  "user (pause_ops q) = user q" "user (set_thr op pc q) = user q" "user (set_op op f q) = user q" "user (schedule op q) = user q"
  by (simp_all add: step_defs Let_def split: user_pc.splits)

lemma notified_keep [simp]:
  "(case user_notified op u of UserCancelRunning _ \<Rightarrow> True | UserCancelWait _ _ \<Rightarrow> True | UserBlocked _ \<Rightarrow> True
     | UserPop _ \<Rightarrow> True | _ \<Rightarrow> False) =
   (case u of UserCancelRunning _ \<Rightarrow> True | UserCancelWait _ _ \<Rightarrow> True | UserBlocked _ \<Rightarrow> True | UserPop _ \<Rightarrow> True | _ \<Rightarrow> False)"
  "is_blocked (main_notified op m) = is_blocked m"
  by (cases u; simp) (cases m; simp)

lemma cancelling_keep [simp]:
  "cancelling (thread_begin op q) = cancelling q" "cancelling (finished op q) = cancelling q" "cancelling (resume q) = cancelling q"
  "cancelling (thread_finish op q) = cancelling q" "cancelling (cancel_pop op q) = cancelling q" "cancelling (pause_ops q) = cancelling q"
  "cancelling (set_thr op pc q) = cancelling q" "cancelling (set_op op f q) = cancelling q" "cancelling (schedule op q) = cancelling q"
  by (simp_all add: cancelling_def)

lemma field_keep [simp]:
  "cancelling (q\<lparr>exe := e\<rparr>) = cancelling q" "cancelling (q\<lparr>main := m\<rparr>) = cancelling q" "cancelling (q\<lparr>mtx := b\<rparr>) = cancelling q"
  "cancelling (q\<lparr>guard := g\<rparr>) = cancelling q" "cancelling (q\<lparr>oq_isRunning := b\<rparr>) = cancelling q"
  "cancelling (q\<lparr>oq_isCancelled := b\<rparr>) = cancelling q" "cancelling (q\<lparr>opThreads := ts\<rparr>) = cancelling q"
  "thr_count f (q\<lparr>exe := e\<rparr>) = thr_count f q" "thr_count f (q\<lparr>main := m\<rparr>) = thr_count f q" "thr_count f (q\<lparr>mtx := b\<rparr>) = thr_count f q"
  "thr_count f (q\<lparr>guard := g\<rparr>) = thr_count f q" "thr_count f (q\<lparr>oq_isRunning := b\<rparr>) = thr_count f q"
  "thr_count f (q\<lparr>oq_isCancelled := b\<rparr>) = thr_count f q" "thr_count f (q\<lparr>opThreads := ts\<rparr>) = thr_count f q"
  "thr_count f (q\<lparr>user := u\<rparr>) = thr_count f q" "thr_count f (set_op op g' q) = thr_count f q" "thr_count f (pause_ops q) = thr_count f q"
  "thr_count f (cancel_pop op q) = thr_count f q"
  by (simp_all add: cancelling_def thr_count_def thread_pcs)

lemma work_step_mutex:
  assumes "work_step q q'" and "inv_mutex q" and "inv_started ops q"
  shows "inv_mutex q'"
  using assms(1)
proof (cases rule: work_step.cases)
  case exe_test
  then show ?thesis using assms(2) by (auto simp: inv_mutex_def split: if_splits)
next
  case exe_cancel_test
  then show ?thesis using assms(2) by (auto simp: inv_mutex_def split: if_splits)
next
  case (exe_schedule op)
  then show ?thesis
    using assms(2) thr_count_schedule [OF inv_started_top [OF assms(3)]] by (simp add: inv_mutex_def owns_mutex_def)
next
  case (thr_begin op)
  then show ?thesis
    using assms(2) thr_count_move [OF inv_started_thread [OF assms(3)] thread_pcs(1), of op owns_mutex]
    by (simp add: inv_mutex_def owns_mutex_def split: if_splits)
next
  case (thr_finish op)
  then show ?thesis
    using assms(2) thr_count_move [OF inv_started_thread [OF assms(3)] thread_pcs(2), of op owns_mutex]
    by (simp add: inv_mutex_def owns_mutex_def)
next
  case (thr_lock op)
  then show ?thesis
    using assms(2) thr_count_move [OF inv_started_thread [OF assms(3)], of op q' ThrFinished owns_mutex]
    by (simp add: inv_mutex_def owns_mutex_def)
next
  case (thr_finished op)
  then show ?thesis
    using assms(2) thr_count_move [OF inv_started_thread [OF assms(3)] thread_pcs(3), of op owns_mutex]
    by (simp add: inv_mutex_def owns_mutex_def split: if_splits)
next
  case (thr_notify op)
  then show ?thesis
    using assms(2) thr_count_move [OF inv_started_thread [OF assms(3)], of op q' ThrEnd owns_mutex]
    by (simp add: inv_mutex_def owns_mutex_def)
next
  case main_execute
  then have "exe q = ExeNone" using assms(3) by (simp add: inv_started_def inv_main_def)
  then show ?thesis using main_execute assms(2) by (auto simp: inv_mutex_def split: if_splits)
next
  case (main_blocked op)
  then show ?thesis using assms(2) by (simp add: inv_mutex_def)
qed (use assms(2) in \<open>simp_all add: inv_mutex_def reset_done_def split: if_splits\<close>)

lemma user_step_mutex:
  assumes "user_step q q'" and "inv_mutex q" and "inv_started ops q"
  shows "inv_mutex q'"
  using assms(1)
proof (cases rule: user_step.cases)
  case (thr_pause op)
  then show ?thesis
    using assms(2) thr_count_move [OF inv_started_thread [OF assms(3)], of op q' ThrPaused owns_mutex]
    by (simp add: inv_mutex_def owns_mutex_def)
next
  case user_resume
  then show ?thesis using assms(2) thr_count_wake [of owns_mutex q] by (simp add: inv_mutex_def owns_mutex_def)
next
  case user_cancel_end
  then have "cancelling q" by (simp add: cancelling_def)
  then show ?thesis using assms(2) user_cancel_end by (auto simp: inv_mutex_def cancelling_def split: if_splits)
qed (use assms(2) in \<open>simp_all add: inv_mutex_def cancelling_def [of "_\<lparr>user := _\<rparr>"] cancelling_def [of "set_op _ _ _"] cancelling_def [of q]\<close>)

text \<open>The running operations are those whose thread has not yet taken them off, and the executed ones
  those whose \<^verbatim>\<open>start()\<close> has returned.\<close>

definition inv_running :: "oqueue \<Rightarrow> bool" where
  "inv_running q \<longleftrightarrow> runningOps q = filter (\<lambda>op. thr q op \<notin> {ThrNotify, ThrEnd}) (started q)"

definition inv_executed :: "oqueue \<Rightarrow> bool" where
  "inv_executed q \<longleftrightarrow> distinct (executed q) \<and>
     set (executed q) = {op \<in> set (started q). thr q op \<notin> {ThrStart, ThrRun, ThrPaused}}"

lemma lists_keep [simp]:
  "runningOps (thread_begin op q) = runningOps q" "runningOps (thread_finish op q) = runningOps q"
  "runningOps (finished op q) = removeAll op (runningOps q)" "runningOps (resume q) = runningOps q"
  "runningOps (pause_ops q) = runningOps q" "runningOps (set_thr op pc q) = runningOps q" "runningOps (set_op op f q) = runningOps q"
  "runningOps (schedule op q) = runningOps q @ [op]"
  "executed (thread_begin op q) = (if isCancelled (store q op) then executed q @ [op] else executed q)"
  "executed (thread_finish op q) = executed q @ [op]"
  "executed (finished op q) = executed q" "executed (resume q) = executed q"
  "executed (pause_ops q) = executed q" "executed (set_thr op pc q) = executed q" "executed (set_op op f q) = executed q"
  "runningOps (cancel_pop op q) = runningOps q" "executed (cancel_pop op q) = executed q"
  "executed (schedule op q) = executed q" "started (schedule op q) = started q @ [op]" "thr (schedule op q) = (thr q)(op := ThrStart)"
  by (simp_all add: step_defs Let_def split: user_pc.splits)

lemma filter_thr_same:
  "(pc \<in> A \<longleftrightarrow> t op \<in> A) \<Longrightarrow> filter (\<lambda>x. (t(op := pc)) x \<notin> A) xs = filter (\<lambda>x. t x \<notin> A) xs"
  by (auto intro!: filter_cong)

lemma step_running:
  assumes "queue_step q q'" and "inv_running q" and "inv_started ops q"
  shows "inv_running q'"
proof -
  note top = inv_started_top [OF assms(3)]
  have w: "inv_running q'" if "work_step q q'"
    using that
  proof (cases rule: work_step.cases)
    case (exe_schedule op)
    from top [OF this(3)] have "filter (\<lambda>x. ((thr q)(op := ThrStart)) x \<notin> {ThrNotify, ThrEnd}) (started q) =
        filter (\<lambda>x. thr q x \<notin> {ThrNotify, ThrEnd}) (started q)" by (intro filter_cong) auto
    then show ?thesis using exe_schedule(1) assms(2) by (simp add: inv_running_def)
  next
    case (thr_finished op)
    have "filter (\<lambda>x. ((thr q)(op := ThrNotify)) x \<notin> {ThrNotify, ThrEnd}) (started q) =
        removeAll op (filter (\<lambda>x. thr q x \<notin> {ThrNotify, ThrEnd}) (started q))"
      unfolding removeAll_filter_not_eq filter_filter by (intro filter_cong) auto
    then show ?thesis using thr_finished(1) assms(2) by (simp only: inv_running_def lists_keep thread_pcs thread_steps_keep)
  qed (use assms(2) in \<open>auto simp: inv_running_def thread_pcs reset_done_def intro!: filter_cong\<close>)
  have u: "inv_running q'" if "user_step q q'"
    using that
    by (cases rule: user_step.cases) (use assms(2) in \<open>auto simp: inv_running_def thread_pcs wake_def intro!: filter_cong\<close>)
  show ?thesis using w u assms(1) by (auto simp: queue_step_def)
qed

definition returned :: "thr_pc \<Rightarrow> bool" where
  "returned pc \<longleftrightarrow> pc \<notin> {ThrStart, ThrRun, ThrPaused}"

lemma inv_executed_keep:
  assumes "inv_executed q" and "executed q' = executed q" and "started q' = started q"
    and "\<And>op. op \<in> set (started q) \<Longrightarrow> returned (thr q' op) \<longleftrightarrow> returned (thr q op)"
  shows "inv_executed q'"
proof -
  have "{op \<in> set (started q). returned (thr q' op)} = {op \<in> set (started q). returned (thr q op)}" using assms(4) by blast
  then show ?thesis using assms(1-3) by (simp add: inv_executed_def returned_def)
qed

lemma inv_executed_add:
  assumes "inv_executed q" and "op \<in> set (started q)" and "\<not> returned (thr q op)"
    and "executed q' = executed q @ [op]" and "started q' = started q" and "thr q' = (thr q)(op := ThrLock)"
  shows "inv_executed q'"
proof -
  have "{x \<in> set (started q). returned (thr q' x)} = insert op {x \<in> set (started q). returned (thr q x)}"
    using assms(2,6) by (auto simp: returned_def)
  moreover have "op \<notin> {x \<in> set (started q). returned (thr q x)}" using assms(3) by blast
  ultimately show ?thesis using assms(1,4,5) by (simp add: inv_executed_def returned_def)
qed

lemma step_executed:
  assumes "queue_step q q'" and "inv_executed q" and "inv_started ops q"
  shows "inv_executed q'"
proof -
  note top = inv_started_top [OF assms(3)] and thread = inv_started_thread [OF assms(3)]
  have w: "inv_executed q'" if "work_step q q'"
    using that
  proof (cases rule: work_step.cases)
    case (exe_schedule op)
    from top [OF this(3)] have "{x \<in> set (started q @ [op]). returned (thr q' x)} = {x \<in> set (started q). returned (thr q x)}"
      using exe_schedule(1) by (auto simp: returned_def)
    then show ?thesis using exe_schedule(1) assms(2) by (simp add: inv_executed_def returned_def)
  next
    case (thr_begin op)
    show ?thesis
    proof (cases "isCancelled (store q op)")
      case True
      then show ?thesis using thr_begin by (intro inv_executed_add [OF assms(2) thread [of op]]) (simp_all add: thread_pcs returned_def)
    next
      case False
      then show ?thesis using thr_begin by (intro inv_executed_keep [OF assms(2)]) (simp_all add: thread_pcs returned_def)
    qed
  next
    case (thr_finish op)
    then show ?thesis by (intro inv_executed_add [OF assms(2) thread [of op]]) (simp_all add: thread_pcs returned_def)
  next
    case (thr_lock op)
    then show ?thesis by (intro inv_executed_keep [OF assms(2)]) (simp_all add: returned_def)
  next
    case (thr_finished op)
    then show ?thesis by (intro inv_executed_keep [OF assms(2)]) (simp_all add: returned_def thread_pcs)
  next
    case (thr_notify op)
    then show ?thesis by (intro inv_executed_keep [OF assms(2)]) (simp_all add: returned_def)
  qed (use assms(2) in \<open>simp_all add: inv_executed_def reset_done_def\<close>)
  have u: "inv_executed q'" if "user_step q q'"
    using that
    by (cases rule: user_step.cases; intro inv_executed_keep [OF assms(2)]) (simp_all add: thread_pcs wake_def returned_def)
  show ?thesis using w u assms(1) by (auto simp: queue_step_def)
qed

section \<open>All together\<close>

lemma notified_other:
  assumes "inv_blocked q" and "op \<notin> set (unscheduledOps q)"
  shows "user_notified op (user q) \<noteq> UserPop p" "main_notified op (main q) = main q"
    "user_notified op (user q) = UserBlocked p \<Longrightarrow> user q = UserBlocked p"
proof -
  have u: "user q \<noteq> UserPop p" "user q \<noteq> UserBlocked op" "main q \<noteq> MainBlocked op" for p
    using assms by (auto simp: inv_blocked_def)
  show "user_notified op (user q) \<noteq> UserPop p" using u(1,2) by (cases "user q") auto
  show "main_notified op (main q) = main q" using u(3) by (cases "main q") auto
  show "user_notified op (user q) = UserBlocked p \<Longrightarrow> user q = UserBlocked p"
    by (cases "user q") (auto split: if_splits)
qed

lemma waiting_keep [simp]:
  "unscheduledOps (thread_begin op q) = unscheduledOps q" "unscheduledOps (thread_finish op q) = unscheduledOps q"
  "unscheduledOps (finished op q) = unscheduledOps q" "unscheduledOps (set_thr op pc q) = unscheduledOps q"
  "unscheduledOps (schedule op q) = remove1 op (unscheduledOps q)" "unscheduledOps (set_op op f q) = unscheduledOps q"
  "unscheduledOps (resume q) = unscheduledOps q" "unscheduledOps (pause_ops q) = unscheduledOps q"
  by (simp_all add: step_defs Let_def)

lemma step_blocked:
  assumes "queue_step q q'" and "inv_started ops q" and "inv_mutex q"
  shows "inv_blocked q'"
proof -
  have b: "inv_blocked q" using assms(2) by (simp add: inv_started_def)
  have w: "inv_blocked q'" if "work_step q q'"
    using that
  proof (cases rule: work_step.cases)
    case (exe_schedule op)
    then have "\<not> cancelling q \<and> \<not> is_blocked (main q)" using assms(3) by (auto simp: inv_mutex_def split: if_splits)
    then show ?thesis using exe_schedule(1) by (auto simp: inv_blocked_def cancelling_def)
  next
    case (thr_finish op)
    then have "op \<in> set (started q)" using inv_started_thread [OF assms(2)] by blast
    then have "op \<notin> set (unscheduledOps q)" using inv_started_distinct [OF assms(2)] by auto
    note n = notified_other [OF b this]
    have u: "user q' = user_notified op (user q)" "main q' = main q" "unscheduledOps q' = unscheduledOps q"
      using thr_finish(1) n(2) by simp_all
    show ?thesis using b n(1,3) unfolding inv_blocked_def u by blast
  qed (use b in \<open>auto simp: inv_blocked_def is_top_def reset_done_def\<close>)
  have u: "inv_blocked q'" if "user_step q q'"
    using that by (cases rule: user_step.cases) (use b in \<open>auto simp: inv_blocked_def is_top_def\<close>)
  show ?thesis using w u assms(1) by (auto simp: queue_step_def)
qed

definition queue_inv :: "u32 \<Rightarrow> (opid \<Rightarrow> int) \<Rightarrow> opid list \<Rightarrow> oqueue \<Rightarrow> bool" where
  "queue_inv n p ops q \<longleftrightarrow> inv_started ops q \<and> inv_exe q \<and> inv_order p q \<and> inv_permits n q \<and> inv_mutex q \<and>
     inv_running q \<and> inv_executed q"

lemma queue_inv_step:
  assumes "queue_step q q'" and "queue_inv n p ops q"
  shows "queue_inv n p ops q'"
proof -
  have s: "inv_started ops q" using assms(2) by (simp add: queue_inv_def)
  have b: "inv_blocked q" using s by (simp add: inv_started_def)
  have "inv_blocked q'" using step_blocked [OF assms(1) s] assms(2) by (simp add: queue_inv_def)
  then have "inv_started ops q'" using s step_places [OF assms(1) _ b] step_main [OF assms(1)] by (simp add: inv_started_def)
  moreover have "inv_permits n q'" "inv_mutex q'"
    using assms s work_step_permits user_step_permits work_step_mutex user_step_mutex
    unfolding queue_step_def queue_inv_def by blast+
  ultimately show ?thesis
    using assms(2) step_exe [OF assms(1) _ b] step_order [OF assms(1) _ b] step_running [OF assms(1) _ s] step_executed [OF assms(1) _ s]
    unfolding queue_inv_def by blast
qed

lemma queue_inv_initial:
  assumes "distinct ops"
  shows "queue_inv n (\<lambda>op. priority (st op)) ops (initial n st ops)"
  using assms
  by (simp add: queue_inv_def inv_started_def inv_places_def inv_main_def inv_exe_def inv_order_def inv_permits_def inv_mutex_def
      inv_running_def inv_executed_def inv_blocked_def initial_simps main_joined_def thr_count_def cancelling_def newSemaphore_def)

lemma queue_inv_reachable:
  assumes "reachable (initial n st ops) q" and "distinct ops"
  shows "queue_inv n (\<lambda>op. priority (st op)) ops q"
  using assms by (induction rule: reachable.induct) (auto intro: queue_inv_initial queue_inv_step)

lemma running_bound:
  assumes "queue_inv n p ops q"
  shows "length (runningOps q) \<le> unat n"
proof -
  let ?R = "filter (\<lambda>op. thr q op \<notin> {ThrNotify, ThrEnd}) (started q)"
  have inv: "inv_started ops q" "inv_permits n q" "runningOps q = ?R"
    using assms by (simp_all add: queue_inv_def inv_running_def)
  have "distinct ?R" using inv_started_distinct [OF inv(1)] by simp
  then have "length ?R = (\<Sum>op \<in> set ?R. 1)" using distinct_card [of ?R] by simp
  also have "\<dots> \<le> (\<Sum>op \<in> set ?R. holds_permit (thr q op))" by (intro sum_mono) (auto simp: holds_permit_def)
  also have "\<dots> \<le> thr_count holds_permit q" unfolding thr_count_def by (intro sum_mono2) auto
  also have "\<dots> \<le> unat n" using inv(2) by (simp add: inv_permits_def)
  finally show ?thesis by (simp only: inv(3))
qed

lemma executed_all:
  assumes "queue_inv n p ops q" and "unscheduledOps q = []" and "\<forall>op \<in> set (started q). thr q op = ThrEnd"
  shows "mset (executed q) = mset ops"
proof -
  have inv: "inv_started ops q" "inv_executed q" using assms(1) by (simp_all add: queue_inv_def)
  have "set (executed q) = set (started q)" using inv(2) assms(3) by (auto simp: inv_executed_def)
  moreover have "distinct (executed q)" "distinct (started q)"
    using inv(2) inv_started_distinct [OF inv(1)] by (auto simp: inv_executed_def)
  ultimately have "mset (executed q) = mset (started q)" by (simp add: set_eq_iff_mset_eq_distinct)
  then show ?thesis using inv(1) assms(2) by (simp add: inv_started_def inv_places_def)
qed

section \<open>Progress without interference\<close>

text \<open>As long as nobody presses a key.\<close>

definition quiet :: "oqueue \<Rightarrow> bool" where
  "quiet q \<longleftrightarrow> user q = UserIdle \<and> \<not> oq_isCancelled q \<and> (exe q = ExeEnd \<longrightarrow> unscheduledOps q = []) \<and>
     (\<forall>op. thr q op \<noteq> ThrPaused) \<and> \<not> is_blocked (main q)"

lemma quiet_initial: "quiet (initial n st ops)"
  by (simp add: quiet_def initial_simps)

lemma flags_keep [simp]:
  "oq_isCancelled (thread_begin op q) = oq_isCancelled q" "oq_isCancelled (thread_finish op q) = oq_isCancelled q"
  "oq_isCancelled (finished op q) = oq_isCancelled q" "oq_isCancelled (set_thr op pc q) = oq_isCancelled q"
  "oq_isCancelled (schedule op q) = oq_isCancelled q" "oq_isCancelled (set_op op f q) = oq_isCancelled q"
  by (simp_all add: step_defs Let_def)

lemma quiet_step:
  assumes "work_step q q'" and "quiet q" and "queue_inv n p ops q"
  shows "quiet q'"
  using assms(1)
proof (cases rule: work_step.cases)
  case main_execute
  then show ?thesis using assms(2) by (simp add: quiet_def)
next
  case (main_blocked op)
  have "exe q = ExeEnd" using main_blocked(2) assms(3) by (simp add: queue_inv_def inv_started_def inv_main_def main_joined_def)
  then show ?thesis using main_blocked(4) assms(2) by (simp add: quiet_def is_top_def)
qed (use assms(2) in \<open>auto simp: quiet_def thread_pcs reset_done_def split: if_splits\<close>)

lemma top_exists: "unscheduledOps q \<noteq> [] \<Longrightarrow> \<exists>op. is_top q op"
proof -
  assume ne: "unscheduledOps q \<noteq> []"
  let ?S = "(\<lambda>op. priority (store q op)) ` set (unscheduledOps q)"
  have "Max ?S \<in> ?S" using ne by (intro Max_in) auto
  then obtain op where "op \<in> set (unscheduledOps q)" "priority (store q op) = Max ?S" by auto
  then have "is_top q op" by (auto simp: is_top_def opGreaterPriority_def not_less)
  then show ?thesis ..
qed

lemma thread_can_step:
  assumes "op \<in> set (opThreads q)" and "thr q op \<notin> {ThrEnd, ThrPaused}" and "mtx q \<longrightarrow> thr q op = ThrFinished"
  shows "\<exists>q'. work_step q q'"
  using assms by (cases "thr q op") (auto intro: work_step.intros)

lemma progress:
  assumes "queue_inv n p ops q" and "quiet q" and "n \<noteq> 0" and "\<nexists>q'. work_step q q'"
  shows "main q = MainDone \<and> mset (executed q) = mset ops \<and> \<not> oq_isCancelled q"
proof -
  have inv: "inv_started ops q" "inv_main q" "inv_exe q" "inv_permits n q" "inv_mutex q"
    using assms(1) by (auto simp: queue_inv_def inv_started_def)
  have idle: "\<not> cancelling q" "\<not> is_blocked (main q)" "\<forall>op. thr q op \<noteq> ThrPaused"
    using assms(2) by (auto simp: quiet_def cancelling_def)
  have no: "\<not> work_step q q'" for q' using assms(4) by blast
  have sched: "exe q \<noteq> ExeSchedule"
    using no top_exists [of q] inv(3) by (auto simp: inv_exe_def intro: work_step.exe_schedule)
  have unlock: "exe q \<noteq> ExeUnlock" using no by (auto intro: work_step.exe_unlock)
  have threads: "op \<in> set (started q) \<Longrightarrow> \<not> main_joined q \<Longrightarrow> op \<in> set (opThreads q)" for op
    using inv(2) by (auto simp: inv_main_def main_joined_def)
  have mtx: "\<not> mtx q"
  proof
    assume m: "mtx q"
    then have "thr_count owns_mutex q \<noteq> 0" using inv(5) sched unlock idle by (simp add: inv_mutex_def)
    then obtain op where op: "op \<in> set (started q)" "thr q op = ThrFinished"
      by (auto simp: thr_count_def owns_mutex_def split: if_splits)
    then have "\<not> main_joined q" using inv(2) by (auto simp: inv_main_def)
    then show False using thread_can_step [OF threads [OF op(1)]] op(2) no by auto
  qed
  have ended: "\<forall>op \<in> set (started q). thr q op = ThrEnd"
  proof
    fix op
    assume op: "op \<in> set (started q)"
    show "thr q op = ThrEnd"
    proof (rule ccontr)
      assume "thr q op \<noteq> ThrEnd"
      moreover from this have "\<not> main_joined q" using inv(2) op by (auto simp: inv_main_def)
      ultimately show False using thread_can_step [OF threads [OF op]] idle(3) mtx no by auto
    qed
  qed
  have "thr_count holds_permit q = 0" using ended by (simp add: thr_count_def holds_permit_def)
  then have "sem_capacity (guard q) \<noteq> 0 \<or> exe q \<in> {ExeLock, ExeSchedule}"
    using inv(4) assms(3) unat_eq_0 [of n] by (auto simp: inv_permits_def split: if_splits)
  moreover have "sem_capacity (guard q) = 0" if "exe q = ExeWait"
  proof (rule ccontr)
    assume "sem_capacity (guard q) \<noteq> 0"
    then obtain g where "sem_wait (guard q) = Some g" by (simp add: sem_wait_def)
    from work_step.exe_wait [OF that this] show False using no by blast
  qed
  ultimately have wait: "exe q \<noteq> ExeWait" by auto
  have "exe q \<noteq> ExeTest" "exe q \<noteq> ExeCancelTest" "exe q \<noteq> ExeLock" "main q \<noteq> MainExecute"
    using no mtx by (auto intro: work_step.exe_test work_step.exe_cancel_test work_step.exe_lock work_step.main_execute)
  then have e: "exe q = ExeEnd" using sched unlock wait inv(2) by (cases "exe q") (auto simp: inv_main_def)
  then have u: "unscheduledOps q = []" using assms(2) by (simp add: quiet_def)
  have "main q \<noteq> MainWaitForScheduled" using no e by (auto intro: work_step.main_scheduled)
  moreover have "main q \<noteq> MainJoin"
  proof
    assume "main q = MainJoin"
    moreover have "\<forall>op \<in> set (opThreads q). thr q op = ThrEnd" using ended inv(2) by (auto simp: inv_main_def)
    ultimately show False using no by (auto intro: work_step.main_join)
  qed
  moreover have "main q \<noteq> MainReset" using no mtx u by (auto intro: work_step.main_reset)
  ultimately have "main q = MainDone" using idle(2) \<open>main q \<noteq> MainExecute\<close> by (cases "main q") auto
  then show ?thesis using executed_all [OF assms(1) u ended] assms(2) by (simp add: quiet_def)
qed

text \<open>What is left to do: a bound on the steps of the queue's own threads.\<close>

fun thr_left :: "thr_pc \<Rightarrow> nat" where
  "thr_left ThrStart = 5" | "thr_left ThrRun = 4" | "thr_left ThrPaused = 4" | "thr_left ThrLock = 3"
| "thr_left ThrFinished = 2" | "thr_left ThrNotify = 1" | "thr_left ThrEnd = 0"

fun exe_left :: "exe_pc \<Rightarrow> nat" where
  "exe_left ExeNone = 6" | "exe_left ExeTest = 6" | "exe_left ExeCancelTest = 5" | "exe_left ExeWait = 4"
| "exe_left ExeLock = 3" | "exe_left ExeSchedule = 2" | "exe_left ExeUnlock = 7" | "exe_left ExeEnd = 0"

fun main_left :: "main_pc \<Rightarrow> nat" where
  "main_left MainExecute = 4" | "main_left MainWaitForScheduled = 3" | "main_left MainJoin = 2" | "main_left MainReset = 1"
| "main_left (MainBlocked _) = 0" | "main_left (MainPop _) = 0" | "main_left MainCancelLoop = 0" | "main_left MainDone = 0"

lemma main_left_notified [simp]: "main_left (main_notified op m) = main_left m"
  by (cases m) simp_all

definition work_left :: "oqueue \<Rightarrow> nat" where
  "work_left q = 11 * length (unscheduledOps q) + thr_count thr_left q + exe_left (exe q) + main_left (main q)"

lemma work_left_step:
  assumes "work_step q q'" and "queue_inv n p ops q"
  shows "work_left q' < work_left q"
proof -
  have st: "inv_started ops q" using assms(2) by (simp add: queue_inv_def)
  from assms(1) show ?thesis
  proof (cases rule: work_step.cases)
    case (exe_schedule op)
    then have "length (unscheduledOps q) = Suc (length (remove1 op (unscheduledOps q)))"
      by (simp add: is_top_def length_remove1) (metis Suc_pred length_pos_if_in_set)
    then show ?thesis using exe_schedule thr_count_schedule [OF inv_started_top [OF st exe_schedule(3)], of thr_left]
      by (simp add: work_left_def)
  next
    case main_execute
    then have "exe q = ExeNone" using st by (simp add: inv_started_def inv_main_def)
    with main_execute show ?thesis by (simp add: work_left_def)
  next
    case (thr_begin op)
    then show ?thesis using thr_count_move [OF inv_started_thread [OF st] thread_pcs(1), of op thr_left]
      by (simp add: work_left_def split: if_splits)
  next
    case (thr_finish op)
    then show ?thesis using thr_count_move [OF inv_started_thread [OF st] thread_pcs(2), of op thr_left]
      by (simp add: work_left_def)
  next
    case (thr_lock op)
    then show ?thesis using thr_count_move [OF inv_started_thread [OF st], of op q' ThrFinished thr_left]
      by (simp add: work_left_def)
  next
    case (thr_finished op)
    then show ?thesis using thr_count_move [OF inv_started_thread [OF st] thread_pcs(3), of op thr_left]
      by (simp add: work_left_def)
  next
    case (thr_notify op)
    then show ?thesis using thr_count_move [OF inv_started_thread [OF st], of op q' ThrEnd thr_left]
      by (simp add: work_left_def)
  qed (use inv_started_no_pop [OF st] in \<open>simp_all add: work_left_def reset_done_def\<close>)
qed

lemma work_run:
  assumes "distinct ops" and "(work_step ^^ k) (initial n st ops) q"
  shows "queue_inv n (\<lambda>op. priority (st op)) ops q \<and> quiet q \<and> work_left q + k \<le> 11 * length ops + 10"
  using assms(2)
proof (induction k arbitrary: q)
  case 0
  then show ?case
    using queue_inv_initial [OF assms(1)] quiet_initial
    by (auto simp: work_left_def initial_simps thr_count_def)
next
  case (Suc k)
  from Suc.prems obtain q1 where q1: "(work_step ^^ k) (initial n st ops) q1" "work_step q1 q" by auto
  then show ?case
    using Suc.IH [OF q1(1)] queue_inv_step [of q1 q] quiet_step [OF q1(2)] work_left_step [OF q1(2)]
    by (fastforce simp: queue_step_def)
qed

section \<open>Cancelling\<close>

text \<open>A thread that cancels while operations are waiting keeps the mutex, and with it nothing that
  needs the mutex happens any more.\<close>

lemma cancelling_alone:
  assumes "queue_inv n p ops q" and "cancelling q"
  shows "mtx q" "exe q \<notin> {ExeSchedule, ExeUnlock}" "\<not> is_blocked (main q)" "\<forall>op \<in> set (started q). thr q op \<noteq> ThrFinished"
proof -
  have "inv_mutex q" using assms(1) by (simp add: queue_inv_def)
  then have "thr_count owns_mutex q = 0 \<and> mtx q \<and> exe q \<notin> {ExeSchedule, ExeUnlock} \<and> \<not> is_blocked (main q)"
    using assms(2) by (auto simp: inv_mutex_def split: if_splits)
  then show "mtx q" "exe q \<notin> {ExeSchedule, ExeUnlock}" "\<not> is_blocked (main q)"
    "\<forall>op \<in> set (started q). thr q op \<noteq> ThrFinished"
    by (auto simp: thr_count_def owns_mutex_def split: if_splits)
qed

lemma cancel_keeps:
  assumes "queue_step q q'" and "queue_inv n p ops q" and "cancelling q" and "unscheduledOps q \<noteq> []"
  shows "cancelling q' \<and> unscheduledOps q' = unscheduledOps q"
proof -
  note alone = cancelling_alone [OF assms(2,3)]
  have pop: "user q \<noteq> UserPop op" for op using assms(2) inv_started_no_pop(1) [of ops q] by (simp add: queue_inv_def)
  have w: "cancelling q' \<and> unscheduledOps q' = unscheduledOps q" if "work_step q q'"
    using that by (cases rule: work_step.cases) (use assms(3) alone in \<open>auto simp: reset_done_def\<close>)
  have u: "cancelling q' \<and> unscheduledOps q' = unscheduledOps q" if "user_step q q'"
    using that
    by (cases rule: user_step.cases) (use assms(3,4) pop in \<open>auto simp: cancelling_def resume_def pause_ops_def\<close>)
  show ?thesis using w u assms(1) by (auto simp: queue_step_def)
qed

lemma done_empty:
  assumes "reachable (initial n st ops) q" and "main q = MainDone"
  shows "unscheduledOps q = []"
  using assms
proof (induction rule: reachable.induct)
  case (step q q')
  have "main_notified op (main q) = MainDone \<longleftrightarrow> main q = MainDone" for op by (cases "main q") auto
  then show ?case
    using step.hyps(2) step.prems step.IH unfolding queue_step_def
    by (elim disjE; elim work_step.cases user_step.cases) (auto simp: reset_done_def cancel_pop_def set_op_def)
qed (simp add: initial_simps)

lemma reachable_trans: "reachable q q' \<Longrightarrow> reachable q0 q \<Longrightarrow> reachable q0 q'"
  by (induction rule: reachable.induct) (auto intro: reachable.step)

lemma cancel_stays:
  assumes "reachable q q'" and "reachable (initial n st ops) q" and "distinct ops" and "cancelling q" and "unscheduledOps q \<noteq> []"
  shows "cancelling q' \<and> unscheduledOps q' = unscheduledOps q"
  using assms
proof (induction rule: reachable.induct)
  case (step q' q'')
  have "queue_inv n (\<lambda>op. priority (st op)) ops q'"
    using queue_inv_reachable [OF reachable_trans [OF step.hyps(1) step.prems(1)] step.prems(2)] .
  then show ?case using cancel_keeps [OF step.hyps(2)] step by auto
qed simp

text \<open>Only a spurious wake-up would let the thread go on: it then deletes the operation, which
  nobody has run, and takes the next one.\<close>

lemma spurious_wake_up:
  assumes "user q = UserBlocked op"
  shows "\<exists>q1 q2. spurious_step q q1 \<and> user_step q1 q2 \<and> user q2 = UserCancelRunning [] \<and>
    unscheduledOps q2 = remove1 op (unscheduledOps q) \<and> started q2 = started q"
proof (intro exI conjI)
  let ?q1 = "q\<lparr>user := UserPop op\<rparr>"
  show "spurious_step q ?q1" by (rule spurious_step.user_blocked [OF assms])
  show "user_step ?q1 (cancel_pop op ?q1\<lparr>user := UserCancelRunning []\<rparr>)" by (rule user_step.user_pop) simp
qed (simp_all add: cancel_pop_def set_op_def)

section \<open>Properties\<close>

text \<open>
  C24: Whatever the scheduler, the threads and the keyboard do, in whatever order: at most as many
  operations run at a time as the semaphore has permits, every operation added either waits or has
  been started, and none twice, none is executed twice, and the scheduler never asks an empty queue
  for its top.
\<close>

theorem queue_safety:
  assumes "distinct ops" and "reachable (initial n st ops) q"
  shows "length (runningOps q) \<le> unat n \<and> mset (started q) + mset (unscheduledOps q) = mset ops \<and>
    distinct (executed q) \<and> set (executed q) \<subseteq> set (started q) \<and> (exe q = ExeSchedule \<longrightarrow> unscheduledOps q \<noteq> [])"
proof -
  have inv: "queue_inv n (\<lambda>op. priority (st op)) ops q" using queue_inv_reachable [OF assms(2,1)] .
  then show ?thesis using running_bound [OF inv]
    by (auto simp: queue_inv_def inv_started_def inv_places_def inv_executed_def inv_exe_def)
qed

definition toy_store :: "opid \<Rightarrow> operation" where
  "toy_store op = newOperation (UUID 0 0) (int op)"

abbreviation toy_queue :: oqueue where
  "toy_queue \<equiv> initial 1 toy_store [7]"

text \<open>A run that starts the only operation of a queue.\<close>

lemma toy_scheduled:
  "\<exists>q. reachable toy_queue q \<and> runningOps q = [7] \<and> opThreads q = [7] \<and> thr q 7 = ThrRun \<and> \<not> mtx q \<and> user q = UserIdle \<and>
     oq_isRunning q \<and> \<not> oq_isCancelled q"
proof -
  let ?q1 = "toy_queue\<lparr>exe := ExeTest, oq_isRunning := True, main := MainWaitForScheduled\<rparr>"
  let ?g = "the (sem_wait (guard toy_queue))"
  let ?q4 = "?q1\<lparr>guard := ?g, exe := ExeLock\<rparr>" and ?q5 = "?q1\<lparr>guard := ?g, mtx := True, exe := ExeSchedule\<rparr>"
  have "reachable toy_queue ?q1"
    by (rule reachable.step [OF reachable.init]) (simp add: queue_step_def work_step.main_execute initial_simps)
  moreover have "queue_step ?q1 (?q1\<lparr>exe := ExeCancelTest\<rparr>)"
    using work_step.exe_test [of ?q1] by (simp add: queue_step_def initial_simps)
  ultimately have "reachable toy_queue (?q1\<lparr>exe := ExeCancelTest\<rparr>)" by (rule reachable.step)
  moreover have "queue_step (?q1\<lparr>exe := ExeCancelTest\<rparr>) (?q1\<lparr>exe := ExeWait\<rparr>)"
    using work_step.exe_cancel_test [of "?q1\<lparr>exe := ExeCancelTest\<rparr>"] by (simp add: queue_step_def initial_simps)
  ultimately have "reachable toy_queue (?q1\<lparr>exe := ExeWait\<rparr>)" by (rule reachable.step)
  moreover have "queue_step (?q1\<lparr>exe := ExeWait\<rparr>) ?q4"
    using work_step.exe_wait [of "?q1\<lparr>exe := ExeWait\<rparr>" ?g]
    by (simp add: queue_step_def initial_simps sem_wait_def newSemaphore_def)
  ultimately have "reachable toy_queue ?q4" by (rule reachable.step)
  moreover have "queue_step ?q4 ?q5"
    using work_step.exe_lock [of ?q4] by (simp add: queue_step_def initial_simps)
  ultimately have "reachable toy_queue ?q5" by (rule reachable.step)
  moreover have "queue_step ?q5 (schedule 7 ?q5)"
    using work_step.exe_schedule [of ?q5 7] by (simp add: queue_step_def initial_simps is_top_def opGreaterPriority_def)
  ultimately have "reachable toy_queue (schedule 7 ?q5)" by (rule reachable.step)
  moreover let ?q7 = "schedule 7 ?q5\<lparr>mtx := False, exe := ExeTest\<rparr>"
  have "queue_step (schedule 7 ?q5) ?q7"
    using work_step.exe_unlock [of "schedule 7 ?q5"] by (simp add: queue_step_def)
  ultimately have "reachable toy_queue ?q7" by (rule reachable.step)
  moreover have "queue_step ?q7 (thread_begin 7 ?q7)"
    using work_step.thr_begin [of 7 ?q7] by (simp add: queue_step_def schedule_def)
  ultimately have "reachable toy_queue (thread_begin 7 ?q7)" by (rule reachable.step)
  moreover have "isCancelled (store ?q7 7) = False"
    by (simp add: schedule_def set_thr_def initial_simps toy_store_def newOperation_def)
  ultimately show ?thesis
    by (intro exI [of _ "thread_begin 7 ?q7"]) (simp add: thread_begin_def set_thr_def set_op_def schedule_def initial_simps)
qed

theorem queue_safety_witness:
  "\<exists>q. reachable toy_queue q \<and> runningOps q = [7] \<and> length (runningOps q) \<le> unat (1 :: u32)"
proof -
  obtain q where q: "reachable toy_queue q" "runningOps q = [7]" using toy_scheduled by blast
  have "distinct [7 :: opid]" by simp
  from queue_safety [OF this q(1)] q show ?thesis by blast
qed

text \<open>
  C26: Operations are started in the order of their priority, whatever the threads and the keyboard
  do: no operation is started while one of a higher priority waits.
\<close>

theorem queue_order:
  assumes "distinct ops" and "reachable (initial n st ops) q"
  shows "sorted_wrt (\<lambda>a b. priority (st b) \<le> priority (st a)) (started q @ sort_key (\<lambda>op. - priority (st op)) (unscheduledOps q))"
proof -
  have "inv_order (\<lambda>op. priority (st op)) q"
    using queue_inv_reachable [OF assms(2,1)] by (simp add: queue_inv_def)
  moreover have "sorted_wrt (\<lambda>a b. priority (st b) \<le> priority (st a)) (sort_key (\<lambda>op. - priority (st op)) xs)" for xs
    using sorted_sort_key [of "\<lambda>op. - priority (st op)" xs] by (simp add: sorted_wrt_map)
  ultimately show ?thesis by (simp add: inv_order_def sorted_wrt_append)
qed

theorem queue_order_witness:
  "\<exists>q. reachable toy_queue q \<and> runningOps q = [7] \<and>
     sorted_wrt (\<lambda>a b. priority (toy_store b) \<le> priority (toy_store a))
       (started q @ sort_key (\<lambda>op. - priority (toy_store op)) (unscheduledOps q))"
proof -
  obtain q where q: "reachable toy_queue q" "runningOps q = [7]" using toy_scheduled by blast
  have "distinct [7 :: opid]" by simp
  from queue_order [OF this q(1)] q show ?thesis by blast
qed

text \<open>
  C27: Left alone, the queue terminates: its threads take at most eleven steps per operation and ten
  more, and when none of them can go on, the main thread has returned and every operation has been
  executed exactly once. There is no deadlock, provided the semaphore has at least one permit.
\<close>

theorem queue_completes:
  assumes "distinct ops" and "n \<noteq> 0" and "(work_step ^^ k) (initial n st ops) q"
  shows "k \<le> 11 * length ops + 10 \<and>
    ((\<nexists>q'. work_step q q') \<longrightarrow> main q = MainDone \<and> mset (executed q) = mset ops \<and> \<not> oq_isCancelled q)"
  using work_run [OF assms(1,3)] progress [of n "\<lambda>op. priority (st op)" ops q] assms(2) by auto

theorem queue_completes_witness:
  "\<exists>q. (work_step ^^ 1) toy_queue q \<and> (1 :: nat) \<le> 11 * length [7 :: opid] + 10 \<and>
     ((\<nexists>q'. work_step q q') \<longrightarrow> main q = MainDone)"
proof -
  have "(work_step ^^ 1) toy_queue (toy_queue\<lparr>exe := ExeTest, oq_isRunning := True, main := MainWaitForScheduled\<rparr>)"
    by (simp add: eq_OO work_step.main_execute initial_simps)
  from queue_completes [OF _ _ this] this show ?thesis by fastforce
qed

text \<open>
  C28: Cancelling never comes to an end while an operation waits to be scheduled: \<^verbatim>\<open>cancel()\<close> waits,
  holding the mutex, for a notification of an operation that no thread runs, so that none ever comes
  (short of a spurious wake-up). From then on the mutex is never given back, no waiting operation is
  started or removed, and the main thread never returns.
\<close>

theorem queue_cancel_blocks:
  assumes "distinct ops" and "reachable (initial n st ops) q" and "cancelling q" and "unscheduledOps q \<noteq> []"
    and "reachable q q'"
  shows "cancelling q' \<and> mtx q' \<and> unscheduledOps q' = unscheduledOps q \<and> main q' \<noteq> MainDone"
proof -
  have c: "cancelling q'" "unscheduledOps q' = unscheduledOps q"
    using cancel_stays [OF assms(5,2,1,3,4)] by auto
  have r: "reachable (initial n st ops) q'" by (rule reachable_trans [OF assms(5,2)])
  have "mtx q'" using cancelling_alone(1) [OF queue_inv_reachable [OF r assms(1)] c(1)] .
  then show ?thesis using c done_empty [OF r] assms(4) by auto
qed

theorem queue_cancel_blocks_witness:
  "\<exists>q. reachable toy_queue q \<and> user q = UserBlocked 7 \<and> mtx q \<and> unscheduledOps q = [7]"
proof -
  let ?q1 = "toy_queue\<lparr>user := UserCancel\<rparr>"
  let ?q2 = "toy_queue\<lparr>mtx := True, oq_isCancelled := True, user := UserCancelRunning []\<rparr>"
  let ?q3 = "set_op 7 (snd \<circ> op_cancel) (?q2\<lparr>user := UserBlocked 7\<rparr>)"
  have "queue_step toy_queue ?q1" by (simp add: queue_step_def user_step.user_cancel initial_simps)
  from reachable.step [OF reachable.init this] have "reachable toy_queue ?q1" .
  moreover have "queue_step ?q1 ?q2" using user_step.user_cancel_lock [of ?q1] by (simp add: queue_step_def initial_simps)
  ultimately have r2: "reachable toy_queue ?q2" by (rule reachable.step)
  moreover have s3: "queue_step ?q2 ?q3"
    using user_step.user_blocked [of ?q2 7] by (simp add: queue_step_def is_top_def initial_simps opGreaterPriority_def)
  ultimately have r3: "reachable toy_queue ?q3" by (rule reachable.step)
  have c: "cancelling ?q2" "unscheduledOps ?q2 \<noteq> []" by (simp_all add: cancelling_def initial_simps)
  have d: "distinct [7 :: opid]" by simp
  from queue_cancel_blocks [OF d r2 c reachable.step [OF reachable.init s3]]
  show ?thesis using r3 by (intro exI [of _ ?q3]) (simp add: initial_simps)
qed

text \<open>
  C29: A wake-up can be lost: when the queue is paused and resumed before a running operation
  has begun to wait, the queue counts as running again, but the operation still goes to sleep, and
  \<^verbatim>\<open>resume()\<close>, which only acts on a queue that is not running, does not wake it.
\<close>

theorem queue_lost_wakeup:
  assumes "reachable q0 q" and "user q = UserIdle" and "oq_isRunning q" and "\<not> oq_isCancelled q" and "\<not> mtx q"
    and "op \<in> set (runningOps q)" and "op \<in> set (opThreads q)" and "thr q op = ThrRun"
  shows "\<exists>q'. reachable q0 q' \<and> oq_isRunning q' \<and> \<not> oq_isCancelled q' \<and> user q' = UserIdle \<and> thr q' op = ThrPaused"
proof -
  let ?q1 = "pause_ops q\<lparr>user := UserPause\<rparr>"
  let ?q2 = "?q1\<lparr>oq_isRunning := False, user := UserIdle\<rparr>"
  have "queue_step q ?q1" using user_step.user_pause [of q] assms by (simp add: queue_step_def)
  with assms(1) have "reachable q0 ?q1" by (rule reachable.step)
  moreover have "queue_step ?q1 ?q2" using user_step.user_paused [of ?q1] assms(5) by (simp add: queue_step_def)
  ultimately have "reachable q0 ?q2" by (rule reachable.step)
  moreover have "queue_step ?q2 (resume ?q2)" using user_step.user_resume [of ?q2] by (simp add: queue_step_def)
  ultimately have "reachable q0 (resume ?q2)" by (rule reachable.step)
  moreover have r: "resume ?q2 = ?q2\<lparr>thr := wake (thr q), store := clear_pause (thr q) (store ?q2), oq_isRunning := True\<rparr>"
    using assms(4) by (simp add: resume_def pause_ops_def)
  have "op \<in> set (opThreads (resume ?q2))" "thr (resume ?q2) op = ThrRun" "isPaused (store (resume ?q2) op)"
    unfolding r using assms(6-8) by (simp_all add: wake_def clear_pause_def pause_ops_def op_pause_def)
  then have "queue_step (resume ?q2) (set_thr op ThrPaused (resume ?q2))"
    unfolding queue_step_def by (intro disjI2 user_step.thr_pause)
  ultimately have "reachable q0 (set_thr op ThrPaused (resume ?q2))" by (rule reachable.step)
  then show ?thesis
    unfolding r using assms(4)
    by (intro exI [of _ "set_thr op ThrPaused (?q2\<lparr>thr := wake (thr q), store := clear_pause (thr q) (store ?q2), oq_isRunning := True\<rparr>)"])
      (simp add: set_thr_def pause_ops_def)
qed

theorem queue_lost_wakeup_witness:
  "\<exists>q. reachable toy_queue q \<and> oq_isRunning q \<and> user q = UserIdle \<and> thr q 7 = ThrPaused"
proof -
  obtain q where "reachable toy_queue q" "user q = UserIdle" "oq_isRunning q" "\<not> oq_isCancelled q" "\<not> mtx q"
    "7 \<in> set (runningOps q)" "7 \<in> set (opThreads q)" "thr q 7 = ThrRun"
    using toy_scheduled by auto
  from queue_lost_wakeup [OF this] show ?thesis by blast
qed

end
