(* ===== verification/Markov.thy ===== *)
theory Markov
  imports Complex_Main Cpp_Streams Cpp_Numbers "HOL-Library.AList"
begin

text \<open>
  \<^verbatim>\<open>pwned-lib/markovnode.hpp\<close> and \<^verbatim>\<open>pwned-lib/markovchain.hpp\<close>: a first-order Markov chain over
  the symbols of passwords, trained with counts, turned into probabilities, and written to and read
  from a binary file.

  The classes are templates: the type of probabilities is \<open>'p\<close>, a linearly ordered field, so that
  rounding is left out; symbols are those of the tools, 32-bit \<^verbatim>\<open>wchar_t\<close>, and counts have 64
  bits. An \<^verbatim>\<open>unordered_map\<close> is an association list in the order of iteration, which is
  unspecified; the model puts a new key last. \<^verbatim>\<open>std::sort\<close> may put equal probabilities in
  any order; the model keeps the order they have.
\<close>

section \<open>Nodes\<close>

record 'p node =
  mProbs :: "(u32 \<times> 'p) list"
  mCounts :: "(u32 \<times> u64) list"
  mSortedProbs :: "(u32 \<times> 'p) list"

definition newNode :: "'p node" where
  "newNode = \<lparr>mProbs = [], mCounts = [], mSortedProbs = []\<rparr>"

text \<open>\<^verbatim>\<open>std::accumulate\<close> with the initial value \<^verbatim>\<open>0U\<close>: the accumulator is a 32-bit
  \<^verbatim>\<open>unsigned int\<close>. When it wraps to exactly 0, the code divides by the floating-point number 0 and gets
  infinity, where \<open>normalize\<close> gets the 0 a field has for such a quotient; what is proved of
  probabilities therefore assumes fewer than \<open>2 ^ 32\<close> symbols.\<close>

definition sum_counts :: "(u32 \<times> u64) list \<Rightarrow> u64" where
  "sum_counts cs = ucast (fold (\<lambda>b a. ucast (snd b + ucast a :: u64)) cs (0 :: u32))"

definition normalize :: "(u32 \<times> u64) list \<Rightarrow> (u32 \<times> 'p) list \<Rightarrow> (u32 \<times> 'p::linordered_field) list" where
  "normalize cs probs =
     fold (\<lambda>p m. AList.update (fst p) (of_nat (unat (snd p)) / of_nat (unat (sum_counts cs))) m) cs probs"

definition postprocess :: "'p::linordered_field node \<Rightarrow> 'p node" where
  "postprocess n = n\<lparr>mSortedProbs := sort_key snd (mProbs n)\<rparr>"

definition node_update :: "'p::linordered_field node \<Rightarrow> 'p node" where
  "node_update n = postprocess (n\<lparr>mProbs := normalize (mCounts n) (mProbs n)\<rparr>)"

definition node_clear :: "'p node \<Rightarrow> 'p node" where
  "node_clear n = n\<lparr>mProbs := [], mSortedProbs := []\<rparr>"

text \<open>\<^verbatim>\<open>at\<close> throws \<^verbatim>\<open>std::out_of_range\<close> for a symbol that is not in the map (\<open>None\<close>).\<close>

definition probability :: "'p node \<Rightarrow> u32 \<Rightarrow> 'p option" where
  "probability n c = map_of (mProbs n) c"

definition node_count :: "'p node \<Rightarrow> u32 \<Rightarrow> u64 option" where
  "node_count n c = map_of (mCounts n) c"

definition node_increment :: "u32 \<Rightarrow> 'p node \<Rightarrow> 'p node" where
  "node_increment c n = n\<lparr>mCounts := AList.map_default c 1 (\<lambda>k. k + 1) (mCounts n)\<rparr>"

definition addSuccessor :: "u32 \<Rightarrow> 'p \<Rightarrow> 'p node \<Rightarrow> 'p node" where
  "addSuccessor c p n = n\<lparr>mProbs := AList.update c p (mProbs n)\<rparr>"

definition node_size :: "'p node \<Rightarrow> nat" where
  "node_size n = length (mCounts n)"

text \<open>Choosing by a random number \<open>p\<close> between 0 and 1.\<close>

fun pick :: "'p::linordered_field \<Rightarrow> 'p \<Rightarrow> (u32 \<times> 'p) list \<Rightarrow> u32" where
  "pick p acc [] = 0"
| "pick p acc (s # ss) = (let acc = acc + snd s in if p > acc then fst s else pick p acc ss)"

definition randomSuccessor :: "'p::linordered_field \<Rightarrow> 'p node \<Rightarrow> u32" where
  "randomSuccessor p n = pick p 0 (mSortedProbs n)"

section \<open>Chains\<close>

record 'p chain =
  mNodes :: "(u32 \<times> 'p node) list"
  mFirstSymbolCounts :: "(u32 \<times> u64) list"
  mFirstSymbolProbs :: "(u32 \<times> 'p) list"
  mFirstSymbolSortedProbs :: "(u32 \<times> 'p) list"

definition newChain :: "'p chain" where
  "newChain = \<lparr>mNodes = [], mFirstSymbolCounts = [], mFirstSymbolProbs = [], mFirstSymbolSortedProbs = []\<rparr>"

definition chain_update :: "'p::linordered_field chain \<Rightarrow> 'p chain" where
  "chain_update c =
     (let c = c\<lparr>mFirstSymbolProbs := normalize (mFirstSymbolCounts c) (mFirstSymbolProbs c)\<rparr>;
          c = c\<lparr>mFirstSymbolSortedProbs := sort_key snd (mFirstSymbolProbs c)\<rparr>
      in c\<lparr>mNodes := map (\<lambda>(s, n). (s, node_update n)) (mNodes c)\<rparr>)"

definition chain_clear :: "'p chain \<Rightarrow> 'p chain" where
  "chain_clear c = c\<lparr>mFirstSymbolProbs := [], mFirstSymbolSortedProbs := []\<rparr>"

definition addFirst :: "u32 \<Rightarrow> 'p chain \<Rightarrow> 'p chain" where
  "addFirst s c =
     (let m = mFirstSymbolCounts c;
          m = (if map_of m s = None then m @ [(s, 0)] else m)
      in c\<lparr>mFirstSymbolCounts := AList.map_entry s (\<lambda>k. k + 1) m\<rparr>)"

definition addPair :: "u32 \<Rightarrow> u32 \<Rightarrow> 'p chain \<Rightarrow> 'p chain" where
  "addPair s t c =
     (let m = mNodes c;
          m = (if map_of m s = None then m @ [(s, newNode)] else m)
      in c\<lparr>mNodes := AList.map_entry s (node_increment t) m\<rparr>)"

text \<open>\<^verbatim>\<open>boost::locale::conv::utf_to_utf\<close> is the parameter \<open>decode\<close>.\<close>

definition train :: "(string \<Rightarrow> u32 list) \<Rightarrow> string \<Rightarrow> 'p chain \<Rightarrow> bool \<times> 'p chain" where
  "train decode pwd c =
     (if pwd = [] then (False, c)
      else let s32 = decode pwd in
           if s32 \<noteq> []
           then let c = addFirst (s32 ! 0) c in
                (True, if length s32 > 1 then fold (\<lambda>i. addPair (s32 ! i) (s32 ! (i + 1))) [0..<length s32 - 1] c else c)
           else (False, c))"

fun total_loop :: "'p::linordered_field chain \<Rightarrow> u32 list \<Rightarrow> 'p node option \<Rightarrow> 'p \<Rightarrow> 'p option" where
  "total_loop c [] node p = Some p"
| "total_loop c (s # ss) node p =
     (case node of
        None \<Rightarrow> Some 0
      | Some n \<Rightarrow>
          (case probability n s of
             None \<Rightarrow> None
           | Some q \<Rightarrow> total_loop c ss (map_of (mNodes c) s) (p * q)))"

text \<open>\<open>None\<close> where \<^verbatim>\<open>at\<close> throws.\<close>

definition totalProbability :: "'p::linordered_field chain \<Rightarrow> u32 list \<Rightarrow> 'p option" where
  "totalProbability c pwd =
     (case pwd of
        [] \<Rightarrow> Some (- 1)
      | s # ss \<Rightarrow>
          (case map_of (mFirstSymbolSortedProbs c) s of
             None \<Rightarrow> Some 0
           | Some p \<Rightarrow> total_loop c ss (map_of (mNodes c) s) p))"

definition randomFirstSymbol :: "'p::linordered_field \<Rightarrow> 'p chain \<Rightarrow> u32" where
  "randomFirstSymbol p c = pick p 0 (mFirstSymbolSortedProbs c)"

section \<open>The file format\<close>

definition FileHeader :: "u8 list" where
  "FileHeader = [0x4D, 0x52, 0x4B, 0x56]"

definition FileVersion :: u8 where
  "FileVersion = 2"

text \<open>\<open>enc\<close> and \<open>dec\<close> are the eight bytes of a \<^verbatim>\<open>double\<close>.\<close>

definition write_pairs :: "('p \<Rightarrow> u8 list) \<Rightarrow> (u32 \<times> 'p) list \<Rightarrow> u8 list" where
  "write_pairs enc ps = concat (map (\<lambda>(s, p). le_bytes 4 s @ enc p) ps)"

definition write_node :: "('p \<Rightarrow> u8 list) \<Rightarrow> u32 \<times> 'p node \<Rightarrow> u8 list" where
  "write_node enc sn =
     le_bytes 4 (fst sn) @ le_bytes 4 (word_of_nat (length (mSortedProbs (snd sn))) :: u32) @
     write_pairs enc (mSortedProbs (snd sn))"

definition saveBinary :: "('p \<Rightarrow> u8 list) \<Rightarrow> 'p chain \<Rightarrow> u8 list" where
  "saveBinary enc c =
     (if mNodes c = [] then []
      else FileHeader @ le_bytes 1 FileVersion @
           le_bytes 4 (word_of_nat (length (mFirstSymbolSortedProbs c)) :: u32) @ write_pairs enc (mFirstSymbolSortedProbs c) @
           le_bytes 4 (word_of_nat (length (mNodes c)) :: u32) @ concat (map (write_node enc) (mNodes c)))"

datatype ErrCode = OK | BAD_HEADER | BAD_HEADER_PREMATURE_EOF | BAD_VERSION | BAD_VERSION_PREMATURE_EOF | BAD_SYMBOL_COUNT
  | BAD_SYMBOL_COUNT_PREMATURE_EOF | BAD_SYMBOL | BAD_SYMBOL_PREMATURE_EOF | BAD_PROBABILITY | BAD_PROBABILITY_PREMATURE_EOF
  | BAD_NODE_COUNT | BAD_NODE_COUNT_PREMATURE_EOF

text \<open>The table of the error texts lacks a comma, so that it has one entry less; \<^verbatim>\<open>at\<close> throws
  for the last code.\<close>

definition errString :: "ErrCode \<Rightarrow> string option" where
  "errString ec =
     (case ec of
        OK \<Rightarrow> Some ''OK''
      | BAD_HEADER \<Rightarrow> Some ''BAD_HEADER''
      | BAD_HEADER_PREMATURE_EOF \<Rightarrow> Some ''BAD_HEADER_PREMATURE_EOF''
      | BAD_VERSION \<Rightarrow> Some ''BAD_VERSION''
      | BAD_VERSION_PREMATURE_EOF \<Rightarrow> Some ''BAD_VERSION_PREMATURE_EOF''
      | BAD_SYMBOL_COUNT \<Rightarrow> Some ''BAD_SYMBOL_COUNT''
      | BAD_SYMBOL_COUNT_PREMATURE_EOF \<Rightarrow> Some ''BAD_SYMBOL_COUNT_PREMATURE_EOF''
      | BAD_SYMBOL \<Rightarrow> Some ''BAD_SYMBOL''
      | BAD_SYMBOL_PREMATURE_EOF \<Rightarrow> Some ''BAD_SYMBOL_PREMATURE_EOF''
      | BAD_PROBABILITY \<Rightarrow> Some ''BAD_PROBABILITY''
      | BAD_PROBABILITY_PREMATURE_EOF \<Rightarrow> Some ''BAD_PROBABILITY_PREMATURE_EOF''
      | BAD_NODE_COUNT \<Rightarrow> Some ''BAD_NODE_COUNTBAD_NODE_COUNT_PREMATURE_EOF''
      | BAD_NODE_COUNT_PREMATURE_EOF \<Rightarrow> None)"

text \<open>\<^verbatim>\<open>read<T>\<close> leaves its variable uninitialised when the file ends; the end is checked before
  the value is used. The bytes of every probability are those of a number: a NaN, for which the
  comparison of \<^verbatim>\<open>std::sort\<close> is no order, is outside the model. So is a lack of memory:
  \<^verbatim>\<open>reserve(firstSymbolCount)\<close>, which has no other effect, asks for 16 bytes for each of the symbols the
  file announces, and throws if they cannot be had. Each loop returns the error code, what it has built so far, and the stream.\<close>

primrec load_first ::
  "(u8 list \<Rightarrow> 'p) \<Rightarrow> nat \<Rightarrow> (u32 \<times> 'p) list \<Rightarrow> u8 istream \<Rightarrow> ErrCode \<times> (u32 \<times> 'p) list \<times> u8 istream" where
  "load_first dec 0 ps s = (OK, ps, s)"
| "load_first dec (Suc n) ps s =
     (let (cb, s) = is_read 4 s in
      if eofbit s then (BAD_SYMBOL_PREMATURE_EOF, ps, s)
      else let (pb, s) = is_read 8 s in
           if eofbit s then (BAD_PROBABILITY_PREMATURE_EOF, ps, s)
           else load_first dec n (ps @ [(le_word cb, dec pb)]) s)"

primrec load_successors ::
  "(u8 list \<Rightarrow> 'p) \<Rightarrow> nat \<Rightarrow> 'p node \<Rightarrow> u8 istream \<Rightarrow> ErrCode \<times> 'p node \<times> u8 istream" where
  "load_successors dec 0 m s = (OK, m, s)"
| "load_successors dec (Suc n) m s =
     (let (cb, s) = is_read 4 s in
      if eofbit s then (BAD_SYMBOL_PREMATURE_EOF, m, s)
      else let (pb, s) = is_read 8 s in
           if eofbit s then (BAD_PROBABILITY_PREMATURE_EOF, m, s)
           else load_successors dec n (addSuccessor (le_word cb) (dec pb) m) s)"

primrec load_nodes ::
  "(u8 list \<Rightarrow> 'p) \<Rightarrow> nat \<Rightarrow> (u32 \<times> 'p node) list \<Rightarrow> u8 istream \<Rightarrow> ErrCode \<times> (u32 \<times> 'p node) list \<times> u8 istream" where
  "load_nodes dec 0 ns s = (OK, ns, s)"
| "load_nodes dec (Suc k) ns s =
     (let (cb, s) = is_read 4 s; c = le_word cb in
      if eofbit s then (BAD_SYMBOL_PREMATURE_EOF, ns, s)
      else if map_of ns c \<noteq> None then (BAD_SYMBOL, ns, s)
      else let (kb, s) = is_read 4 s in
           if eofbit s then (BAD_NODE_COUNT_PREMATURE_EOF, ns @ [(c, newNode)], s)
           else let (e, m, s) = load_successors dec (unat (le_word kb :: u32)) newNode s in
                if e \<noteq> OK then (e, ns @ [(c, m)], s)
                else load_nodes dec k (ns @ [(c, m)]) s)"

definition load_body ::
  "(u8 list \<Rightarrow> 'p) \<Rightarrow> u8 istream \<Rightarrow> 'p::linordered_field chain \<Rightarrow> ErrCode \<times> 'p chain \<times> u8 istream" where
  "load_body dec s c =
     (let (hdr, s) = is_read 4 s in
      if eofbit s then (BAD_HEADER_PREMATURE_EOF, c, s)
      else if hdr \<noteq> FileHeader then (BAD_HEADER, c, s)
      else let (vb, s) = is_read 1 s in
        if eofbit s then (BAD_VERSION_PREMATURE_EOF, c, s)
        else if le_word vb \<noteq> FileVersion then (BAD_VERSION, c, s)
        else let (nb, s) = is_read 4 s in
          if eofbit s then (BAD_SYMBOL_COUNT_PREMATURE_EOF, c, s)
          else let (e, ps, s) = load_first dec (unat (le_word nb :: u32)) (mFirstSymbolSortedProbs c) s;
                   c = c\<lparr>mFirstSymbolSortedProbs := ps\<rparr>
               in if e \<noteq> OK then (e, c, s)
                  else let (kb, s) = is_read 4 s in
                    if eofbit s then (BAD_SYMBOL_COUNT_PREMATURE_EOF, c, s)
                    else let (e, ns, s) = load_nodes dec (unat (le_word kb :: u32)) (mNodes c) s
                         in (e, c\<lparr>mNodes := ns\<rparr>, s))"

definition loadBinary :: "(u8 list \<Rightarrow> 'p) \<Rightarrow> bool \<Rightarrow> u8 istream \<Rightarrow> 'p::linordered_field chain \<Rightarrow> ErrCode \<times> 'p chain" where
  "loadBinary dec doClear s c =
     (let c = (if doClear then newChain else c);
          (e, c, s) = (if good s \<and> \<not> eofbit s then load_body dec s c else (OK, c, s))
      in if e \<noteq> OK then (e, c)
         else (OK, c\<lparr>mNodes := map (\<lambda>(t, n). (t, postprocess n)) (mNodes c)\<rparr>))"

text \<open>\<^verbatim>\<open>writeJson\<close>: the tree handed to boost's \<^verbatim>\<open>write_json\<close>. Symbols are printed as signed
  numbers.\<close>

datatype 'p ptree = Leaf 'p | Tree "(string \<times> 'p ptree) list"

definition symbol_text :: "u32 \<Rightarrow> string" where
  "symbol_text s = decimal_int (sint s)"

definition json_pairs :: "(u32 \<times> 'p) list \<Rightarrow> 'p ptree" where
  "json_pairs ps = Tree (map (\<lambda>(s, p). (symbol_text s, Leaf p)) ps)"

definition writeJson :: "('p ptree \<Rightarrow> string) \<Rightarrow> 'p chain \<Rightarrow> string" where
  "writeJson write_json c =
     write_json (Tree
       [(''first'', json_pairs (mFirstSymbolSortedProbs c)),
        (''successor'', Tree (map (\<lambda>(s, n). (symbol_text s, json_pairs (mSortedProbs n)))
           (filter (\<lambda>(s, n). mSortedProbs n \<noteq> []) (mNodes c))))])"

section \<open>Choosing at random\<close>

lemma pick_first:
  assumes "\<forall>x \<in> set ss. 0 \<le> snd x" and "p \<le> acc"
  shows "pick p acc ss = 0"
  using assms
proof (induction ss arbitrary: acc)
  case (Cons x xs)
  then have "p \<le> acc + snd x" by (simp add: add_increasing2)
  then show ?case using Cons by (simp add: Let_def not_less)
qed simp

lemma pick_head:
  assumes "\<forall>x \<in> set ss. 0 \<le> snd x"
  shows "pick p 0 ss = (case ss of [] \<Rightarrow> 0 | s # _ \<Rightarrow> if p > snd s then fst s else 0)"
  using assms pick_first [of "tl ss" p "snd (hd ss)"] by (cases ss) (auto simp: Let_def not_less)

lemma normalize_nonneg:
  assumes "\<forall>x \<in> set probs. 0 \<le> snd x"
  shows "\<forall>x \<in> set (normalize cs probs). 0 \<le> (snd x :: 'p::linordered_field)"
proof -
  have u: "\<forall>x \<in> set (AList.update k v m). 0 \<le> snd x" if "\<forall>x \<in> set m. 0 \<le> snd x" "0 \<le> v" for k and v :: 'p and m
    using that by (induction m) auto
  have "\<forall>x \<in> set (fold (\<lambda>p m. AList.update (fst p) (of_nat (unat (snd p)) / of_nat d) m) xs m). 0 \<le> (snd x :: 'p)"
    if "\<forall>x \<in> set m. 0 \<le> snd x" for xs :: "(u32 \<times> u64) list" and d m
    using that
  proof (induction xs arbitrary: m)
    case (Cons x xs)
    have "\<forall>y \<in> set (AList.update (fst x) (of_nat (unat (snd x)) / of_nat d :: 'p) m). 0 \<le> snd y"
      by (rule u [OF Cons.prems]) (intro divide_nonneg_nonneg of_nat_0_le_iff)
    from Cons.IH [OF this] show ?case by simp
  qed simp
  then show ?thesis using assms unfolding normalize_def by blast
qed

section \<open>Counting\<close>

text \<open>An association list that counts the elements of a list.\<close>

definition tallies :: "('a \<times> u64) list \<Rightarrow> 'a list \<Rightarrow> bool" where
  "tallies al xs \<longleftrightarrow> distinct (map fst al) \<and>
     map_of al = (\<lambda>k. if k \<in> set xs then Some (word_of_nat (count_list xs k)) else None)"

lemma map_default_eq:
  "AList.map_entry k f (if map_of m k = None then m @ [(k, v)] else m) = AList.map_default k (f v) f m"
  by (induction m) auto

lemma map_of_map_default: "map_of (AList.map_default k v f m) =
    (map_of m)(k \<mapsto> (case map_of m k of None \<Rightarrow> v | Some x \<Rightarrow> f x))"
  by (induction m) (auto simp: fun_eq_iff)

lemma distinct_map_default: "distinct (map fst m) \<Longrightarrow> distinct (map fst (AList.map_default k v f m))"
proof (induction m)
  case (Cons x m)
  have "fst ` set (AList.map_default k v f m) \<subseteq> insert k (fst ` set m)" by (induction m) auto
  then show ?case using Cons by (cases x) auto
qed simp

lemma tallies_Nil: "tallies [] []"
  by (simp add: tallies_def)

lemma tallies_snoc: "tallies al xs \<Longrightarrow> tallies (AList.map_default k 1 (\<lambda>n. n + 1) al) (xs @ [k])"
  by (auto simp: tallies_def distinct_map_default map_of_map_default fun_eq_iff add.commute count_list_0_iff)

lemma tallies_total:
  assumes "tallies al xs"
  shows "(\<Sum>x \<leftarrow> al. f (snd x)) = (\<Sum>k \<in> set xs. f (word_of_nat (count_list xs k)))"
proof -
  have d: "distinct (map fst al)" and m: "map_of al = (\<lambda>k. if k \<in> set xs then Some (word_of_nat (count_list xs k)) else None)"
    using assms by (simp_all add: tallies_def)
  have "dom (map_of al) = set xs" unfolding m by (auto split: if_splits)
  then have dom: "fst ` set al = set xs" by (simp add: dom_map_of_conv_image_fst)
  have v: "snd x = word_of_nat (count_list xs (fst x))" if "x \<in> set al" for x
  proof -
    have "map_of al (fst x) = Some (snd x)" using that d by (simp add: map_of_is_SomeI)
    then show ?thesis using m by (simp split: if_splits)
  qed
  have "(\<Sum>x \<leftarrow> al. f (snd x)) = (\<Sum>x \<leftarrow> al. f (word_of_nat (count_list xs (fst x))))"
    using v by (intro arg_cong [where f = sum_list] map_cong refl) simp
  also have "\<dots> = (\<Sum>k \<leftarrow> map fst al. f (word_of_nat (count_list xs k)))" by (simp add: o_def)
  also have "\<dots> = (\<Sum>k \<in> set (map fst al). f (word_of_nat (count_list xs k)))"
    using d by (rule sum_list_distinct_conv_sum_set)
  finally show ?thesis using dom by simp
qed

lemma count_list_less:
  assumes "length xs < 2 ^ 32"
  shows "unat (word_of_nat (count_list xs k) :: u64) = count_list xs k"
proof -
  have "count_list xs k < 2 ^ 64" using count_le_length [of xs k] assms by simp
  then show ?thesis by (simp add: unsigned_of_nat take_bit_nat_eq_self)
qed

lemma ucast_accumulate: "(ucast (x + ucast a :: u64) :: u32) = ucast x + a"
proof -
  have dvd: "(4294967296::int) dvd 18446744073709551616" by simp
  have "(y + z) mod 4294967296 = (y mod 18446744073709551616 + z) mod (4294967296::int)" for y z
    using mod_mod_cancel [OF dvd, of y] by (metis mod_add_left_eq)
  then show ?thesis by transfer (simp add: take_bit_eq_mod mod_simps mod_mod_cancel [OF dvd])
qed

lemma ucast_word_of_nat: "(ucast (word_of_nat n :: u64) :: u32) = word_of_nat n"
  by (simp add: unsigned_of_nat word_of_nat_eq_iff)

lemma sum_counts_tallies:
  assumes "tallies al xs" and "length xs < 2 ^ 32"
  shows "unat (sum_counts al) = length xs"
proof -
  have acc: "fold (\<lambda>b a. ucast (snd b + ucast a :: u64)) al a = a + (\<Sum>x \<leftarrow> al. ucast (snd x) :: u32)"
    for a :: u32 and al :: "('a \<times> u64) list"
    by (induction al arbitrary: a) (simp_all add: ucast_accumulate ac_simps)
  have "(\<Sum>x \<leftarrow> al. ucast (snd x) :: u32) = (\<Sum>k \<in> set xs. ucast (word_of_nat (count_list xs k) :: u64))"
    by (rule tallies_total [OF assms(1)])
  also have "\<dots> = (\<Sum>k \<in> set xs. word_of_nat (count_list xs k))" by (simp only: ucast_word_of_nat)
  also have "\<dots> = word_of_nat (\<Sum>k \<in> set xs. count_list xs k)" by simp
  also have "(\<Sum>k \<in> set xs. count_list xs k) = length xs" by (rule sum_count_set) auto
  finally have "sum_counts al = ucast (word_of_nat (length xs) :: u32)" by (simp add: sum_counts_def acc)
  then show ?thesis using assms(2) by (simp add: unsigned_ucast_eq unsigned_of_nat take_bit_nat_eq_self)
qed


section \<open>Saving and loading\<close>

definition advance :: "nat \<Rightarrow> 'b istream \<Rightarrow> 'b istream" where
  "advance n s = s\<lparr>position := position s + n\<rparr>"

lemma advance_simps [simp]:
  "good (advance n s) = good s" "eofbit (advance n s) = eofbit s" "unread (advance n s) = drop n (unread s)"
  "advance m (advance n s) = advance (n + m) s" "advance 0 s = s" "contents (advance n s) = contents s"
  "position (advance n s) = position s + n"
  by (simp_all add: advance_def good_def unread_def add.commute add.left_commute)

lemma is_read_append:
  assumes "good s" and "unread s = xs @ ys" and "length xs = n"
  shows "is_read n s = (xs, advance n s)" and "\<not> eofbit s"
proof -
  have "take n (drop (position s) (contents s)) = xs"
    using assms by (simp add: unread_def)
  then show "is_read n s = (xs, advance n s)" using assms by (simp add: is_read_def advance_def Let_def)
  show "\<not> eofbit s" using assms(1) by (simp add: good_def)
qed

definition codec :: "('p \<Rightarrow> u8 list) \<Rightarrow> (u8 list \<Rightarrow> 'p) \<Rightarrow> 'p set \<Rightarrow> bool" where
  "codec enc dec P \<longleftrightarrow> (\<forall>p \<in> P. length (enc p) = 8 \<and> dec (enc p) = p)"

lemma codec_mono: "codec enc dec P \<Longrightarrow> Q \<subseteq> P \<Longrightarrow> codec enc dec Q"
  by (auto simp: codec_def)

lemma write_pairs_simps [simp]:
  "write_pairs enc [] = []" "write_pairs enc ((s, p) # ps) = le_bytes 4 s @ enc p @ write_pairs enc ps"
  by (simp_all add: write_pairs_def)

lemma length_write_pairs: "codec enc dec (snd ` set ps) \<Longrightarrow> length (write_pairs enc ps) = 12 * length ps"
  by (induction ps) (auto simp: codec_def)

lemma load_first_write:
  assumes "good s" and "unread s = write_pairs enc ps @ rest" and "codec enc dec (snd ` set ps)"
  shows "load_first dec (length ps) acc s = (OK, acc @ ps, advance (length (write_pairs enc ps)) s)"
  using assms
proof (induction ps arbitrary: acc s)
  case (Cons x ps)
  obtain c p where x: "x = (c, p)" by (cases x)
  have p: "length (enc p) = 8" "dec (enc p) = p" using Cons.prems(3) x by (auto simp: codec_def)
  have u: "unread s = le_bytes 4 c @ enc p @ write_pairs enc ps @ rest" using Cons.prems(2) x by simp
  have r1: "is_read 4 s = (le_bytes 4 c, advance 4 s)" "\<not> eofbit s"
    using is_read_append [OF Cons.prems(1) u] by simp_all
  have u2: "unread (advance 4 s) = enc p @ write_pairs enc ps @ rest" using u by simp
  have r2: "is_read 8 (advance 4 s) = (enc p, advance 12 s)"
    using is_read_append(1) [OF _ u2 p(1)] Cons.prems(1) by simp
  have "load_first dec (length ps) (acc @ [(c, p)]) (advance 12 s) =
      (OK, (acc @ [(c, p)]) @ ps, advance (length (write_pairs enc ps)) (advance 12 s))"
    using Cons.prems u p by (intro Cons.IH) (auto simp: codec_def)
  then show ?case using r1 r2 p x by (simp add: ac_simps)
qed simp

lemma load_successors_write:
  assumes "good s" and "unread s = write_pairs enc ps @ rest" and "codec enc dec (snd ` set ps)"
  shows "load_successors dec (length ps) m s =
    (OK, fold (\<lambda>(c, p). addSuccessor c p) ps m, advance (length (write_pairs enc ps)) s)"
  using assms
proof (induction ps arbitrary: m s)
  case (Cons x ps)
  obtain c p where x: "x = (c, p)" by (cases x)
  have p: "length (enc p) = 8" "dec (enc p) = p" using Cons.prems(3) x by (auto simp: codec_def)
  have u: "unread s = le_bytes 4 c @ enc p @ write_pairs enc ps @ rest" using Cons.prems(2) x by simp
  have r1: "is_read 4 s = (le_bytes 4 c, advance 4 s)" "\<not> eofbit s"
    using is_read_append [OF Cons.prems(1) u] by simp_all
  have u2: "unread (advance 4 s) = enc p @ write_pairs enc ps @ rest" using u by simp
  have r2: "is_read 8 (advance 4 s) = (enc p, advance 12 s)"
    using is_read_append(1) [OF _ u2 p(1)] Cons.prems(1) by simp
  have "load_successors dec (length ps) (addSuccessor c p m) (advance 12 s) =
      (OK, fold (\<lambda>(c, p). addSuccessor c p) ps (addSuccessor c p m), advance (length (write_pairs enc ps)) (advance 12 s))"
    using Cons.prems u p by (intro Cons.IH) (auto simp: codec_def)
  then show ?case using r1 r2 p x by (simp add: ac_simps)
qed simp

lemma update_new: "k \<notin> fst ` set m \<Longrightarrow> AList.update k v m = m @ [(k, v)]"
  by (induction m) auto

lemma fold_addSuccessor:
  assumes "distinct (map fst (mProbs m @ ps))"
  shows "fold (\<lambda>(c, p). addSuccessor c p) ps m = m\<lparr>mProbs := mProbs m @ ps\<rparr>"
  using assms
proof (induction ps arbitrary: m)
  case (Cons x ps)
  obtain c p where x: "x = (c, p)" by (cases x)
  have "addSuccessor c p m = m\<lparr>mProbs := mProbs m @ [x]\<rparr>"
    using Cons.prems x by (simp add: addSuccessor_def update_new)
  then show ?case using Cons x by simp
qed simp

text \<open>What a chain looks like after its file was read.\<close>

definition loaded_node :: "'p::linordered_field node \<Rightarrow> 'p node" where
  "loaded_node n = newNode\<lparr>mProbs := mSortedProbs n, mSortedProbs := sort_key snd (mSortedProbs n)\<rparr>"

definition node_values :: "'p node \<Rightarrow> 'p set" where
  "node_values n = snd ` set (mSortedProbs n)"

definition chain_values :: "'p chain \<Rightarrow> 'p set" where
  "chain_values c = snd ` set (mFirstSymbolSortedProbs c) \<union> (\<Union>x \<in> set (mNodes c). node_values (snd x))"

definition node_storable :: "'p node \<Rightarrow> bool" where
  "node_storable n \<longleftrightarrow> distinct (map fst (mSortedProbs n)) \<and> length (mSortedProbs n) < 2 ^ 32"

definition storable :: "'p chain \<Rightarrow> bool" where
  "storable c \<longleftrightarrow> mNodes c \<noteq> [] \<and> distinct (map fst (mNodes c)) \<and> length (mNodes c) < 2 ^ 32 \<and>
     length (mFirstSymbolSortedProbs c) < 2 ^ 32 \<and> list_all (\<lambda>x. node_storable (snd x)) (mNodes c)"

lemma unat_word_of_nat: "n < 2 ^ 32 \<Longrightarrow> unat (word_of_nat n :: u32) = n"
  by (simp add: unsigned_of_nat take_bit_nat_eq_self)

lemma load_nodes_write:
  assumes "good s" and "unread s = concat (map (write_node enc) ns) @ rest"
    and "codec enc dec (\<Union>x \<in> set ns. node_values (snd x))"
    and "list_all (\<lambda>x. node_storable (snd x)) ns" and "distinct (map fst (acc @ ns))"
  shows "load_nodes dec (length ns) acc s =
    (OK, acc @ map (\<lambda>(c, n). (c, newNode\<lparr>mProbs := mSortedProbs n\<rparr>)) ns, advance (length (concat (map (write_node enc) ns))) s)"
  using assms
proof (induction ns arbitrary: acc s)
  case (Cons x ns)
  obtain c n where x: "x = (c, n)" by (cases x)
  let ?k = "word_of_nat (length (mSortedProbs n)) :: u32" and ?ps = "mSortedProbs n"
  let ?m = "newNode\<lparr>mProbs := ?ps\<rparr>"
  have n: "distinct (map fst ?ps)" "length ?ps < 2 ^ 32" using Cons.prems(4) x by (auto simp: node_storable_def)
  have cn: "codec enc dec (snd ` set ?ps)"
    using Cons.prems(3) x by (elim codec_mono) (auto simp: node_values_def)
  have u: "unread s = le_bytes 4 c @ le_bytes 4 ?k @ write_pairs enc ?ps @ concat (map (write_node enc) ns) @ rest"
    using Cons.prems(2) x by (simp add: write_node_def [of enc "(c, n)"])
  have r1: "is_read 4 s = (le_bytes 4 c, advance 4 s)" "\<not> eofbit s"
    using is_read_append [OF Cons.prems(1) u] by simp_all
  have u2: "unread (advance 4 s) = le_bytes 4 ?k @ write_pairs enc ?ps @ concat (map (write_node enc) ns) @ rest" using u by simp
  have r2: "is_read 4 (advance 4 s) = (le_bytes 4 ?k, advance 8 s)"
    using is_read_append(1) [OF _ u2] Cons.prems(1) by simp
  have u3: "unread (advance 8 s) = write_pairs enc ?ps @ concat (map (write_node enc) ns) @ rest" using u by simp
  have "load_successors dec (length ?ps) newNode (advance 8 s) =
      (OK, fold (\<lambda>(c, p). addSuccessor c p) ?ps newNode, advance (length (write_pairs enc ?ps)) (advance 8 s))"
    using Cons.prems(1) u3 cn by (intro load_successors_write) simp_all
  then have r3: "load_successors dec (length ?ps) newNode (advance 8 s) =
      (OK, ?m, advance (8 + length (write_pairs enc ?ps)) s)"
    using fold_addSuccessor [of newNode ?ps] n(1) by (simp add: newNode_def)
  have new: "map_of acc c = None" using Cons.prems(5) x by (auto simp: map_of_eq_None_iff)
  have "load_nodes dec (length ns) (acc @ [(c, ?m)]) (advance (8 + length (write_pairs enc ?ps)) s) =
      (OK, (acc @ [(c, ?m)]) @ map (\<lambda>(c, n). (c, newNode\<lparr>mProbs := mSortedProbs n\<rparr>)) ns,
       advance (length (concat (map (write_node enc) ns))) (advance (8 + length (write_pairs enc ?ps)) s))"
    using Cons.prems x u by (intro Cons.IH) (auto elim!: codec_mono)
  then show ?case
    using r1 r2 r3 new x unat_word_of_nat [OF n(2)] by (simp add: write_node_def [of enc "(c, n)"] ac_simps)
qed simp

lemma load_body_save:
  assumes "storable c" and "codec enc dec (chain_values c)"
  shows "load_body dec (open_stream (saveBinary enc c @ rest)) newChain =
    (OK, newChain\<lparr>mFirstSymbolSortedProbs := mFirstSymbolSortedProbs c,
       mNodes := map (\<lambda>(c, n). (c, newNode\<lparr>mProbs := mSortedProbs n\<rparr>)) (mNodes c)\<rparr>,
     advance (length (saveBinary enc c)) (open_stream (saveBinary enc c @ rest)))"
proof -
  let ?s = "open_stream (saveBinary enc c @ rest)"
  let ?fs = "mFirstSymbolSortedProbs c" and ?ns = "mNodes c"
  let ?f = "word_of_nat (length ?fs) :: u32" and ?n = "word_of_nat (length ?ns) :: u32"
  let ?N = "concat (map (write_node enc) ?ns)"
  have st: "?ns \<noteq> []" "distinct (map fst ?ns)" "length ?ns < 2 ^ 32" "length ?fs < 2 ^ 32"
    "list_all (\<lambda>x. node_storable (snd x)) ?ns"
    using assms(1) by (simp_all add: storable_def)
  have cf: "codec enc dec (snd ` set ?fs)" "codec enc dec (\<Union>x \<in> set ?ns. node_values (snd x))"
    using assms(2) by (auto elim!: codec_mono simp: chain_values_def)
  have g: "good ?s" by simp
  have u: "unread ?s = FileHeader @ le_bytes 1 FileVersion @ le_bytes 4 ?f @ write_pairs enc ?fs @ le_bytes 4 ?n @ ?N @ rest"
    using st(1) by (simp add: unread_def saveBinary_def)
  have lh: "length FileHeader = 4" by (simp add: FileHeader_def)
  have r1: "is_read 4 ?s = (FileHeader, advance 4 ?s)" using is_read_append(1) [OF g u lh] .
  have u2: "unread (advance 4 ?s) = le_bytes 1 FileVersion @ le_bytes 4 ?f @ write_pairs enc ?fs @ le_bytes 4 ?n @ ?N @ rest"
    using u lh by simp
  have r2: "is_read 1 (advance 4 ?s) = (le_bytes 1 FileVersion, advance 5 ?s)"
    using is_read_append(1) [OF _ u2] by simp
  have u3: "unread (advance 5 ?s) = le_bytes 4 ?f @ write_pairs enc ?fs @ le_bytes 4 ?n @ ?N @ rest"
    using u lh by simp
  have r3: "is_read 4 (advance 5 ?s) = (le_bytes 4 ?f, advance 9 ?s)"
    using is_read_append(1) [OF _ u3] by simp
  have u4: "unread (advance 9 ?s) = write_pairs enc ?fs @ le_bytes 4 ?n @ ?N @ rest" using u lh by simp
  let ?k = "9 + length (write_pairs enc ?fs)"
  have r4: "load_first dec (length ?fs) [] (advance 9 ?s) = (OK, ?fs, advance ?k ?s)"
    using load_first_write [OF _ u4 cf(1), of "[]"] by simp
  have "unread (advance ?k ?s) = drop (length (write_pairs enc ?fs)) (unread (advance 9 ?s))"
    by (simp add: add.commute)
  then have u5: "unread (advance ?k ?s) = le_bytes 4 ?n @ ?N @ rest" by (simp only: u4) simp
  have r5: "is_read 4 (advance ?k ?s) = (le_bytes 4 ?n, advance (?k + 4) ?s)"
    using is_read_append(1) [OF _ u5] by simp
  have "unread (advance (?k + 4) ?s) = drop 4 (unread (advance ?k ?s))" by (simp add: add.commute)
  then have u6: "unread (advance (?k + 4) ?s) = ?N @ rest" by (simp only: u5) simp
  have r6: "load_nodes dec (length ?ns) [] (advance (?k + 4) ?s) =
      (OK, map (\<lambda>(c, n). (c, newNode\<lparr>mProbs := mSortedProbs n\<rparr>)) ?ns, advance (?k + 4 + length ?N) ?s)"
    using load_nodes_write [OF _ u6 cf(2) st(5), of "[]"] st(2) by simp
  have len: "length (saveBinary enc c) = ?k + 4 + length ?N" using st(1) lh by (simp add: saveBinary_def)
  show ?thesis
    using r1 r2 r3 r4 r5 r6 unat_word_of_nat [OF st(3)] unat_word_of_nat [OF st(4)]
    by (simp add: load_body_def len newChain_def)
qed

text \<open>What was read from a file is read from every longer file, and leaves the rest unread.\<close>

definition extend :: "'b list \<Rightarrow> 'b istream \<Rightarrow> 'b istream" where
  "extend ys s = s\<lparr>contents := contents s @ ys\<rparr>"

definition inside :: "'b list \<Rightarrow> 'b istream \<Rightarrow> bool" where
  "inside cs s \<longleftrightarrow> good s \<and> contents s = cs \<and> position s \<le> length cs"

lemma eofbit_extend [simp]: "eofbit (extend ys s) = eofbit s"
  by (simp add: extend_def)

lemma is_read_extend:
  assumes "inside cs s" and "is_read n s = (bs, t)" and "\<not> eofbit t"
  shows "is_read n (extend ys s) = (bs, extend ys t)" and "inside cs t"
  using assms by (auto simp: inside_def extend_def is_read_def good_def Let_def split: if_splits)

lemma load_first_extend:
  assumes "inside cs s" and "load_first dec n ps s = (OK, qs, t)"
  shows "load_first dec n ps (extend ys s) = (OK, qs, extend ys t) \<and> inside cs t"
  using assms
proof (induction n arbitrary: ps s)
  case (Suc n)
  obtain cb s1 where r1: "is_read 4 s = (cb, s1)" by (cases "is_read 4 s")
  obtain pb s2 where r2: "is_read 8 s1 = (pb, s2)" by (cases "is_read 8 s1")
  have e1: "\<not> eofbit s1" using Suc.prems(2) r1 by (auto split: if_splits)
  have e2: "\<not> eofbit s2" using Suc.prems(2) r1 r2 e1 by (auto split: if_splits)
  note x1 = is_read_extend [OF Suc.prems(1) r1 e1]
  note x2 = is_read_extend [OF x1(2) r2 e2]
  show ?case using Suc.IH [OF x2(2)] Suc.prems(2) x1(1) x2(1) r1 r2 e1 e2 by simp
qed simp

lemma load_successors_extend:
  assumes "inside cs s" and "load_successors dec n m s = (OK, m', t)"
  shows "load_successors dec n m (extend ys s) = (OK, m', extend ys t) \<and> inside cs t"
  using assms
proof (induction n arbitrary: m s)
  case (Suc n)
  obtain cb s1 where r1: "is_read 4 s = (cb, s1)" by (cases "is_read 4 s")
  obtain pb s2 where r2: "is_read 8 s1 = (pb, s2)" by (cases "is_read 8 s1")
  have e1: "\<not> eofbit s1" using Suc.prems(2) r1 by (auto split: if_splits)
  have e2: "\<not> eofbit s2" using Suc.prems(2) r1 r2 e1 by (auto split: if_splits)
  note x1 = is_read_extend [OF Suc.prems(1) r1 e1]
  note x2 = is_read_extend [OF x1(2) r2 e2]
  show ?case using Suc.IH [OF x2(2)] Suc.prems(2) x1(1) x2(1) r1 r2 e1 e2 by simp
qed simp

lemma load_nodes_extend:
  assumes "inside cs s" and "load_nodes dec k ns s = (OK, ns', t)"
  shows "load_nodes dec k ns (extend ys s) = (OK, ns', extend ys t) \<and> inside cs t"
  using assms
proof (induction k arbitrary: ns s)
  case (Suc k)
  obtain cb s1 where r1: "is_read 4 s = (cb, s1)" by (cases "is_read 4 s")
  obtain kb s2 where r2: "is_read 4 s1 = (kb, s2)" by (cases "is_read 4 s1")
  obtain e m s3 where r3: "load_successors dec (unat (le_word kb :: u32)) newNode s2 = (e, m, s3)"
    by (cases "load_successors dec (unat (le_word kb :: u32)) newNode s2") auto
  have e1: "\<not> eofbit s1" using Suc.prems(2) r1 by (auto simp: Let_def split: if_splits)
  have new: "map_of ns (le_word cb) = None"
    using Suc.prems(2) r1 e1 by (auto simp: Let_def split: if_splits)
  have e2: "\<not> eofbit s2" using Suc.prems(2) r1 r2 e1 new by (auto simp: Let_def split: if_splits)
  have e: "e = OK" using Suc.prems(2) r1 r2 r3 e1 e2 new by (auto simp: Let_def split: if_splits)
  note x1 = is_read_extend [OF Suc.prems(1) r1 e1]
  note x2 = is_read_extend [OF x1(2) r2 e2]
  have x3: "load_successors dec (unat (le_word kb :: u32)) newNode (extend ys s2) = (OK, m, extend ys s3)" "inside cs s3"
    using load_successors_extend [OF x2(2), of dec "unat (le_word kb :: u32)" newNode m s3] r3 e by simp_all
  have "load_nodes dec k (ns @ [(le_word cb, m)]) s3 = (OK, ns', t)"
    using Suc.prems(2) r1 r2 r3 e1 e2 e new by simp
  from Suc.IH [OF x3(2) this] show ?case using x1(1) x2(1) x3(1) e1 e2 new by simp
qed simp

lemma load_body_extend:
  assumes "inside cs s" and "load_body dec s c = (OK, c', t)"
  shows "load_body dec (extend ys s) c = (OK, c', extend ys t) \<and> inside cs t"
proof -
  obtain hb s1 where r1: "is_read 4 s = (hb, s1)" by (cases "is_read 4 s")
  obtain vb s2 where r2: "is_read 1 s1 = (vb, s2)" by (cases "is_read 1 s1")
  obtain nb s3 where r3: "is_read 4 s2 = (nb, s3)" by (cases "is_read 4 s2")
  let ?f = "unat (le_word nb :: u32)"
  obtain e4 ps s4 where r4: "load_first dec ?f (mFirstSymbolSortedProbs c) s3 = (e4, ps, s4)"
    by (cases "load_first dec ?f (mFirstSymbolSortedProbs c) s3") auto
  obtain kb s5 where r5: "is_read 4 s4 = (kb, s5)" by (cases "is_read 4 s4")
  let ?k = "unat (le_word kb :: u32)"
  obtain e6 ns s6 where r6: "load_nodes dec ?k (mNodes c) s5 = (e6, ns, s6)"
    by (cases "load_nodes dec ?k (mNodes c) s5") auto
  have e1: "\<not> eofbit s1" "hb = FileHeader" using assms(2) r1 by (auto simp: load_body_def Let_def split: if_splits prod.splits)
  have e2: "\<not> eofbit s2" "le_word vb = FileVersion" using assms(2) r1 r2 e1 by (auto simp: load_body_def Let_def split: if_splits prod.splits)
  have e3: "\<not> eofbit s3" using assms(2) r1 r2 r3 e1 e2 by (auto simp: load_body_def Let_def split: if_splits prod.splits)
  have e4: "e4 = OK" using assms(2) r1 r2 r3 r4 e1 e2 e3 by (cases "e4 = OK") (auto simp: load_body_def Let_def)
  have e5: "\<not> eofbit s5" using assms(2) r1 r2 r3 r4 r5 e1 e2 e3 e4 by (auto simp: load_body_def Let_def split: if_splits prod.splits)
  have fin: "e6 = OK" "c' = c\<lparr>mFirstSymbolSortedProbs := ps, mNodes := ns\<rparr>" "t = s6"
    using assms(2) r1 r2 r3 r4 r5 r6 e1 e2 e3 e4 e5 by (auto simp: load_body_def)
  note x1 = is_read_extend [OF assms(1) r1 e1(1)]
  note x2 = is_read_extend [OF x1(2) r2 e2(1)]
  note x3 = is_read_extend [OF x2(2) r3 e3]
  have x4: "load_first dec ?f (mFirstSymbolSortedProbs c) (extend ys s3) = (OK, ps, extend ys s4)" "inside cs s4"
    using load_first_extend [OF x3(2), of dec ?f "mFirstSymbolSortedProbs c" ps s4] r4 e4 by simp_all
  note x5 = is_read_extend [OF x4(2) r5 e5]
  have x6: "load_nodes dec ?k (mNodes c) (extend ys s5) = (OK, ns, extend ys s6)" "inside cs s6"
    using load_nodes_extend [OF x5(2), of dec ?k "mNodes c" ns s6] r6 fin(1) by simp_all
  show ?thesis using x1(1) x2(1) x3(1) x4(1) x5(1) x6 e1 e2 e3 e5 fin by (simp add: load_body_def)
qed

text \<open>The round trip in full: what \<^verbatim>\<open>loadBinary\<close> makes of a saved chain.\<close>

lemma loadBinary_save:
  assumes "storable c" and "codec enc dec (chain_values c)"
  shows "loadBinary dec doClear (open_stream (saveBinary enc c)) newChain =
    (OK, newChain\<lparr>mFirstSymbolSortedProbs := mFirstSymbolSortedProbs c,
       mNodes := map (\<lambda>(s, n). (s, loaded_node n)) (mNodes c)\<rparr>)"
  using load_body_save [OF assms, of "[]"]
  by (simp add: loadBinary_def good_not_fail loaded_node_def postprocess_def newNode_def split_beta)

lemma loadBinary_prefix:
  assumes "storable c" and "codec enc dec (chain_values c)" and "k < length (saveBinary enc c)"
  shows "fst (loadBinary dec doClear (open_stream (take k (saveBinary enc c))) newChain) \<noteq> OK"
proof
  let ?cs = "take k (saveBinary enc c)" and ?ys = "drop k (saveBinary enc c)"
  let ?s = "open_stream ?cs"
  assume "fst (loadBinary dec doClear ?s newChain) = OK"
  then obtain c' t where l: "load_body dec ?s newChain = (OK, c', t)"
    by (auto simp: loadBinary_def Let_def split: prod.splits if_splits)
  have w: "inside ?cs ?s" by (simp add: inside_def)
  have "extend ?ys ?s = open_stream (saveBinary enc c @ [])" by (simp add: extend_def open_stream_def)
  then have "load_body dec (open_stream (saveBinary enc c @ [])) newChain = (OK, c', extend ?ys t)" "inside ?cs t"
    using load_body_extend [OF w l, of ?ys] by simp_all
  then have "extend ?ys t = advance (length (saveBinary enc c)) (open_stream (saveBinary enc c @ []))"
    unfolding load_body_save [OF assms(1,2), of "[]"] by simp
  then have "position (extend ?ys t) = length (saveBinary enc c)" by simp
  then have "position t = length (saveBinary enc c)" by (simp add: extend_def)
  moreover have "position t \<le> k" using \<open>inside ?cs t\<close> assms(3) by (simp add: inside_def)
  ultimately show False using assms(3) by simp
qed

section \<open>Training\<close>

definition succs :: "u32 \<Rightarrow> (u32 \<times> u32) list \<Rightarrow> u32 list" where
  "succs s bs = map snd (filter (\<lambda>b. fst b = s) bs)"

definition bigrams :: "u32 list \<Rightarrow> (u32 \<times> u32) list" where
  "bigrams w = zip w (tl w)"

text \<open>The words of a corpus, and the chain trained on it.\<close>

definition corpus :: "(string \<Rightarrow> u32 list) \<Rightarrow> string list \<Rightarrow> u32 list list" where
  "corpus decode pwds = filter (\<lambda>w. w \<noteq> []) (map decode (filter (\<lambda>p. p \<noteq> []) pwds))"

definition trained :: "(string \<Rightarrow> u32 list) \<Rightarrow> string list \<Rightarrow> 'p chain" where
  "trained decode pwds = fold (\<lambda>p c. snd (train decode p c)) pwds newChain"

definition counted_nodes :: "(u32 \<times> 'p node) list \<Rightarrow> (u32 \<times> u32) list \<Rightarrow> bool" where
  "counted_nodes ns bs \<longleftrightarrow> distinct (map fst ns) \<and>
     (\<forall>s. case map_of ns s of
           None \<Rightarrow> succs s bs = []
         | Some n \<Rightarrow> succs s bs \<noteq> [] \<and> tallies (mCounts n) (succs s bs) \<and> mProbs n = [])"

definition counted :: "'p chain \<Rightarrow> u32 list \<Rightarrow> (u32 \<times> u32) list \<Rightarrow> bool" where
  "counted c fs bs \<longleftrightarrow> tallies (mFirstSymbolCounts c) fs \<and> mFirstSymbolProbs c = [] \<and> counted_nodes (mNodes c) bs"

lemma succs_append [simp]: "succs s (bs @ cs) = succs s bs @ succs s cs"
  by (simp add: succs_def)

lemma succs_single [simp]: "succs s [(s', t)] = (if s' = s then [t] else [])"
  by (simp add: succs_def)

lemma counted_new: "counted newChain [] []"
  by (simp add: counted_def counted_nodes_def newChain_def tallies_Nil succs_def)

lemma addFirst_default:
  "addFirst s c = c\<lparr>mFirstSymbolCounts := AList.map_default s 1 (\<lambda>k. k + 1) (mFirstSymbolCounts c)\<rparr>"
  using map_default_eq [of s "\<lambda>k. k + 1" "mFirstSymbolCounts c" "0"] by (simp add: addFirst_def Let_def)

lemma addPair_default:
  "addPair s t c = c\<lparr>mNodes := AList.map_default s (node_increment t newNode) (node_increment t) (mNodes c)\<rparr>"
  using map_default_eq [of s "node_increment t" "mNodes c" "newNode"] by (simp add: addPair_def Let_def)

lemma counted_addFirst: "counted c fs bs \<Longrightarrow> counted (addFirst s c) (fs @ [s]) bs"
  by (simp add: counted_def addFirst_default tallies_snoc)

lemma counted_nodes_snoc:
  assumes "counted_nodes ns bs"
  shows "counted_nodes (AList.map_default s (node_increment t newNode) (node_increment t) ns) (bs @ [(s, t)])"
proof -
  let ?ns = "AList.map_default s (node_increment t newNode) (node_increment t) ns"
  have "case map_of ?ns s' of None \<Rightarrow> succs s' (bs @ [(s, t)]) = []
      | Some n \<Rightarrow> succs s' (bs @ [(s, t)]) \<noteq> [] \<and> tallies (mCounts n) (succs s' (bs @ [(s, t)])) \<and> mProbs n = []" for s'
  proof -
    have old: "case map_of ns s' of None \<Rightarrow> succs s' bs = []
        | Some n \<Rightarrow> succs s' bs \<noteq> [] \<and> tallies (mCounts n) (succs s' bs) \<and> mProbs n = []"
      using assms by (simp add: counted_nodes_def)
    have "tallies (AList.map_default t 1 (\<lambda>k. k + 1) []) [t]"
      using tallies_snoc [OF tallies_Nil, of t] by simp
    then show ?thesis using old
      by (cases "map_of ns s'") (auto simp: map_of_map_default node_increment_def newNode_def tallies_snoc)
  qed
  then show ?thesis using assms by (simp add: counted_nodes_def distinct_map_default)
qed

lemma counted_addPair: "counted c fs bs \<Longrightarrow> counted (addPair s t c) fs (bs @ [(s, t)])"
  by (simp add: counted_def addPair_default counted_nodes_snoc)

lemma counted_addPairs: "counted c fs bs \<Longrightarrow> counted (fold (\<lambda>(s, t). addPair s t) ps c) fs (bs @ ps)"
proof (induction ps arbitrary: c bs)
  case (Cons x ps)
  then show ?case using Cons.IH [OF counted_addPair [OF Cons.prems, of "fst x" "snd x"]] by (simp add: split_beta)
qed simp

lemma bigrams_nth: "bigrams w = map (\<lambda>i. (w ! i, w ! (i + 1))) [0..<length w - 1]"
  by (rule nth_equalityI) (auto simp: bigrams_def nth_tl)

lemma train_eq:
  "train decode p c = (let w = decode p in
     if p = [] \<or> w = [] then (False, c)
     else (True, fold (\<lambda>(s, t). addPair s t) (bigrams w) (addFirst (hd w) c)))"
  by (auto simp: train_def bigrams_nth fold_map o_def Let_def hd_conv_nth)

lemma counted_train:
  assumes "counted c fs bs"
  shows "counted (snd (train decode p c))
    (fs @ map hd (corpus decode [p])) (bs @ concat (map bigrams (corpus decode [p])))"
  using assms counted_addPairs [OF counted_addFirst [OF assms, of "hd (decode p)"], of "bigrams (decode p)"]
  by (simp add: train_eq corpus_def Let_def)

lemma corpus_Cons: "corpus decode (p # ps) = corpus decode [p] @ corpus decode ps"
  by (simp add: corpus_def)

lemma counted_fold:
  "counted c fs bs \<Longrightarrow> counted (fold (\<lambda>p c. snd (train decode p c)) pwds c)
     (fs @ map hd (corpus decode pwds)) (bs @ concat (map bigrams (corpus decode pwds)))"
proof (induction pwds arbitrary: c fs bs)
  case Nil
  then show ?case by (simp add: corpus_def)
next
  case (Cons p ps)
  then show ?case using Cons.IH [OF counted_train [OF Cons.prems, of decode p]]
    by (simp add: corpus_Cons [of decode p ps])
qed

lemma counted_trained:
  "counted (trained decode pwds) (map hd (corpus decode pwds)) (concat (map bigrams (corpus decode pwds)))"
  using counted_fold [OF counted_new] by (simp add: trained_def)

section \<open>Frequencies\<close>

definition freq :: "u32 \<Rightarrow> u32 list \<Rightarrow> 'p::linordered_field" where
  "freq s xs = of_nat (count_list xs s) / of_nat (length xs)"

lemma map_of_fold_update:
  "distinct (map fst al) \<Longrightarrow> map_of (fold (\<lambda>p m. AList.update (fst p) (g (snd p)) m) al m) k =
     (case map_of al k of Some v \<Rightarrow> Some (g v) | None \<Rightarrow> map_of m k)"
proof (induction al arbitrary: m)
  case (Cons x al)
  have "fst x \<notin> fst ` set al" using Cons.prems by simp
  then have "map_of al (fst x) = None" by (simp add: map_of_eq_None_iff)
  then show ?case using Cons by (cases x) (auto simp: update_conv' split: option.split)
qed simp

lemma distinct_fold_update:
  "distinct (map fst m) \<Longrightarrow> distinct (map fst (fold (\<lambda>p m. AList.update (fst p) (g p) m) al m))"
  by (induction al arbitrary: m) (simp_all add: distinct_update)

lemma distinct_normalize: "distinct (map fst m) \<Longrightarrow> distinct (map fst (normalize al m))"
  unfolding normalize_def by (rule distinct_fold_update)

lemma map_of_normalize:
  assumes "tallies al xs" and "length xs < 2 ^ 32"
  shows "map_of (normalize al []) k = (if k \<in> set xs then Some (freq k xs) else None)"
proof -
  have d: "distinct (map fst al)" and m: "map_of al = (\<lambda>k. if k \<in> set xs then Some (word_of_nat (count_list xs k)) else None)"
    using assms(1) by (simp_all add: tallies_def)
  have "map_of (normalize al []) k =
      (case map_of al k of Some v \<Rightarrow> Some (of_nat (unat v) / of_nat (unat (sum_counts al))) | None \<Rightarrow> None)"
    unfolding normalize_def using map_of_fold_update [OF d, of "\<lambda>v. of_nat (unat v) / of_nat (unat (sum_counts al))" "[]" k]
    by (simp only: map_of.simps)
  then show ?thesis
    by (cases "k \<in> set xs") (simp_all only: m sum_counts_tallies [OF assms] if_True if_False option.case count_list_less [OF assms(2)] freq_def)
qed

lemma distinct_sort_key: "distinct (map fst al) \<Longrightarrow> distinct (map fst (sort_key f al))"
  by (simp add: distinct_map)

lemma map_of_sort_key: "distinct (map fst al) \<Longrightarrow> map_of (sort_key f al) = map_of al"
  by (simp add: map_of_inject_set distinct_sort_key)

lemma map_of_map_snd: "map_of (map (\<lambda>(s, n). (s, f n)) ns) k = map_option f (map_of ns k)"
  by (induction ns) auto

text \<open>The probability of a word by the relative frequencies of a corpus.\<close>

fun walk :: "(u32 \<times> u32) list \<Rightarrow> u32 \<Rightarrow> u32 list \<Rightarrow> 'p::linordered_field \<Rightarrow> 'p option" where
  "walk bs s [] p = Some p"
| "walk bs s (t # ts) p =
     (if succs s bs = [] then Some 0
      else if t \<notin> set (succs s bs) then None
      else walk bs t ts (p * freq t (succs s bs)))"

definition corpus_probability :: "u32 list list \<Rightarrow> u32 list \<Rightarrow> 'p::linordered_field option" where
  "corpus_probability ws w =
     (case w of
        [] \<Rightarrow> Some (- 1)
      | s # ts \<Rightarrow> (if s \<in> set (map hd ws) then walk (concat (map bigrams ws)) s ts (freq s (map hd ws)) else Some 0))"

lemma total_loop_walk:
  assumes "counted_nodes ns bs" and "length bs < 2 ^ 32" and "mNodes c = map (\<lambda>(s, n). (s, node_update n)) ns"
  shows "total_loop c w (map_of (mNodes c) s) p = walk bs s w p"
proof (induction w arbitrary: s p)
  case (Cons t ts)
  have len: "length (succs s bs) < 2 ^ 32" using assms(2) le_less_trans [OF length_filter_le] by (simp add: succs_def)
  have node: "case map_of ns s of None \<Rightarrow> succs s bs = []
      | Some n \<Rightarrow> succs s bs \<noteq> [] \<and> tallies (mCounts n) (succs s bs) \<and> mProbs n = []"
    using assms(1) by (simp add: counted_nodes_def)
  show ?case
  proof (cases "map_of ns s")
    case None
    then show ?thesis using node by (simp add: assms(3) map_of_map_snd)
  next
    case (Some n)
    then have n: "succs s bs \<noteq> []" "tallies (mCounts n) (succs s bs)" "mProbs n = []" using node by simp_all
    have "map_of (mNodes c) s = Some (node_update n)" using Some by (simp add: assms(3) map_of_map_snd)
    moreover have "probability (node_update n) t = (if t \<in> set (succs s bs) then Some (freq t (succs s bs) :: 'a) else None)"
      using map_of_normalize [OF n(2) len, of t] by (simp add: probability_def node_update_def postprocess_def n(3))
    ultimately show ?thesis using Cons.IH n(1) by simp
  qed
qed simp

lemma length_bigrams: "length (bigrams w) \<le> length w"
  by (simp add: bigrams_def)

lemma length_corpus_bigrams: "length (concat (map bigrams ws)) \<le> length (concat ws)"
  by (induction ws) (simp_all add: add_mono length_bigrams)

lemma length_corpus: "[] \<notin> set ws \<Longrightarrow> length ws \<le> length (concat ws)"
proof (induction ws)
  case (Cons w ws)
  then show ?case by (cases w) auto
qed simp

lemma chain_update_probability:
  assumes "counted c (map hd ws) (concat (map bigrams ws))" and "[] \<notin> set ws" and "length (concat ws) < 2 ^ 32"
  shows "totalProbability (chain_update c) w = corpus_probability ws w"
proof (cases w)
  case Nil
  then show ?thesis by (simp add: totalProbability_def corpus_probability_def)
next
  case (Cons s ts)
  let ?fs = "map hd ws" and ?bs = "concat (map bigrams ws)" and ?al = "mFirstSymbolCounts c"
  have c: "tallies ?al ?fs" "mFirstSymbolProbs c = []" "counted_nodes (mNodes c) ?bs" using assms(1) by (simp_all add: counted_def)
  have lf: "length ?fs < 2 ^ 32" using length_corpus [OF assms(2)] assms(3) by simp
  have lb: "length ?bs < 2 ^ 32" using length_corpus_bigrams [of ws] assms(3) by simp
  have "map_of (mFirstSymbolSortedProbs (chain_update c)) = map_of (normalize ?al [])"
    by (simp add: chain_update_def c(2) map_of_sort_key distinct_normalize)
  then have f: "map_of (mFirstSymbolSortedProbs (chain_update c)) s = (if s \<in> set ?fs then Some (freq s ?fs) else None)"
    by (simp only: map_of_normalize [OF c(1) lf])
  have "total_loop (chain_update c) ts (map_of (mNodes (chain_update c)) s) p = walk ?bs s ts p" for p
    by (rule total_loop_walk [OF c(3) lb]) (simp add: chain_update_def)
  then show ?thesis using f by (simp add: Cons totalProbability_def corpus_probability_def)
qed

lemma corpus_nonempty: "[] \<notin> set (corpus decode pwds)"
  by (auto simp: corpus_def)

lemma freq_bounds:
  assumes "s \<in> set xs"
  shows "0 < (freq s xs :: 'p::linordered_field)" and "(freq s xs :: 'p) \<le> 1"
proof -
  have "0 < count_list xs s" using assms by (metis count_list_0_iff gr0I)
  moreover have "count_list xs s \<le> length xs" by (rule count_le_length)
  moreover have "0 < length xs" using assms by (cases xs) auto
  ultimately show "0 < (freq s xs :: 'p)" and "(freq s xs :: 'p) \<le> 1" by (simp_all add: freq_def)
qed

lemma walk_seen:
  assumes "set (bigrams (s # w)) \<subseteq> set bs" and "0 < p" and "p \<le> (1 :: 'p::linordered_field)"
  shows "\<exists>q. walk bs s w p = Some q \<and> 0 < q \<and> q \<le> 1"
  using assms
proof (induction w arbitrary: s p)
  case (Cons t ts)
  have "(s, t) \<in> set bs" using Cons.prems(1) by (simp add: bigrams_def)
  then have t: "t \<in> set (succs s bs)" by (force simp: succs_def)
  have "set (bigrams (t # ts)) \<subseteq> set bs" using Cons.prems(1) by (simp add: bigrams_def)
  moreover have "0 < p * freq t (succs s bs)" using Cons.prems(2) freq_bounds(1) [OF t] by (rule mult_pos_pos)
  moreover have "p * freq t (succs s bs) \<le> 1"
    using Cons.prems(3) freq_bounds [OF t, where 'p = 'p] by (simp add: mult_le_one less_imp_le)
  ultimately show ?case using Cons.IH [of t "p * freq t (succs s bs)"] t by auto
qed simp

lemma corpus_probability_seen:
  assumes "w \<in> set ws" and "w \<noteq> []"
  shows "\<exists>q. corpus_probability ws w = Some q \<and> 0 < q \<and> q \<le> (1 :: 'p::linordered_field)"
proof -
  obtain s ts where w: "w = s # ts" using assms(2) by (cases w) auto
  have s: "s \<in> set (map hd ws)" using assms(1) w by force
  have "set (bigrams (s # ts)) \<subseteq> set (concat (map bigrams ws))" using assms(1) w by auto
  from walk_seen [OF this freq_bounds [OF s]] show ?thesis
    using s by (simp add: corpus_probability_def w)
qed

lemma load_saved:
  assumes "storable (chain_update c)" and "codec enc dec (chain_values (chain_update c))"
    and "list_all (\<lambda>x. distinct (map fst (mProbs (snd x)))) (mNodes c)"
  shows "\<exists>c'. loadBinary dec doClear (open_stream (saveBinary enc (chain_update c))) newChain = (OK, c') \<and>
    (\<forall>w. totalProbability c' w = totalProbability (chain_update c) w) \<and>
    (\<forall>p. randomFirstSymbol p c' = randomFirstSymbol p (chain_update c))"
proof -
  let ?c = "chain_update c"
  define d where "d = newChain\<lparr>mFirstSymbolSortedProbs := mFirstSymbolSortedProbs ?c,
       mNodes := map (\<lambda>(s, n). (s, loaded_node n)) (mNodes ?c)\<rparr>"
  have node: "probability (loaded_node (node_update n)) = probability (node_update n)"
    if "distinct (map fst (mProbs n))" for n :: "'a node"
    using that by (simp add: fun_eq_iff probability_def loaded_node_def node_update_def postprocess_def map_of_sort_key distinct_normalize)
  have nodes: "map_of (mNodes d) s = map_option loaded_node (map_of (mNodes ?c) s)" for s
    by (simp add: d_def map_of_map_snd)
  have first: "mFirstSymbolSortedProbs d = mFirstSymbolSortedProbs ?c" by (simp add: d_def)
  have upd: "\<exists>m. n = node_update m \<and> distinct (map fst (mProbs m))" if "map_of (mNodes ?c) s = Some n" for s n
  proof -
    have "map_option node_update (map_of (mNodes c) s) = Some n"
      using that by (simp add: chain_update_def map_of_map_snd)
    then obtain m where m: "map_of (mNodes c) s = Some m" "n = node_update m" by auto
    from map_of_SomeD [OF m(1)] assms(3) have "distinct (map fst (mProbs m))" by (auto simp: list_all_iff)
    with m(2) show ?thesis by blast
  qed
  have "total_loop d w (map_of (mNodes d) s) p = total_loop ?c w (map_of (mNodes ?c) s) p" for w s p
  proof (induction w arbitrary: s p)
    case (Cons t ts)
    show ?case
    proof (cases "map_of (mNodes ?c) s")
      case None
      then show ?thesis by (simp add: nodes)
    next
      case (Some n)
      then obtain m where m: "n = node_update m" "distinct (map fst (mProbs m))" using upd by blast
      have "probability (loaded_node n) = probability n" using node [OF m(2)] by (simp add: m(1))
      with Some Cons.IH show ?thesis by (simp add: nodes split: option.split)
    qed
  qed simp
  then have "totalProbability d w = totalProbability ?c w" for w
    by (simp add: totalProbability_def first split: list.split option.split)
  moreover have "randomFirstSymbol p d = randomFirstSymbol p ?c" for p by (simp add: randomFirstSymbol_def first)
  ultimately show ?thesis using loadBinary_save [OF assms(1,2), of doClear] unfolding d_def by blast
qed

section \<open>Properties\<close>

text \<open>C30: After \<^verbatim>\<open>train\<close> on a corpus of fewer than \<open>2 ^ 32\<close> symbols and \<^verbatim>\<open>update\<close>,
  \<^verbatim>\<open>totalProbability\<close> is what \<open>corpus_probability\<close> counts in the corpus: the product of the relative
  frequencies of the first symbol and of the transitions, in exact arithmetic; 0 for an unseen first
  symbol or after a symbol without successors; -1 for the empty word; an exception (\<open>None\<close>) for an unseen
  transition. The bound is there because the sum of the counts is 32 bits wide. (For the word 0000 of
  \<^verbatim>\<open>test_markov.cpp\<close> this is 27/128 = 0.2109375; the test expects 0.210938, a rounded number.)\<close>

theorem trained_frequencies:
  assumes "length (concat (corpus decode pwds)) < 2 ^ 32"
  shows "totalProbability (chain_update (trained decode pwds)) w = corpus_probability (corpus decode pwds) w"
  by (rule chain_update_probability [OF counted_trained corpus_nonempty assms])

lemma trained_frequencies_witness:
  "totalProbability (chain_update (trained (map of_char) [''ab'', ''ac'', ''b''])) (map of_char ''ab'') = Some (1 / 3 :: rat)"
proof -
  have "length (concat (corpus (map of_char :: string \<Rightarrow> u32 list) [''ab'', ''ac'', ''b''])) < 2 ^ 32"
    by (simp add: corpus_def)
  from trained_frequencies [OF this, of "map of_char ''ab''"] show ?thesis
    by (simp add: corpus_def corpus_probability_def bigrams_def freq_def succs_def)
qed

text \<open>A password the chain was trained on has a probability greater than 0 and at most 1, and
  computing it throws no exception.\<close>

theorem trained_positive:
  assumes "length (concat (corpus decode pwds)) < 2 ^ 32" and "w \<in> set (corpus decode pwds)"
  shows "\<exists>q. totalProbability (chain_update (trained decode pwds)) w = Some q \<and> 0 < q \<and> q \<le> (1 :: 'p::linordered_field)"
proof -
  have "w \<noteq> []" using assms(2) corpus_nonempty by metis
  from corpus_probability_seen [OF assms(2) this] show ?thesis
    by (simp only: chain_update_probability [OF counted_trained corpus_nonempty assms(1)])
qed

lemma trained_positive_witness:
  "\<exists>q. totalProbability (chain_update (trained (map of_char) [''ab'', ''ac'', ''b''])) (map of_char ''ac'') = Some q \<and> 0 < q \<and> q \<le> (1 :: rat)"
  by (rule trained_positive) (simp_all add: corpus_def)

text \<open>C34: \<^verbatim>\<open>randomSuccessor\<close> compares the random number the wrong way round: whatever it is,
  the symbol returned is 0 or one of least probability, and 0 unless that probability is
  smaller than the random number.\<close>

theorem random_least_likely:
  assumes "\<forall>x \<in> set (mProbs n). 0 \<le> snd x"
  shows "randomSuccessor p (node_update n) = 0 \<or>
    (\<exists>q. (randomSuccessor p (node_update n), q) \<in> set (mProbs (node_update n)) \<and> q < p \<and>
         list_all (\<lambda>x. q \<le> snd x) (mProbs (node_update n)))"
proof -
  let ?ps = "normalize (mCounts n) (mProbs n)"
  let ?ss = "sort_key snd ?ps"
  have "\<forall>x \<in> set ?ss. 0 \<le> snd x" using normalize_nonneg [OF assms] by simp
  from pick_head [OF this, of p]
  have r: "randomSuccessor p (node_update n) = (case ?ss of [] \<Rightarrow> 0 | s # _ \<Rightarrow> if p > snd s then fst s else 0)"
    by (simp add: randomSuccessor_def node_update_def postprocess_def)
  have ps: "mProbs (node_update n) = ?ps" by (simp add: node_update_def postprocess_def)
  show ?thesis
  proof (cases "?ss = [] \<or> p \<le> snd (hd ?ss)")
    case True
    then show ?thesis unfolding r by (cases ?ss) auto
  next
    case False
    then obtain s t where st: "?ss = s # t" by (cases ?ss) auto
    have "sorted (map snd ?ss)" by simp
    then have "\<forall>x \<in> set ?ss. snd s \<le> snd x" using st by simp
    then have "list_all (\<lambda>x. snd s \<le> snd x) ?ps" by (simp add: list_all_iff)
    moreover have "s \<in> set ?ss" using st by simp
    then have "(fst s, snd s) \<in> set ?ps" by simp
    ultimately show ?thesis unfolding r ps using False st by auto
  qed
qed

lemma random_least_likely_witness:
  "randomSuccessor (1 / 2) (node_update \<lparr>mProbs = [], mCounts = [(5, 2), (6, 1)], mSortedProbs = []\<rparr> :: rat node) = 6 \<and>
   (\<exists>q. (6, q) \<in> set (mProbs (node_update (\<lparr>mProbs = [], mCounts = [(5, 2), (6, 1)], mSortedProbs = []\<rparr> :: rat node))) \<and> q < 1 / 2)"
proof -
  let ?n = "\<lparr>mProbs = [], mCounts = [(5, 2), (6, 1)], mSortedProbs = []\<rparr> :: rat node"
  have r: "randomSuccessor (1 / 2) (node_update ?n) = 6"
    by (simp add: randomSuccessor_def node_update_def postprocess_def normalize_def sum_counts_def Let_def)
  from random_least_likely [of ?n "1 / 2"] show ?thesis unfolding r by auto
qed

text \<open>C31: A chain that has nodes, written by \<^verbatim>\<open>saveBinary\<close> and read by \<^verbatim>\<open>loadBinary\<close>,
  gives every word its probability again and every random number its first symbol. A chain in
  memory has its sorted lists up to date, as \<^verbatim>\<open>update\<close> leaves them.\<close>

theorem save_load_roundtrip:
  assumes "storable (chain_update c)" and "codec enc dec (chain_values (chain_update c))"
    and "list_all (\<lambda>x. distinct (map fst (mProbs (snd x)))) (mNodes c)"
  shows "\<exists>c'. loadBinary dec doClear (open_stream (saveBinary enc (chain_update c))) newChain = (OK, c') \<and>
    (\<forall>w. totalProbability c' w = totalProbability (chain_update c) w) \<and>
    (\<forall>p. randomFirstSymbol p c' = randomFirstSymbol p (chain_update c))"
  by (rule load_saved [OF assms])

text \<open>C33: Every proper prefix of a file that \<^verbatim>\<open>saveBinary\<close> wrote, from the empty file on, is
  rejected by \<^verbatim>\<open>loadBinary\<close> with an error code.\<close>

theorem truncated_file_rejected:
  assumes "storable c" and "codec enc dec (chain_values c)" and "k < length (saveBinary enc c)"
  shows "fst (loadBinary dec doClear (open_stream (take k (saveBinary enc c))) newChain) \<noteq> OK"
  by (rule loadBinary_prefix [OF assms])

text \<open>A small chain, and eight bytes for its probabilities.\<close>

definition toy_chain :: "rat chain" where
  "toy_chain = trained (map of_char) [''ab'', ''a'']"

definition toy_enc :: "rat \<Rightarrow> u8 list" where
  "toy_enc p = (if p = 1 then replicate 8 1 else replicate 8 0)"

definition toy_dec :: "u8 list \<Rightarrow> rat" where
  "toy_dec bs = (if bs = replicate 8 1 then 1 else 0)"

lemma toy_chain_update: "chain_update toy_chain =
    \<lparr>mNodes = [(0x61, \<lparr>mProbs = [(0x62, 1)], mCounts = [(0x62, 1)], mSortedProbs = [(0x62, 1)]\<rparr>)],
     mFirstSymbolCounts = [(0x61, 2)], mFirstSymbolProbs = [(0x61, 1)], mFirstSymbolSortedProbs = [(0x61, 1)]\<rparr>"
  by (simp add: toy_chain_def trained_def train_def newChain_def addFirst_def addPair_def newNode_def node_increment_def
      chain_update_def normalize_def sum_counts_def node_update_def postprocess_def Let_def)

lemma toy_chain_storable: "storable (chain_update toy_chain)"
  by (simp add: toy_chain_update storable_def node_storable_def)

lemma toy_chain_codec: "codec toy_enc toy_dec (chain_values (chain_update toy_chain))"
  by (simp add: toy_chain_update codec_def chain_values_def node_values_def toy_enc_def toy_dec_def)

lemma save_load_roundtrip_witness:
  "\<exists>c'. loadBinary toy_dec True (open_stream (saveBinary toy_enc (chain_update toy_chain))) newChain = (OK, c') \<and>
     totalProbability c' [0x61, 0x62] = Some 1"
proof -
  have "list_all (\<lambda>x. distinct (map fst (mProbs (snd x)))) (mNodes toy_chain)"
    by (simp add: toy_chain_def trained_def train_def newChain_def addFirst_def addPair_def newNode_def node_increment_def Let_def)
  from save_load_roundtrip [OF toy_chain_storable toy_chain_codec this, of True] obtain c' where
    c': "loadBinary toy_dec True (open_stream (saveBinary toy_enc (chain_update toy_chain))) newChain = (OK, c')"
    "\<forall>w. totalProbability c' w = totalProbability (chain_update toy_chain) w" by blast
  have "totalProbability (chain_update toy_chain) [0x61, 0x62] = Some 1"
    by (simp add: toy_chain_update totalProbability_def probability_def)
  with c' show ?thesis by auto
qed

lemma truncated_file_rejected_witness:
  "fst (loadBinary toy_dec True (open_stream (take 30 (saveBinary toy_enc (chain_update toy_chain)))) newChain) \<noteq> OK"
proof (rule truncated_file_rejected [OF toy_chain_storable toy_chain_codec])
  show "30 < length (saveBinary toy_enc (chain_update toy_chain))"
    by (simp add: toy_chain_update saveBinary_def write_pairs_def write_node_def toy_enc_def FileHeader_def)
qed

end
