(* ===== verification/Util_System.thy ===== *)
theory Util_System
  imports Complex_Main Cpp_Streams Cpp_Numbers Cpp_Regex
begin

text \<open>
  The rest of \<^verbatim>\<open>pwned-lib/util.cpp\<close>: formatted text, readable sizes and times, the memory
  statistics of Linux and macOS, and the settings of the terminal.
\<close>

section \<open>Formatted text\<close>

text \<open>\<^verbatim>\<open>vsnprintf\<close> into a buffer of \<open>n\<close> bytes: the length of the whole text, and what
  fits of it (with a closing null character). \<open>out\<close> is the whole text.\<close>

definition vsnprintf :: "string \<Rightarrow> nat \<Rightarrow> nat \<times> string" where
  "vsnprintf out n = (length out, take (n - 1) out)"

text \<open>The buffer of the next try has one byte more than the text, \<open>n + \<bar>final_n - n + 1\<bar>\<close>.\<close>

partial_function (option) format_loop :: "string \<Rightarrow> nat \<Rightarrow> string option" where
  "format_loop out n =
     (let r = vsnprintf out n; final_n = fst r
      in if final_n \<ge> n then format_loop out (n + nat \<bar>int final_n - int n + 1\<bar>) else Some (snd r))"

definition string_format :: "string \<Rightarrow> string \<Rightarrow> string option" where
  "string_format fmt_str out = format_loop out (2 * length fmt_str)"

lemma string_format_text: "string_format fmt_str out = Some out"
proof -
  have fits: "format_loop out n = Some out" if "length out < n" for n
    using that by (subst format_loop.simps) (simp add: vsnprintf_def Let_def)
  let ?n = "2 * length fmt_str"
  show ?thesis
  proof (cases "length out < ?n")
    case False
    then have "?n + nat \<bar>int (length out) - int ?n + 1\<bar> = Suc (length out)" by simp
    with fits [of "Suc (length out)"] False show ?thesis
      unfolding string_format_def by (subst format_loop.simps) (simp add: vsnprintf_def Let_def)
  qed (simp add: string_format_def fits)
qed

text \<open>\<^verbatim>\<open>double\<close> is a linearly ordered field, so that rounding is left out; \<open>fixed k x\<close> is
  the text of \<^verbatim>\<open>%.kf\<close>. The first comparison is one of doubles, the others compare integers.\<close>

definition readableSize :: "(nat \<Rightarrow> 'p::linordered_field \<Rightarrow> string) \<Rightarrow> u64 \<Rightarrow> string option" where
  "readableSize fixed size' =
     (let sz = of_nat (unat size') in
      if sz > 1024 * 1024 * 1024 * 1024 then string_format ''%.1f TB'' (fixed 1 (sz / 1024 / 1024 / 1024 / 1024) @ '' TB'')
      else if size' > 1024 * 1024 * 1024 then string_format ''%.1f GB'' (fixed 1 (sz / 1024 / 1024 / 1024) @ '' GB'')
      else if size' > 1024 * 1024 then string_format ''%.1f MB'' (fixed 1 (sz / 1024 / 1024) @ '' MB'')
      else if size' > 1024 then string_format ''%.1f KB'' (fixed 1 (sz / 1024) @ '' KB'')
      else string_format ''%ld B'' (decimal_int (sint size') @ '' B''))"

text \<open>\<^verbatim>\<open>int(x)\<close> cuts off towards zero, \<^verbatim>\<open>round\<close> rounds halves away from zero.\<close>

definition trunc :: "'p::floor_ceiling \<Rightarrow> int" where
  "trunc x = (if x < 0 then \<lceil>x\<rceil> else \<lfloor>x\<rfloor>)"

definition round_half :: "'p::floor_ceiling \<Rightarrow> int" where
  "round_half x = (if x < 0 then \<lceil>x - 1 / 2\<rceil> else \<lfloor>x + 1 / 2\<rfloor>)"

definition time_parts :: "'p::floor_ceiling \<Rightarrow> int \<times> int \<times> int \<times> 'p \<times> int" where
  "time_parts t =
     (let x = t; days = trunc (x / 60 / 60 / 24); x = x - of_int (days * 60 * 60 * 24);
          hours = trunc (x / 60 / 60); x = x - of_int (hours * 60 * 60);
          mins = trunc (x / 60); x = x - of_int (mins * 60);
          secs = x; isecs = round_half secs
      in (days, hours, mins, secs, isecs))"

definition readableTime :: "(nat \<Rightarrow> 'p \<Rightarrow> string) \<Rightarrow> 'p::floor_ceiling \<Rightarrow> string option" where
  "readableTime fixed t =
     (case time_parts t of (days, hours, mins, secs, isecs) \<Rightarrow>
       if t > 60 * 60 * 24
       then string_format ''%dd %dh %dm %ds''
              (decimal_int days @ ''d '' @ decimal_int hours @ ''h '' @ decimal_int mins @ ''m '' @ decimal_int isecs @ ''s'')
       else if t > 60 * 60
       then string_format ''%dh %dm %ds'' (decimal_int hours @ ''h '' @ decimal_int mins @ ''m '' @ decimal_int isecs @ ''s'')
       else if t > 60
       then string_format ''%dm %ds'' (decimal_int mins @ ''m '' @ decimal_int isecs @ ''s'')
       else string_format ''%.4fs'' (fixed 4 secs @ ''s''))"

lemma trunc_split:
  fixes x u :: "'p::floor_ceiling"
  assumes "0 \<le> x" and "0 < u"
  shows "0 \<le> trunc (x / u)" and "of_int (trunc (x / u)) * u \<le> x" and "x < of_int (trunc (x / u)) * u + u"
proof -
  have "0 \<le> x / u" using assms by simp
  then have t: "trunc (x / u) = \<lfloor>x / u\<rfloor>" by (simp add: trunc_def)
  show "0 \<le> trunc (x / u)" using \<open>0 \<le> x / u\<close> by (simp add: t)
  show "of_int (trunc (x / u)) * u \<le> x" 
    unfolding t pos_le_divide_eq [OF assms(2), symmetric] by (rule of_int_floor_le)
  have "x / u < of_int \<lfloor>x / u\<rfloor> + 1" using floor_correct [of "x / u"] by simp
  then show "x < of_int (trunc (x / u)) * u + u" using assms(2) by (simp add: t pos_divide_less_eq distrib_right)
qed

section \<open>Memory statistics\<close>

record memory_part =
  m_total :: u64
  m_avail :: u64
  m_used :: u64
  m_app :: u64

record MemoryStat =
  virt :: memory_part
  phys :: memory_part

text \<open>The branch for macOS; the results of the system calls are its arguments, \<open>None\<close> where they
  fail: the usage of the swap file, the size of the memory, the statistics of the host (free, active,
  inactive and wired pages) and the sizes of the process. The numbers of pages and the size of a page
  are 32-bit numbers, and so are their products.\<close>

record swap_usage =
  xsu_total :: u64
  xsu_avail :: u64
  xsu_used :: u64
  xsu_pagesize :: u32

record vm_statistics =
  free_count :: u32
  active_count :: u32
  inactive_count :: u32
  wire_count :: u32

definition getMemoryStat_apple ::
  "swap_usage option \<Rightarrow> u64 \<Rightarrow> vm_statistics option \<Rightarrow> (u64 \<times> u64) option \<Rightarrow> MemoryStat \<Rightarrow> int \<times> MemoryStat" where
  "getMemoryStat_apple swapusage memsize host_stat task m =
     (case swapusage of
        None \<Rightarrow> (- 1, m)
      | Some vmusage \<Rightarrow>
          (let m = m\<lparr>virt := (virt m)\<lparr>m_total := xsu_total vmusage, m_avail := xsu_avail vmusage, m_used := xsu_used vmusage\<rparr>,
                     phys := (phys m)\<lparr>m_total := memsize\<rparr>\<rparr>
           in case host_stat of
                None \<Rightarrow> (- 2, m)
              | Some vmstat \<Rightarrow>
                  (let m = m\<lparr>phys := (phys m)\<lparr>
                         m_avail := ucast (free_count vmstat * xsu_pagesize vmusage),
                         m_used := ucast ((active_count vmstat + inactive_count vmstat + wire_count vmstat) * xsu_pagesize vmusage)\<rparr>\<rparr>
                   in case task of
                        None \<Rightarrow> (- 3, m)
                      | Some (virtual_size, resident_size) \<Rightarrow>
                          (0, m\<lparr>virt := (virt m)\<lparr>m_app := virtual_size\<rparr>, phys := (phys m)\<lparr>m_app := resident_size\<rparr>\<rparr>))))"

text \<open>The branch for Linux: the table of names, in the order of \<^verbatim>\<open>std::map\<close>, and the lines of
  \<^verbatim>\<open>/proc/meminfo\<close>.\<close>

datatype mem_field = MemAvailable | MemTotal | VmallocTotal | VmallocUsed

primrec set_field :: "mem_field \<Rightarrow> u64 \<Rightarrow> MemoryStat \<Rightarrow> MemoryStat" where
  "set_field MemAvailable v m = m\<lparr>phys := (phys m)\<lparr>m_avail := v\<rparr>\<rparr>"
| "set_field MemTotal v m = m\<lparr>phys := (phys m)\<lparr>m_total := v\<rparr>\<rparr>"
| "set_field VmallocTotal v m = m\<lparr>virt := (virt m)\<lparr>m_total := v\<rparr>\<rparr>"
| "set_field VmallocUsed v m = m\<lparr>virt := (virt m)\<lparr>m_used := v\<rparr>\<rparr>"

definition memTable :: "(string \<times> mem_field) list" where
  "memTable = [(''MemAvailable'', MemAvailable), (''MemTotal'', MemTotal),
               (''VmallocTotal'', VmallocTotal), (''VmallocUsed'', VmallocUsed)]"

definition word_char :: "char \<Rightarrow> bool" where
  "word_char c \<longleftrightarrow> is_alnum c \<or> c = CHR ''_''"

definition reFields :: regex where
  "reFields = Seq (plus (Cls word_char)) (Seq (Cls (\<lambda>c. c = CHR '':'')) (Seq (plus (Cls isSpace))
     (Seq (Group 1 (plus (Cls isDigit))) (Seq (plus (Cls isSpace)) (Group 2 (plus (Cls word_char)))))))"

definition unit_factor :: "string \<Rightarrow> u64 option" where
  "unit_factor u =
     (if u = ''GB'' then Some (1024 * 1024 * 1024)
      else if u = ''MB'' then Some (1024 * 1024)
      else if u = ''kB'' then Some 1024
      else if u = ''B'' then Some 1
      else None)"

definition line_value :: "string \<Rightarrow> number_error + u64 option" where
  "line_value line =
     (case regex_match reFields line of
        None \<Rightarrow> Inr None
      | Some groups \<Rightarrow>
          (case unit_factor (the (groups 2)) of
             None \<Rightarrow> Inr None
           | Some k \<Rightarrow> (case stoull (the (groups 1)) of Inl e \<Rightarrow> Inl e | Inr v \<Rightarrow> Inr (Some (v * k)))))"

primrec line_loop :: "string \<Rightarrow> (string \<times> mem_field) list \<Rightarrow> MemoryStat \<Rightarrow> number_error + MemoryStat" where
  "line_loop line [] m = Inr m"
| "line_loop line (t # ts) m =
     (if length line \<ge> length (fst t) \<and> take (length (fst t)) line = fst t
      then case line_value line of
             Inl e \<Rightarrow> Inl e
           | Inr None \<Rightarrow> line_loop line ts m
           | Inr (Some v) \<Rightarrow> line_loop line ts (set_field (snd t) v m)
      else line_loop line ts m)"

text \<open>The loop only ends at the end of the file: it runs forever if the file cannot be opened.\<close>

partial_function (option) meminfo_loop :: "char istream \<Rightarrow> MemoryStat \<Rightarrow> (number_error + MemoryStat) option" where
  "meminfo_loop meminfo m =
     (if eofbit meminfo then Some (Inr m)
      else let r = getline meminfo []
           in case line_loop (fst r) memTable m of
                Inl e \<Rightarrow> Some (Inl e)
              | Inr m \<Rightarrow> meminfo_loop (snd r) m)"

definition getMemoryStat_linux :: "char istream \<Rightarrow> MemoryStat \<Rightarrow> (number_error + int \<times> MemoryStat) option" where
  "getMemoryStat_linux meminfo m =
     (case meminfo_loop meminfo m of
        None \<Rightarrow> None
      | Some (Inl e) \<Rightarrow> Some (Inl e)
      | Some (Inr m) \<Rightarrow>
          Some (Inr (0, m\<lparr>virt := (virt m)\<lparr>m_avail := m_total (virt m) - m_used (virt m)\<rparr>,
                          phys := (phys m)\<lparr>m_used := m_total (phys m) - m_avail (phys m)\<rparr>\<rparr>)))"

section \<open>The terminal\<close>

text \<open>The local flags of the terminal, \<^verbatim>\<open>c_lflag\<close>, with the values of Linux.\<close>

definition ISIG :: u32 where
  "ISIG = 0x1"

definition ICANON :: u32 where
  "ICANON = 0x2"

definition ECHO :: u32 where
  "ECHO = 0x8"

text \<open>\<^verbatim>\<open>TermIO\<close> keeps the flags it found; the destructor sets them again.\<close>

record TermIO =
  old_t :: u32

definition newTermIO :: "u32 \<Rightarrow> TermIO" where
  "newTermIO t = \<lparr>old_t = t\<rparr>"

definition destroyTermIO :: "TermIO \<Rightarrow> u32 \<Rightarrow> u32" where
  "destroyTermIO d t = old_t d"

definition disableEcho :: "u32 \<Rightarrow> u32" where
  "disableEcho t = (t AND NOT ICANON) AND NOT ECHO"

definition enableEcho :: "u32 \<Rightarrow> u32" where
  "enableEcho t = (t OR ICANON) OR NOT ECHO"

definition disableBreak :: "u32 \<Rightarrow> u32" where
  "disableBreak t = t AND NOT ISIG"

definition enableBreak :: "u32 \<Rightarrow> u32" where
  "enableBreak t = t OR ISIG"

definition setStdinEcho :: "bool \<Rightarrow> u32 \<Rightarrow> u32" where
  "setStdinEcho enable t = (if \<not> enable then t AND NOT ECHO else t OR ECHO)"

section \<open>Reading the memory information\<close>

lemma set_greedy_class:
  assumes "\<And>s c. m (s, c) = (case s of [] \<Rightarrow> [] | x # t \<Rightarrow> if P x then [(t, c)] else [])"
  shows "length s \<le> n \<Longrightarrow> set (rep_greedy n m (s, c)) = {(t, c) | t. \<exists>a. s = a @ t \<and> list_all P a}"
proof (induction n arbitrary: s)
  case (Suc n)
  show ?case
  proof (cases s)
    case Nil
    then show ?thesis by (auto simp: assms)
  next
    case (Cons x xs)
    have IH: "set (rep_greedy n m (xs, c)) = {(t, c) | t. \<exists>a. xs = a @ t \<and> list_all P a}"
      using Suc.prems Cons by (intro Suc.IH) simp
    have "(\<exists>a. x # xs = a @ t \<and> list_all P a) \<longleftrightarrow> t = x # xs \<or> P x \<and> (\<exists>a. xs = a @ t \<and> list_all P a)" for t
      by (auto simp: Cons_eq_append_conv)
    then show ?thesis using IH by (auto simp: Cons consumes_def assms)
  qed
qed simp

definition run :: "(char \<Rightarrow> bool) \<Rightarrow> string \<Rightarrow> bool" where
  "run P a \<longleftrightarrow> a \<noteq> [] \<and> list_all P a"

lemma run_Cons: "run P (x # a) \<longleftrightarrow> P x \<and> list_all P a"
  by (simp add: run_def)

lemma set_plus_class: "set (matches (plus (Cls P)) (s, c)) = {(t, c) | t. \<exists>a. s = a @ t \<and> run P a}"
proof (cases s)
  case (Cons x xs)
  have "(\<exists>a. x # xs = a @ t \<and> run P a) \<longleftrightarrow> P x \<and> (\<exists>a. xs = a @ t \<and> list_all P a)" for t
    by (auto simp: Cons_eq_append_conv run_def)
  moreover have "set (rep_greedy (length xs) (matches (Cls P)) (xs, c)) = {(t, c) | t. \<exists>a. xs = a @ t \<and> list_all P a}"
    by (rule set_greedy_class [where P = P]) (simp_all split: list.split)
  ultimately show ?thesis by (auto simp: plus_def Cons)
qed (simp add: plus_def run_def)

lemma set_Seq: "set (matches (Seq r1 r2) x) = (\<Union>z \<in> set (matches r1 x). set (matches r2 z))"
  by simp

lemma seq_plus:
  "y \<in> set (matches (Seq (plus (Cls P)) r) (s, c)) \<longleftrightarrow> (\<exists>a t. s = a @ t \<and> run P a \<and> y \<in> set (matches r (t, c)))"
  unfolding matches.simps set_concat set_map image_image set_plus_class by auto

lemma seq_char:
  "y \<in> set (matches (Seq (Cls (\<lambda>d. d = x)) r) (s, c)) \<longleftrightarrow> (\<exists>t. s = x # t \<and> y \<in> set (matches r (t, c)))"
  by (auto split: list.splits)

lemma group_plus:
  "y \<in> set (matches (Group k (plus (Cls P))) (s, c)) \<longleftrightarrow> (\<exists>a t. s = a @ t \<and> run P a \<and> y = (t, c(k \<mapsto> a)))"
  unfolding matches.simps set_map set_plus_class by (auto simp: image_iff)

lemma seq_group_plus:
  "y \<in> set (matches (Seq (Group k (plus (Cls P))) r) (s, c)) \<longleftrightarrow>
   (\<exists>a t. s = a @ t \<and> run P a \<and> y \<in> set (matches r (t, c(k \<mapsto> a))))"
  unfolding set_Seq UN_iff Bex_def group_plus by blast

lemma matches_reFields:
  "y \<in> set (matches reFields (s, c)) \<longleftrightarrow>
   (\<exists>a b d e f t. s = a @ CHR '':'' # b @ d @ e @ f @ t \<and> run word_char a \<and> run isSpace b \<and>
      run isDigit d \<and> run isSpace e \<and> run word_char f \<and> y = (t, c(1 \<mapsto> d, 2 \<mapsto> f)))"
  unfolding reFields_def seq_plus seq_char seq_group_plus group_plus
  by (rule iffI; elim exE conjE; hypsubst; intro exI conjI; (rule refl | assumption))

lemma run_unique:
  assumes "run P a" and "run P b" and "a @ s = b @ t" and "s = [] \<or> \<not> P (hd s)" and "t = [] \<or> \<not> P (hd t)"
  shows "a = b \<and> s = t"
proof -
  have "takeWhile P (a @ s) = a" using assms(1,4) by (cases s) (auto simp: run_def list_all_iff takeWhile_append)
  moreover have "takeWhile P (b @ t) = b" using assms(2,5) by (cases t) (auto simp: run_def list_all_iff takeWhile_append)
  ultimately show ?thesis using assms(3) by auto
qed

lemma run_hd: "run P a \<Longrightarrow> P (hd (a @ s))"
  by (cases a) (auto simp: run_def)

lemma class_disjoint:
  "isSpace c \<Longrightarrow> \<not> word_char c" "isSpace c \<Longrightarrow> \<not> isDigit c" "\<not> word_char CHR '':''" "\<not> isSpace CHR '':''"
  by (auto simp: isSpace_def word_char_def is_alnum_def isDigit_def Let_def)

lemma isDigit_word_char: "isDigit c \<Longrightarrow> word_char c"
  by (auto simp: word_char_def is_alnum_def isDigit_def Let_def)

lemma regex_match_reFields:
  assumes "run word_char a" "run isSpace b" "run isDigit d" "run isSpace e" "run word_char f"
  shows "regex_match reFields (a @ CHR '':'' # b @ d @ e @ f) = Some [1 \<mapsto> d, 2 \<mapsto> f]"
proof -
  let ?s = "a @ CHR '':'' # b @ d @ e @ f"
  have "([], [1 \<mapsto> d, 2 \<mapsto> f]) \<in> set (matches reFields (?s, Map.empty))"
    unfolding matches_reFields using assms by (metis append_Nil2)
  then have "regex_match reFields ?s \<noteq> None" unfolding regex_match_None by force
  then obtain c where c: "regex_match reFields ?s = Some c" by blast
  from regex_match_Some [OF c] obtain a' b' d' e' f' where
    s: "?s = a' @ CHR '':'' # b' @ d' @ e' @ f'" and r: "run word_char a'" "run isSpace b'" "run isDigit d'" "run isSpace e'" "run word_char f'"
    and c': "c = [1 \<mapsto> d', 2 \<mapsto> f']"
    unfolding matches_reFields by auto
  have 1: "CHR '':'' # b @ d @ e @ f = CHR '':'' # b' @ d' @ e' @ f'"
    using run_unique [OF assms(1) r(1) s] class_disjoint by simp
  have nd: "\<not> isSpace (hd (d @ x))" if "run isDigit d" for d x
    using run_hd [OF that, of x] class_disjoint by blast
  have ns: "\<not> isDigit (hd (e @ x))" if "run isSpace e" for e x
    using run_hd [OF that, of x] class_disjoint by blast
  have nw: "\<not> isSpace (hd x)" if "run word_char x" for x
    using run_hd [OF that, of "[]"] class_disjoint by auto
  from 1 have "b @ d @ e @ f = b' @ d' @ e' @ f'" by simp
  from run_unique [OF assms(2) r(2) this] have 2: "d @ e @ f = d' @ e' @ f'" using nd assms(3) r(3) by blast
  from run_unique [OF assms(3) r(3) 2] have 3: "d = d'" "e @ f = e' @ f'" using ns assms(4) r(4) by blast+
  from run_unique [OF assms(4) r(4) 3(2)] have "f = f'" using nw assms(5) r(5) by blast
  then show ?thesis using c c' 3(1) by simp
qed

text \<open>A file of entries as \<^verbatim>\<open>/proc/meminfo\<close> has them: a name, which may hold characters such as brackets,
  the number of blanks after the colon, a number, and a unit, which is empty for entries such as
  \<^verbatim>\<open>HugePages_Total\<close>.\<close>

type_synonym mem_entry = "string \<times> nat \<times> nat \<times> string"

definition mem_line :: "mem_entry \<Rightarrow> string" where
  "mem_line = (\<lambda>(name, n, v, u).
     name @ CHR '':'' # replicate n CHR '' '' @ decimal v @ (if u = [] then [] else CHR '' '' # u))"

definition mem_file :: "mem_entry list \<Rightarrow> string" where
  "mem_file es = concat (map (\<lambda>e. mem_line e @ [CHR 0x0A]) es)"

definition mem_entry_ok :: "mem_entry \<Rightarrow> bool" where
  "mem_entry_ok = (\<lambda>(name, n, v, u).
     CHR '':'' \<notin> set name \<and> CHR 0x0A \<notin> set name \<and> 0 < n \<and> v < 2 ^ 64 \<and> list_all word_char u)"

text \<open>The number of bytes an entry stands for. Entries whose name is not a word, that have no unit, or
  that have another one than GB, MB, kB and B stand for none. The number is taken modulo \<open>2 ^ 64\<close>.\<close>

definition mem_value :: "mem_entry \<Rightarrow> u64 option" where
  "mem_value = (\<lambda>(name, n, v, u).
     if \<not> run word_char name then None
     else if u = ''GB'' then Some (word_of_nat (v * 1024 ^ 3))
     else if u = ''MB'' then Some (word_of_nat (v * 1024 ^ 2))
     else if u = ''kB'' then Some (word_of_nat (v * 1024))
     else if u = ''B'' then Some (word_of_nat v)
     else None)"

text \<open>The value of the last entry with a value whose name begins with the key.\<close>

definition reported :: "mem_entry list \<Rightarrow> string \<Rightarrow> u64 \<Rightarrow> u64" where
  "reported es key d =
     fold (\<lambda>e x. if take (length key) (fst e) = key then (case mem_value e of None \<Rightarrow> x | Some y \<Rightarrow> y) else x) es d"

lemma takeWhile_sep: "c \<notin> set xs \<Longrightarrow> takeWhile (\<lambda>x. x \<noteq> c) (xs @ c # ys) = xs"
  by (induction xs) auto

lemma regex_match_mem:
  assumes "mem_entry_ok (name, n, v, u)"
  shows "regex_match reFields (mem_line (name, n, v, u)) =
    (if run word_char name \<and> u \<noteq> [] then Some [1 \<mapsto> decimal v, 2 \<mapsto> u] else None)"
proof -
  have sp: "run isSpace (replicate n CHR '' '')" using assms by (simp add: mem_entry_ok_def run_def list_all_iff isSpace_def)
  have dg: "run isDigit (decimal v)" by (simp add: run_def decimal_digits)
  have bl: "run isSpace '' ''" by (simp add: run_def isSpace_def)
  have u: "u \<noteq> [] \<Longrightarrow> run word_char u" using assms by (simp add: mem_entry_ok_def run_def)
  show ?thesis
  proof (cases "run word_char name \<and> u \<noteq> []")
    case True
    then have "regex_match reFields (name @ CHR '':'' # replicate n CHR '' '' @ decimal v @ '' '' @ u) =
        Some [1 \<mapsto> decimal v, 2 \<mapsto> u]"
      using sp dg bl u by (intro regex_match_reFields) simp_all
    then show ?thesis using True by (simp add: mem_line_def)
  next
    case False
    have "regex_match reFields (mem_line (name, n, v, u)) = None"
    proof (rule ccontr)
      assume "regex_match reFields (mem_line (name, n, v, u)) \<noteq> None"
      then obtain c where c: "regex_match reFields (mem_line (name, n, v, u)) = Some c" by blast
      from regex_match_Some [OF this] obtain a b d e f where
        s: "mem_line (name, n, v, u) = a @ CHR '':'' # b @ d @ e @ f"
        and r: "run word_char a" "run isSpace b" "run isDigit d" "run isSpace e" "run word_char f"
        unfolding matches_reFields by auto
      let ?r = "replicate n CHR '' '' @ decimal v @ (if u = [] then [] else CHR '' '' # u)"
      have "CHR '':'' \<notin> set a" using r(1) class_disjoint(3) by (auto simp: run_def list_all_iff)
      moreover have "CHR '':'' \<notin> set name" using assms by (simp add: mem_entry_ok_def)
      moreover have "name @ CHR '':'' # ?r = a @ CHR '':'' # b @ d @ e @ f" using s by (simp add: mem_line_def)
      ultimately have n: "name = a" and rest: "?r = b @ d @ e @ f"
        using takeWhile_sep [of "CHR '':''" name ?r] takeWhile_sep [of "CHR '':''" a "b @ d @ e @ f"] by simp_all
      with False r(1) have "u = []" by simp
      with rest have "replicate n CHR '' '' @ decimal v = b @ d @ e @ f" by simp
      moreover have "\<not> isSpace (hd (decimal v))" "\<not> isSpace (hd (d @ e @ f))"
        using run_hd [OF dg, of "[]"] run_hd [OF r(3), of "e @ f"] class_disjoint(2) by auto
      ultimately have "decimal v = d @ e @ f" using run_unique [OF sp r(2)] by blast
      moreover have "hd e \<in> set e" "isSpace (hd e)" using r(4) run_hd [OF r(4), of "[]"] by (auto simp: run_def)
      ultimately have "hd e \<in> set (decimal v)" "isSpace (hd e)" by auto
      then show False using dg class_disjoint(2) by (auto simp: run_def list_all_iff)
    qed
    then show ?thesis using False by simp
  qed
qed

lemma line_value_mem:
  assumes "mem_entry_ok (name, n, v, u)"
  shows "line_value (mem_line (name, n, v, u)) = Inr (mem_value (name, n, v, u))"
proof -
  have v: "stoull (decimal v) = Inr (word_of_nat v)" using assms by (simp add: mem_entry_ok_def stoull_decimal)
  show ?thesis
  proof (cases "run word_char name \<and> u \<noteq> []")
    case True
    then show ?thesis
      by (simp add: line_value_def regex_match_mem [OF assms] mem_value_def v unit_factor_def mult.assoc)
  next
    case False
    then show ?thesis by (auto simp: line_value_def regex_match_mem [OF assms] mem_value_def)
  qed
qed

lemma mem_line_prefix:
  assumes "list_all word_char key"
  shows "length (mem_line e) \<ge> length key \<and> take (length key) (mem_line e) = key \<longleftrightarrow>
    take (length key) (fst e) = key"
proof -
  have "take (length key) (name @ CHR '':'' # r) = key \<longleftrightarrow> take (length key) name = key" for name r
    using assms
  proof (induction key arbitrary: name)
    case (Cons k ks)
    then show ?case using class_disjoint(3) by (cases name) auto
  qed simp
  then have "take (length key) (mem_line e) = key \<longleftrightarrow> take (length key) (fst e) = key"
    by (simp add: mem_line_def split: prod.split)
  moreover have "length key \<le> length x" if "take (length key) x = key" for x :: string
    using that by (metis length_take min.bounded_iff order_refl)
  ultimately show ?thesis by blast
qed

primrec entry_loop :: "mem_entry \<Rightarrow> (string \<times> mem_field) list \<Rightarrow> MemoryStat \<Rightarrow> MemoryStat" where
  "entry_loop e [] m = m"
| "entry_loop e (t # ts) m =
     entry_loop e ts
       (if take (length (fst t)) (fst e) = fst t
        then case mem_value e of None \<Rightarrow> m | Some v \<Rightarrow> set_field (snd t) v m
        else m)"

definition entry_step :: "mem_entry \<Rightarrow> MemoryStat \<Rightarrow> MemoryStat" where
  "entry_step e = entry_loop e memTable"

lemma line_loop_mem:
  assumes "mem_entry_ok e" and "list_all (\<lambda>t. list_all word_char (fst t)) ts"
  shows "line_loop (mem_line e) ts m = Inr (entry_loop e ts m)"
  using assms(2)
proof (induction ts arbitrary: m)
  case (Cons t ts)
  then have t: "list_all word_char (fst t)" by simp
  obtain name n v u where e: "e = (name, n, v, u)" by (cases e) auto
  show ?case
    unfolding line_loop.simps mem_line_prefix [OF t]
    using Cons line_value_mem [of name n v u] assms(1) by (simp add: e split: option.split)
qed simp

lemma memTable_words: "list_all (\<lambda>t. list_all word_char (fst t)) memTable"
  by (simp add: memTable_def word_char_def is_alnum_def)

lemma mem_line_no_newline:
  assumes "mem_entry_ok e"
  shows "CHR 0x0A \<notin> set (mem_line e)"
proof -
  have w: "\<not> word_char CHR 0x0A" and d: "\<not> isDigit CHR 0x0A" by (simp_all add: word_char_def is_alnum_def isDigit_def)
  obtain name n v u where e: "e = (name, n, v, u)" by (cases e) auto
  have "CHR 0x0A \<notin> set u" using assms w by (auto simp: e mem_entry_ok_def list_all_iff)
  moreover have "CHR 0x0A \<notin> set (decimal v)" using d decimal_digits [of v] by (auto simp: list_all_iff)
  ultimately show ?thesis using assms by (auto simp: e mem_line_def mem_entry_ok_def)
qed

lemma meminfo_loop_mem:
  assumes "good s" and "unread s = mem_file es" and "list_all mem_entry_ok es"
  shows "meminfo_loop s m = Some (Inr (fold entry_step es m))"
  using assms
proof (induction es arbitrary: s m)
  case Nil
  then have g: "getline s [] = ([], s\<lparr>eofbit := True, failbit := True\<rparr>)"
    using getline_last [of s "[]"] by (simp add: mem_file_def)
  have "line_loop [] memTable m = Inr m" by (simp add: memTable_def)
  moreover have "\<not> eofbit s" using Nil(1) by (simp add: good_def)
  ultimately show ?case by (subst meminfo_loop.simps) (simp add: g meminfo_loop.simps)
next
  case (Cons e es)
  let ?l = "mem_line e"
  let ?s = "s\<lparr>position := position s + length ?l + 1\<rparr>"
  have u: "unread s = ?l @ CHR 0x0A # mem_file es" using Cons.prems(2) by (simp add: mem_file_def)
  have g: "getline s [] = (?l, ?s)"
    using getline_line [OF Cons.prems(1) u] mem_line_no_newline [of e] Cons.prems(3) by simp
  have "unread ?s = drop (length ?l + 1) (unread s)" by (simp add: unread_def add.commute add.left_commute)
  then have "unread ?s = mem_file es" by (simp add: u)
  moreover have "good ?s" using Cons.prems(1) by (simp add: good_def)
  ultimately have "meminfo_loop ?s (entry_step e m) = Some (Inr (fold entry_step es (entry_step e m)))"
    using Cons.prems(3) by (intro Cons.IH) simp_all
  moreover have "line_loop ?l memTable m = Inr (entry_step e m)"
    using line_loop_mem [of e memTable m] memTable_words Cons.prems(3) by (simp add: entry_step_def)
  moreover have "\<not> eofbit s" using Cons.prems(1) by (simp add: good_def)
  ultimately show ?case by (subst meminfo_loop.simps) (simp add: g)
qed

lemma entry_step_fields:
  "m_avail (phys (entry_step e m)) = reported [e] ''MemAvailable'' (m_avail (phys m))"
  "m_total (phys (entry_step e m)) = reported [e] ''MemTotal'' (m_total (phys m))"
  "m_total (virt (entry_step e m)) = reported [e] ''VmallocTotal'' (m_total (virt m))"
  "m_used (virt (entry_step e m)) = reported [e] ''VmallocUsed'' (m_used (virt m))"
  "m_app (phys (entry_step e m)) = m_app (phys m)" "m_app (virt (entry_step e m)) = m_app (virt m)"
  by (simp_all add: entry_step_def memTable_def reported_def split: option.split)

lemma reported_Cons: "reported (e # es) key d = reported es key (reported [e] key d)"
  by (simp add: reported_def)

lemma fold_reported:
  assumes "\<And>e m. f (entry_step e m) = reported [e] key (f m)"
  shows "f (fold entry_step es m) = reported es key (f m)"
proof (induction es arbitrary: m)
  case (Cons e es)
  show ?case unfolding reported_Cons [of e es] using Cons.IH [of "entry_step e m"] assms [of e m] by simp
qed (simp add: reported_def)

lemma fold_kept:
  assumes "\<And>e m. f (entry_step e m) = f m"
  shows "f (fold entry_step es m) = f m"
  by (induction es arbitrary: m) (simp_all add: assms)

lemmas entry_steps_fields =
  fold_reported [where f = "\<lambda>m. m_avail (phys m)", OF entry_step_fields(1)]
  fold_reported [where f = "\<lambda>m. m_total (phys m)", OF entry_step_fields(2)]
  fold_reported [where f = "\<lambda>m. m_total (virt m)", OF entry_step_fields(3)]
  fold_reported [where f = "\<lambda>m. m_used (virt m)", OF entry_step_fields(4)]
  fold_kept [where f = "\<lambda>m. m_app (phys m)", OF entry_step_fields(5)]
  fold_kept [where f = "\<lambda>m. m_app (virt m)", OF entry_step_fields(6)]

section \<open>Properties\<close>

lemma trunc_less:
  fixes x u :: "'p::floor_ceiling"
  assumes "0 \<le> x" and "0 < u" and "x < of_int k * u"
  shows "trunc (x / u) < k"
proof -
  have "of_int (trunc (x / u)) * u < of_int k * u" using trunc_split(2) [OF assms(1,2)] assms(3) by simp
  then show ?thesis using assms(2) by simp
qed

text \<open>The parts of a readable time: days, hours, minutes and seconds add up to the time, hours
  are below 24, minutes and seconds below 60; the number of seconds that is printed is the rounded
  one, which is 60 from 59.5 on.\<close>

theorem time_parts_split:
  fixes t :: "'p::floor_ceiling"
  assumes "0 \<le> t"
  shows "case time_parts t of (days, hours, mins, secs, isecs) \<Rightarrow>
     t = of_int (days * 86400 + hours * 3600 + mins * 60) + secs \<and>
     0 \<le> days \<and> 0 \<le> hours \<and> hours < 24 \<and> 0 \<le> mins \<and> mins < 60 \<and> 0 \<le> secs \<and> secs < 60 \<and>
     0 \<le> isecs \<and> isecs \<le> 60 \<and> (isecs = 60 \<longleftrightarrow> 59 + 1 / 2 \<le> secs)"
proof -
  define days where "days = trunc (t / 86400)"
  define x where "x = t - of_int days * 86400"
  define hours where "hours = trunc (x / 3600)"
  define y where "y = x - of_int hours * 3600"
  define mins where "mins = trunc (y / 60)"
  define secs where "secs = y - of_int mins * 60"
  have parts: "time_parts t = (days, hours, mins, secs, round_half secs)"
    by (simp add: time_parts_def Let_def days_def x_def hours_def y_def mins_def secs_def mult.assoc)
  have d: "0 \<le> days" "0 \<le> x" "x < of_int 24 * 3600"
    using trunc_split [OF assms, of 86400] by (simp_all add: days_def x_def algebra_simps)
  have h: "0 \<le> hours" "0 \<le> y" "y < of_int 60 * 60" "hours < 24"
    using trunc_split [OF d(2), of 3600] trunc_less [OF d(2) _ d(3)] by (simp_all add: hours_def y_def algebra_simps)
  have m: "0 \<le> mins" "0 \<le> secs" "secs < 60" "mins < 60"
    using trunc_split [OF h(2), of 60] trunc_less [OF h(2) _ h(3)] by (simp_all add: mins_def secs_def algebra_simps)
  have eq: "t = of_int (days * 86400 + hours * 3600 + mins * 60) + secs" by (simp add: secs_def y_def x_def)
  have r: "round_half secs = \<lfloor>secs + 1 / 2\<rfloor>" using m(2) by (simp add: round_half_def)
  have "0 \<le> round_half secs" using m(2) by (simp add: r)
  moreover have "round_half secs < 61" using m(3) by (simp add: r floor_less_iff)
  moreover have "60 \<le> round_half secs \<longleftrightarrow> 59 + 1 / 2 \<le> secs" by (auto simp: r le_floor_iff field_simps)
  ultimately show ?thesis using d(1) h(1,4) m
    unfolding parts prod.case by (intro conjI eq) auto
qed

lemma time_parts_split_witness:
  "case time_parts (1199 / 10 :: rat) of (days, hours, mins, secs, isecs) \<Rightarrow> mins = 1 \<and> isecs = 60 \<and> secs < 60"
proof -
  have "time_parts (1199 / 10 :: rat) = (0, 0, 1, 599 / 10, 60)"
    by code_simp
  with time_parts_split [of "1199 / 10 :: rat"] show ?thesis by simp
qed

text \<open>\<^verbatim>\<open>enableEcho\<close> sets every local flag of the terminal but the one for the echo,
  which it leaves as it is: after \<^verbatim>\<open>disableEcho\<close> the echo stays off until \<^verbatim>\<open>TermIO\<close> is
  destroyed. \<^verbatim>\<open>setStdinEcho\<close> does turn it on.\<close>

theorem enableEcho_all_but_echo:
  "enableEcho t = t OR NOT ECHO \<and> enableEcho (disableEcho t) AND ECHO = 0 \<and>
   destroyTermIO (newTermIO t) (enableEcho (disableEcho t)) = t \<and>
   setStdinEcho True t AND ECHO = ECHO \<and> setStdinEcho False t AND ECHO = 0"
proof -
  have e: "bit ECHO n \<longleftrightarrow> n = 3" for n
    using bit_push_bit_iff [of 3 "1 :: u32" n] by (auto simp: ECHO_def bit_1_iff)
  have c: "bit ICANON n \<longleftrightarrow> n = 1" for n
    using bit_push_bit_iff [of 1 "1 :: u32" n] by (auto simp: ICANON_def bit_1_iff)
  show ?thesis
    by (intro conjI bit_word_eqI)
      (auto simp: enableEcho_def disableEcho_def setStdinEcho_def destroyTermIO_def newTermIO_def
        bit_or_iff bit_and_iff bit_not_iff e c)
qed

text \<open>C35: On Linux the statistics are those \<^verbatim>\<open>/proc/meminfo\<close> reports: of every key the last entry
  whose name begins with it and that is a word, a number and one of the units GB, MB, kB and B, as a number of
  bytes modulo \<open>2 ^ 64\<close>; all other entries are skipped. The rest is computed from these or kept:
  \<^verbatim>\<open>phys.app\<close> and \<^verbatim>\<open>virt.app\<close> are not set.\<close>

theorem getMemoryStat_reported:
  assumes "list_all mem_entry_ok es"
  shows "\<exists>m'. getMemoryStat_linux (open_stream (mem_file es)) m = Some (Inr (0, m')) \<and>
    m_total (phys m') = reported es ''MemTotal'' (m_total (phys m)) \<and>
    m_avail (phys m') = reported es ''MemAvailable'' (m_avail (phys m)) \<and>
    m_used (phys m') = m_total (phys m') - m_avail (phys m') \<and>
    m_total (virt m') = reported es ''VmallocTotal'' (m_total (virt m)) \<and>
    m_used (virt m') = reported es ''VmallocUsed'' (m_used (virt m)) \<and>
    m_avail (virt m') = m_total (virt m') - m_used (virt m') \<and>
    m_app (phys m') = m_app (phys m) \<and> m_app (virt m') = m_app (virt m)"
proof -
  have "meminfo_loop (open_stream (mem_file es)) m = Some (Inr (fold entry_step es m))"
    using assms by (intro meminfo_loop_mem) (simp_all add: unread_def)
  then show ?thesis by (simp add: getMemoryStat_linux_def entry_steps_fields)
qed

text \<open>Lines as a Linux kernel writes them.\<close>

definition some_meminfo :: "mem_entry list" where
  "some_meminfo =
     [(''MemTotal'', 7, 16, ''MB''), (''MemFree'', 1, 9, ''kB''), (''MemAvailable'', 3, 4, ''kB''),
      (''Active(anon)'', 7, 1536, ''kB''), (''VmallocUsed'', 5, 7, []), (''HugePages_Total'', 7, 0, [])]"

lemma getMemoryStat_reported_witness:
  "\<forall>m. \<exists>m'. getMemoryStat_linux (open_stream (mem_file some_meminfo)) m = Some (Inr (0, m')) \<and>
     m_used (phys m') = 16 * 1024 * 1024 - 4 * 1024 \<and> m_used (virt m') = m_used (virt m)"
proof
  fix m
  have "list_all mem_entry_ok some_meminfo"
    by (simp add: some_meminfo_def mem_entry_ok_def word_char_def is_alnum_def)
  from getMemoryStat_reported [OF this, of m]
  show "\<exists>m'. getMemoryStat_linux (open_stream (mem_file some_meminfo)) m = Some (Inr (0, m')) \<and>
     m_used (phys m') = 16 * 1024 * 1024 - 4 * 1024 \<and> m_used (virt m') = m_used (virt m)"
    by (auto simp: reported_def some_meminfo_def mem_value_def run_def word_char_def is_alnum_def)
qed

text \<open>On macOS the sizes of available and used memory are computed in 32 bits: both are below
  4 GiB however much memory there is. Where no system call fails, all fields are set.\<close>

theorem getMemoryStat_apple_wraps:
  "\<exists>m'. getMemoryStat_apple (Some u) memsize (Some v) (Some (vs, rs)) m = (0, m') \<and>
    unat (m_avail (phys m')) = unat (free_count v) * unat (xsu_pagesize u) mod 2 ^ 32 \<and>
    unat (m_used (phys m')) =
      (unat (active_count v) + unat (inactive_count v) + unat (wire_count v)) * unat (xsu_pagesize u) mod 2 ^ 32 \<and>
    m_total (phys m') = memsize \<and> m_app (phys m') = rs \<and>
    virt m' = \<lparr>m_total = xsu_total u, m_avail = xsu_avail u, m_used = xsu_used u, m_app = vs\<rparr>"
proof -
  have w: "unat (ucast x :: u64) = unat x" for x :: u32 by (simp add: unsigned_ucast_eq take_bit_nat_eq_self order_less_trans [OF unsigned_less])
  have "unat (ucast (free_count v * xsu_pagesize u) :: u64) = unat (free_count v) * unat (xsu_pagesize u) mod 2 ^ 32"
    by (simp only: w unat_word_ariths) simp
  moreover have "unat (ucast ((active_count v + inactive_count v + wire_count v) * xsu_pagesize u) :: u64) =
      (unat (active_count v) + unat (inactive_count v) + unat (wire_count v)) * unat (xsu_pagesize u) mod 2 ^ 32"
    by (simp only: w unat_word_ariths) (simp add: mod_simps)
  ultimately show ?thesis by (simp add: getMemoryStat_apple_def Let_def)
qed

end
