(* ===== verification/Merger_Cli.thy ===== *)
theory Merger_Cli
  imports Merger Console Util_System
begin

text \<open>
  The merger as a tool: \<^verbatim>\<open>pwned-merger-cli.cpp\<close> with \<^verbatim>\<open>lazy.hpp\<close>, \<^verbatim>\<open>inputfile.hpp\<close> and
  \<^verbatim>\<open>progressbar.hpp\<close>. It merges at most a given number of files at once, the largest first, into
  intermediate files that it merges in turn.

  The one operation the queue holds at a time runs to its end before \<^verbatim>\<open>waitForFinished\<close> returns
  (\<open>Operation_Queue\<close>); an \<^verbatim>\<open>OperationException\<close> is printed by \<^verbatim>\<open>Operation::start\<close>. The thread that
  reads keys acts only through \<open>quit\<close> (of an operation) and \<open>stop\<close> (of the queue).
\<close>

section \<open>Values computed on demand\<close>

text \<open>\<^verbatim>\<open>Lazy<T>\<close>: the function that creates the value, here from the file system, and the value
  once it is there. An exception leaves it uninitialised. Copies share the state.\<close>

record 'a Lazy =
  createValue :: "files \<Rightarrow> fs_error + 'a"
  lazy_state :: "'a option"

definition newLazy :: "(files \<Rightarrow> fs_error + 'a) \<Rightarrow> 'a Lazy" where
  "newLazy f = \<lparr>createValue = f, lazy_state = None\<rparr>"

definition lazy_bool :: "'a Lazy \<Rightarrow> bool" where
  "lazy_bool l \<longleftrightarrow> lazy_state l \<noteq> None"

definition lazy_init :: "files \<Rightarrow> 'a Lazy \<Rightarrow> fs_error + 'a Lazy" where
  "lazy_init fs l =
     (case lazy_state l of
        Some v \<Rightarrow> Inr l
      | None \<Rightarrow> (case createValue l fs of Inl e \<Rightarrow> Inl e | Inr v \<Rightarrow> Inr (l\<lparr>lazy_state := Some v\<rparr>)))"

definition lazy_value :: "files \<Rightarrow> 'a Lazy \<Rightarrow> fs_error + ('a \<times> 'a Lazy)" where
  "lazy_value fs l =
     (case lazy_init fs l of Inl e \<Rightarrow> Inl e | Inr l \<Rightarrow> Inr (the (lazy_state l), l))"

section \<open>Input files\<close>

datatype input_state = pending | reading | finished | cancelled

text \<open>\<^verbatim>\<open>bytesProcessed\<close>, \<^verbatim>\<open>totalSets\<close> and \<^verbatim>\<open>setsWritten\<close> are neither initialised nor used.\<close>

record input_file =
  if_path :: string
  if_state :: input_state
  inputSize :: "u64 Lazy"

definition file_size :: "string \<Rightarrow> files \<Rightarrow> fs_error + u64" where
  "file_size path fs = (case fs path of None \<Rightarrow> Inl (NoSuchFile path) | Some e \<Rightarrow> Inr (word_of_nat (length (fst e))))"

definition newInputFile :: "string \<Rightarrow> input_file" where
  "newInputFile path = \<lparr>if_path = path, if_state = pending, inputSize = newLazy (file_size path)\<rparr>"

primrec force_sizes :: "files \<Rightarrow> input_file list \<Rightarrow> fs_error + input_file list" where
  "force_sizes fs [] = Inr []"
| "force_sizes fs (f # xs) =
     (case lazy_value fs (inputSize f) of
        Inl e \<Rightarrow> Inl e
      | Inr (v, l) \<Rightarrow> (case force_sizes fs xs of Inl e \<Rightarrow> Inl e | Inr ys \<Rightarrow> Inr (f\<lparr>inputSize := l\<rparr> # ys)))"

definition size_of :: "input_file \<Rightarrow> u64" where
  "size_of f = the (lazy_state (inputSize f))"

text \<open>\<^verbatim>\<open>InputFileLess\<close> puts the larger file first. Sorting fewer than two files compares nothing;
  otherwise every size is asked for.\<close>

definition sort_inputs :: "files \<Rightarrow> input_file list \<Rightarrow> fs_error + input_file list" where
  "sort_inputs fs xs =
     (if length xs < 2 then Inr xs
      else case force_sizes fs xs of Inl e \<Rightarrow> Inl e | Inr ys \<Rightarrow> Inr (rev (sort_key size_of (rev ys))))"

section \<open>The progress bar\<close>

record ProgressBar =
  bar_hi :: u64
  bar_width :: int

definition newProgressBar :: "int \<Rightarrow> u64 \<Rightarrow> ProgressBar" where
  "newProgressBar width hi = \<lparr>bar_hi = hi, bar_width = width\<rparr>"

definition setHi :: "u64 \<Rightarrow> ProgressBar \<Rightarrow> ProgressBar" where
  "setHi hi b = b\<lparr>bar_hi := hi\<rparr>"

text \<open>\<^verbatim>\<open>update\<close>: what is printed; \<open>None\<close> is the division by zero. \<open>percent\<close> formats the
  percentage of the value.\<close>

definition bar_update :: "(u64 \<Rightarrow> u64 \<Rightarrow> string) \<Rightarrow> ProgressBar \<Rightarrow> u64 \<Rightarrow> string option" where
  "bar_update percent b value =
     (if bar_hi b = 0 then None
      else let w = sint (ucast (word_of_int (bar_width b) * value div bar_hi b) :: u32)
           in Some ([CHR 0x0D, CHR ''[''] @ replicate (nat w) (CHR ''='') @ replicate (nat (bar_width b - max w 0)) (CHR '' '') @
                    '']'' @ percent value (bar_hi b)))"

section \<open>Merging in chunks\<close>

datatype merger_exit =
    MergerExit bool "console list" files
  | MergerException fs_error
  | MergerCrash

record 'q merge_env =
  e_ops :: "(merger_input, 'q) queue_ops"
  e_writable :: "string \<Rightarrow> bool"
  e_cancelled :: "nat \<Rightarrow> nat \<Rightarrow> bool"
  e_stop :: "nat \<Rightarrow> bool \<Rightarrow> bool"
  e_tmp :: "nat \<Rightarrow> string"
  e_dst :: string
  e_max :: int
  e_what :: string
  e_time :: "nat option \<Rightarrow> string"

text \<open>The values \<^verbatim>\<open>execute\<close> gives to the progress callback, and the number of records it went through: one
  call every \<open>u\<close> records, one at the end.\<close>

partial_function (option) merge_calls ::
  "(merger_input, 'q) queue_ops \<Rightarrow> bool \<Rightarrow> (nat \<Rightarrow> bool) \<Rightarrow> nat \<Rightarrow> nat \<Rightarrow> 'q \<Rightarrow> nat list \<Rightarrow> (nat list \<times> nat) option" where
  "merge_calls ops remove quit u n q calls =
     (if quit n then Some (calls @ [n], n)
      else let q' = fst (snd (merge_next ops remove q))
           in if \<not> q_isEmpty ops q'
              then merge_calls ops remove quit u (Suc n) q' (if n mod u = 0 then calls @ [n] else calls)
              else Some (calls @ [n], n))"

definition update_after :: "'q merge \<Rightarrow> nat" where
  "update_after d = max (m_totalEntries d div 1000) 1"

lemma merge_calls_every:
  assumes "merge_calls ops remove quit u n q calls = Some (calls', n')"
  shows "n \<le> n' \<and> calls' = calls @ filter (\<lambda>i. i mod u = 0) [n..<n'] @ [n']"
proof -
  let ?P = "\<lambda>ops remove quit u n q calls res. n \<le> snd res \<and> fst res = calls @ filter (\<lambda>i. i mod u = 0) [n..<snd res] @ [snd res]"
  have "?P ops remove quit u n q calls (calls', n')"
  proof (rule merge_calls.raw_induct [where P = ?P, OF _ assms])
    fix f and ops :: "(merger_input, 'a) queue_ops" and remove quit u n q calls res
    assume IH: "\<And>ops remove quit u n q calls res. f ops remove quit u n q calls = Some res \<Longrightarrow> ?P ops remove quit u n q calls res"
      and eq: "(if quit n then Some (calls @ [n], n)
      else let q' = fst (snd (merge_next ops remove q))
           in if \<not> q_isEmpty ops q'
              then f ops remove quit u (Suc n) q' (if n mod u = 0 then calls @ [n] else calls)
              else Some (calls @ [n], n)) = Some res"
    show "?P ops remove quit u n q calls res"
    proof (cases "quit n \<or> q_isEmpty ops (fst (snd (merge_next ops remove q)))")
      case True
      then have "res = (calls @ [n], n)" using eq by (auto simp: Let_def split: if_splits)
      then show ?thesis by simp
    next
      case False
      then have "f ops remove quit u (Suc n) (fst (snd (merge_next ops remove q))) (if n mod u = 0 then calls @ [n] else calls) = Some res"
        using eq by (simp add: Let_def)
      from IH [OF this] show ?thesis by (auto simp: upt_conv_Cons Suc_le_eq)
    qed
  qed
  then show ?thesis by simp
qed

text \<open>What \<^verbatim>\<open>execute\<close> prints before and after the loop; \<open>n\<close> is the number of inputs.\<close>

definition merge_start :: "nat \<Rightarrow> 'q merge \<Rightarrow> console" where
  "merge_start n d = Out (''Merging into '' @ m_dst d @ '' ('' @ decimal n @ '' files, '' @ decimal (m_totalEntries d) @ '' entries) ...'' @ endl)"

definition merge_messages :: "'q merge_env \<Rightarrow> nat \<Rightarrow> nat \<Rightarrow> 'q merge \<Rightarrow> console list" where
  "merge_messages env k n d =
     (if e_cancelled env k 0 \<or> q_isEmpty (e_ops env) (m_pq d) then []
      else [merge_start n d, Out (''('' @ e_time env (Some k) @ '')'' @ endl)])"

text \<open>One operation: the file system after it and what it prints when it fails. The last call of the
  progress bar, after the output was closed, divides by zero if the inputs have less than one record.\<close>

definition run_merge :: "'q merge_env \<Rightarrow> nat \<Rightarrow> nat \<Rightarrow> ProgressBar \<Rightarrow> 'q merge \<Rightarrow> files \<Rightarrow> (files \<times> console list) option option" where
  "run_merge env k n bar d fs =
     (case merge_execute (e_ops env) (e_writable env) (e_cancelled env k) d fs of
        None \<Rightarrow> None
      | Some (Inl e) \<Rightarrow>
          Some (Some (fs, [merge_start n d, Err (''Cannot open '' @ [CHR 0x27] @ m_dst d @ [CHR 0x27] @ '' for writing: '' @ e_what env @ endl),
                           Err (''Exception in Operation::execute(): '' @ e_what env @ endl)]))
      | Some (Inr fs') \<Rightarrow>
          (if bar_hi bar = 0 \<and> \<not> e_cancelled env k 0 \<and> \<not> q_isEmpty (e_ops env) (m_pq d) then Some None
           else Some (Some (fs', merge_messages env k n d))))"

text \<open>A negative number of files gives the vector a range that ends before it begins.\<close>

definition merge_chunk ::
  "'q merge_env \<Rightarrow> ProgressBar \<Rightarrow> nat \<Rightarrow> input_file list \<Rightarrow> string list \<Rightarrow> files \<Rightarrow>
   (fs_error option + ProgressBar \<times> input_file list \<times> string list \<times> files \<times> console list) option" where
  "merge_chunk env bar k inputFiles intermediate fs =
     (if e_max env < 0 then Some (Inl None)
      else let b = min (length inputFiles) (nat (e_max env));
               chunk = take b inputFiles;
               isLastChunk = (length chunk = length inputFiles);
               target = (if isLastChunk then e_dst env else e_tmp env (length intermediate));
               intermediate = (if isLastChunk then intermediate else intermediate @ [target])
           in case force_sizes fs chunk of
                Inl e \<Rightarrow> Some (Inl (Some e))
              | Inr forced \<Rightarrow>
                  (let chunkInputSize = (\<Sum>f \<leftarrow> forced. size_of f);
                       bar = setHi (chunkInputSize div 20) bar
                   in case newMerge (e_ops env) fs (map if_path forced) target False of
                        Inl (NoInput e) \<Rightarrow> Some (Inl (Some e))
                      | Inl cannotWriteToFile \<Rightarrow> Some (Inl None)
                      | Inr d \<Rightarrow>
                          (case run_merge env k (length chunk) bar d fs of
                             None \<Rightarrow> None
                           | Some None \<Rightarrow> Some (Inl None)
                           | Some (Some (fs, msgs)) \<Rightarrow>
                               Some (Inr
                                 (if e_stop env k True then (bar, forced @ drop b inputFiles, intermediate, fs, msgs)
                                  else let left = drop b inputFiles @ (if isLastChunk then [] else [newInputFile target])
                                       in (bar, left, intermediate, fs, msgs @ [Out (decimal (length left) @ '' files left.'' @ endl)]))))))"

partial_function (option) merge_chunks ::
  "'q merge_env \<Rightarrow> ProgressBar \<Rightarrow> nat \<Rightarrow> input_file list \<Rightarrow> string list \<Rightarrow> files \<Rightarrow> console list \<Rightarrow>
   (fs_error option + string list \<times> files \<times> console list) option" where
  "merge_chunks env bar k inputFiles intermediate fs out =
     (if inputFiles = [] \<or> e_stop env k False then Some (Inr (intermediate, fs, out))
      else case merge_chunk env bar k inputFiles intermediate fs of
             None \<Rightarrow> None
           | Some (Inl e) \<Rightarrow> Some (Inl e)
           | Some (Inr (bar, inputFiles, intermediate, fs, msgs)) \<Rightarrow>
               merge_chunks env bar (Suc k) inputFiles intermediate fs (out @ msgs))"

section \<open>The tool\<close>

record merger_options =
  mo_help :: bool
  mo_warranty :: bool
  mo_src :: "string option"
  mo_input :: "string list option"
  mo_output :: string
  mo_tmp :: string
  mo_max :: int
  mo_ext :: string

definition DefaultOutputExt :: string where
  "DefaultOutputExt = ''.md5''"

definition DefaultMaxFilesAtOnce :: int where
  "DefaultMaxFilesAtOnce = 50"

definition merger_hello :: string where
  "merger_hello = ''#pwned merger 1.0.0 - Copyright (c) 2019 Oliver Lau'' @ endl @ endl"

text \<open>\<^verbatim>\<open>info()\<close>, which is never called, and the thread that reads keys.\<close>

definition merger_info :: string where
  "merger_info =
     ''This program comes with ABSOLUTELY NO WARRANTY; for details type'' @ endl @
     [CHR 0x60] @ ''pwned-merger --warranty'' @ [CHR 0x60] @ ''.'' @ endl @
     ''This is free software, and you are welcome to redistribute it'' @ endl @
     ''under certain conditions; see https://www.gnu.org/licenses/gpl-3.0.en.html'' @ endl @
     ''for details.'' @ endl @ endl"

definition merger_keys :: "(nat \<Rightarrow> bool) \<Rightarrow> string \<Rightarrow> queue_call list" where
  "merger_keys running keys = key_loop (CHR ''p'') running 0 keys"

definition merger_warranty :: string where
  "merger_warranty = warranty_text"

text \<open>The files found below the source directory: those with the extension that are not empty.\<close>

definition scan_directory :: "files \<Rightarrow> file_tree \<Rightarrow> string \<Rightarrow> string list" where
  "scan_directory fs tree ext =
     map fst (filter (\<lambda>(f, regular). ends_with f ext \<and> regular \<and> (case fs f of None \<Rightarrow> False | Some e \<Rightarrow> 0 < length (fst e))) tree)"

text \<open>\<open>stopped\<close> is \<^verbatim>\<open>isCancelled\<close> at the end, \<open>answer\<close> the character typed, \<open>mkdir\<close> whether the working directory is there or could be
  created, \<open>unique k\<close> boost's name for the \<open>k\<close>th intermediate file, \<open>time\<close> the text of the time
  spent on an operation or in total.\<close>

definition merger_main ::
  "(merger_input, 'q) queue_ops \<Rightarrow> files \<Rightarrow> file_tree \<Rightarrow> (string \<Rightarrow> bool) \<Rightarrow> (nat \<Rightarrow> nat \<Rightarrow> bool) \<Rightarrow> (nat \<Rightarrow> bool \<Rightarrow> bool) \<Rightarrow>
   bool \<Rightarrow> char \<Rightarrow> bool \<Rightarrow> (nat \<Rightarrow> string) \<Rightarrow> (nat option \<Rightarrow> string) \<Rightarrow> string \<Rightarrow> string \<Rightarrow> merger_options parsed \<Rightarrow> merger_exit option" where
  "merger_main ops fs tree writable quit stop stopped answer mkdir unique time what usage parsed =
     (case parsed of
        Inl e \<Rightarrow> Some (MergerExit False (option_error e usage) fs)
      | Inr opts \<Rightarrow>
          (let c = [Out merger_hello]
           in if mo_warranty opts then Some (MergerExit True (c @ [Out merger_warranty]) fs)
              else if mo_help opts then Some (MergerExit True (c @ [Out (usage @ endl)]) fs)
              else if mo_src opts = None \<and> mo_input opts = None then Some (MergerExit False (c @ [Out (usage @ endl)]) fs)
              else let src = (case mo_src opts of None \<Rightarrow> [] | Some s \<Rightarrow> s);
                       given = (case mo_input opts of None \<Rightarrow> [] | Some is \<Rightarrow> is);
                       filenames = given @ (if src \<noteq> [] then scan_directory fs tree DefaultOutputExt else []);
                       c = c @ (if src \<noteq> [] then [Out (''Scanning '' @ src @ '' for files ... ''),
                                                 Out (''found '' @ decimal (length filenames) @ '' files.'' @ endl)] else [])
                   in if mo_output opts = [] then Some (MergerExit False (c @ [Out (usage @ endl)]) fs)
                      else let c = c @ (if fs (mo_output opts) \<noteq> None
                                        then [Out (''Destination file '' @ [CHR 0x27] @ mo_output opts @ [CHR 0x27] @ '' already exists.'' @ endl @
                                                   ''Do you want to overwrite it? (y/n)'' @ endl)] else [])
                           in if fs (mo_output opts) \<noteq> None \<and> answer \<noteq> CHR ''y''
                              then Some (MergerExit True (c @ [Out (''You chose not to overwrite the destination file. You may now start over.'' @ endl)]) fs)
                              else if \<not> mkdir
                              then Some (MergerExit False (c @ [Err (''Cannot create working directory '' @ [CHR 0x27] @ mo_tmp opts @ [CHR 0x27] @ ''.'' @ endl)]) fs)
                              else let c = c @ [Out (''Destination file: '' @ mo_output opts @ endl @ endl)];
                                       env = \<lparr>e_ops = ops, e_writable = writable, e_cancelled = quit, e_stop = stop,
                                              e_tmp = (\<lambda>i. unique i @ mo_ext opts), e_dst = mo_output opts, e_max = mo_max opts, e_what = what, e_time = time\<rparr>
                                   in case sort_inputs fs (map newInputFile filenames) of
                                        Inl e \<Rightarrow> Some (MergerException e)
                                      | Inr inputFiles \<Rightarrow>
                                          (case merge_chunks env (newProgressBar 32 0) 0 inputFiles [] fs c of
                                             None \<Rightarrow> None
                                           | Some (Inl None) \<Rightarrow> Some MergerCrash
                                           | Some (Inl (Some e)) \<Rightarrow> Some (MergerException e)
                                           | Some (Inr (intermediate, fs, c)) \<Rightarrow>
                                               Some (MergerExit True (c @ (if stopped then [] else [Out (''Total time: '' @ time None @ endl)]))
                                                       (fold (\<lambda>f m. m(f := None)) intermediate fs)))))"

section \<open>Merging everything\<close>

definition input_ready :: "(string \<Rightarrow> entry list) \<Rightarrow> files \<Rightarrow> input_file \<Rightarrow> bool" where
  "input_ready E fs f \<longleftrightarrow>
     fs (if_path f) = Some (file_of (E (if_path f)), True) \<and> sorted_unique (E (if_path f)) \<and>
     createValue (inputSize f) = file_size (if_path f) \<and>
     lazy_state (inputSize f) \<in> {None, Some (word_of_nat (20 * length (E (if_path f))))}"

definition hashes_of :: "(string \<Rightarrow> entry list) \<Rightarrow> string list \<Rightarrow> quad set" where
  "hashes_of E paths = (\<Union>p \<in> set paths. fst ` set (E p))"

definition entry_total :: "(string \<Rightarrow> entry list) \<Rightarrow> string list \<Rightarrow> nat" where
  "entry_total E paths = (\<Sum>p \<leftarrow> paths. length (E p))"

lemma hashes_append: "hashes_of E (ps @ qs) = hashes_of E ps \<union> hashes_of E qs"
  by (simp add: hashes_of_def)

lemma hashes_single: "hashes_of E [p] = fst ` set (E p)"
  by (simp add: hashes_of_def)

lemma force_sizes_ready:
  assumes "list_all (input_ready E fs) xs"
  shows "\<exists>ys. force_sizes fs xs = Inr ys \<and> list_all (input_ready E fs) ys \<and> map if_path ys = map if_path xs \<and>
    map size_of ys = map (\<lambda>f. word_of_nat (20 * length (E (if_path f)))) xs"
  using assms
proof (induction xs)
  case (Cons f xs)
  then obtain ys where ys: "force_sizes fs xs = Inr ys" "list_all (input_ready E fs) ys" "map if_path ys = map if_path xs"
    "map size_of ys = map (\<lambda>f. word_of_nat (20 * length (E (if_path f)))) xs" by auto
  let ?v = "word_of_nat (20 * length (E (if_path f))) :: u64"
  let ?l = "(inputSize f)\<lparr>lazy_state := Some ?v\<rparr>"
  have f: "input_ready E fs f" using Cons.prems by simp
  then have "createValue (inputSize f) fs = Inr ?v" by (simp add: input_ready_def file_size_def)
  then have "lazy_value fs (inputSize f) = Inr (?v, ?l)"
    using f by (cases "inputSize f") (auto simp: lazy_value_def lazy_init_def input_ready_def)
  moreover have "input_ready E fs (f\<lparr>inputSize := ?l\<rparr>)" using f by (simp add: input_ready_def)
  moreover have "size_of (f\<lparr>inputSize := ?l\<rparr>) = ?v" by (simp add: size_of_def)
  ultimately show ?case using ys by simp
qed simp

lemma length_out:
  assumes "sorted_unique es" and "fst ` set es = hashes_of E paths"
  shows "length es \<le> entry_total E paths"
proof -
  have "distinct (map fst es)" using assms(1) by (simp add: sorted_unique_def strict_sorted_iff)
  then have "length es = card (fst ` set es)" by (metis distinct_card length_map set_map)
  also have "\<dots> = card (\<Union>p \<in> set paths. fst ` set (E p))" by (simp add: assms(2) hashes_of_def)
  also have "\<dots> \<le> entry_total E paths"
  proof (induction paths)
    case (Cons p ps)
    have "card (\<Union>q \<in> set (p # ps). fst ` set (E q)) \<le> card (fst ` set (E p)) + card (\<Union>q \<in> set ps. fst ` set (E q))"
      by (simp add: card_Un_le)
    also have "card (fst ` set (E p)) \<le> length (E p)" by (metis card_image_le card_length List.finite_set order_trans)
    finally show ?case using Cons by (simp add: entry_total_def)
  qed (simp add: entry_total_def)
  finally show ?thesis .
qed

lemma sum_sizes:
  "(\<Sum>f \<leftarrow> xs. word_of_nat (20 * length (E (if_path f))) :: u64) = word_of_nat (20 * entry_total E (map if_path xs))"
  by (induction xs) (simp_all add: entry_total_def distrib_left)

lemma hi_not_zero:
  assumes "0 < n" and "20 * n < 2 ^ 64"
  shows "(word_of_nat (20 * n) :: u64) div 20 \<noteq> 0"
proof -
  have "unat (word_of_nat (20 * n) :: u64) = 20 * n" using assms(2) by (simp only: unsigned_of_nat) (simp add: take_bit_nat_eq_self)
  then have "unat ((word_of_nat (20 * n) :: u64) div 20) = n" by (simp add: unat_div)
  then show ?thesis using assms(1) by auto
qed

text \<open>One operation on files that are ready.\<close>

lemma chunk_merges:
  assumes "e_ops env = list_queue input_key" and "list_all (input_ready E fs) chunk" and "chunk \<noteq> []"
    and "20 * entry_total E (map if_path chunk) < 2 ^ 64" and "e_writable env target" and "\<forall>n. \<not> e_cancelled env k n"
  shows "\<exists>forced d es. force_sizes fs chunk = Inr forced \<and> newMerge (e_ops env) fs (map if_path forced) target False = Inr d \<and>
    run_merge env k n (setHi ((\<Sum>f \<leftarrow> forced. size_of f) div 20) bar) d fs = Some (Some (fs(target \<mapsto> (file_of es, True)), merge_messages env k n d)) \<and>
    sorted_unique es \<and> fst ` set es = hashes_of E (map if_path chunk) \<and> counts_kept E (map if_path chunk) es"
proof -
  let ?ps = "map if_path chunk"
  obtain forced where f: "force_sizes fs chunk = Inr forced" "map if_path forced = ?ps"
    "map size_of forced = map (\<lambda>f. word_of_nat (20 * length (E (if_path f)))) chunk"
    using force_sizes_ready [OF assms(2)] by blast
  have files: "\<forall>p \<in> set ?ps. fs p = Some (file_of (E p), True) \<and> sorted_unique (E p)"
    using assms(2) by (auto simp: list_all_iff input_ready_def)
  have ex: "\<forall>p \<in> set ?ps. fs p \<noteq> None" using files by auto
  obtain d where d: "newMerge (list_queue input_key) fs ?ps target False = Inr d" "m_dst d = target"
    using list_merger.push_inputs_queue [of ?ps fs, OF ex] by (force simp: newMerge_def)
  obtain es where es: "merge_execute (list_queue input_key) (e_writable env) (e_cancelled env k) d fs =
      Some (Inr (fs(target \<mapsto> (file_of es, True))))" "sorted_unique es" "fst ` set es = hashes_of E ?ps" "counts_kept E ?ps es"
    using merge_keeps [OF files _ d(1), of "e_writable env" "e_cancelled env k"] assms(3,5,6) unfolding hashes_of_def by auto
  obtain g gs where g: "chunk = g # gs" using assms(3) by (cases chunk) auto
  then have "E (if_path g) \<noteq> []" using files by (simp add: sorted_unique_def)
  then have "0 < entry_total E ?ps" by (simp add: g entry_total_def)
  then have "(\<Sum>f \<leftarrow> forced. size_of f) div 20 \<noteq> 0"
    unfolding f(3) sum_sizes using assms(4) by (rule hi_not_zero)
  then have "run_merge env k n (setHi ((\<Sum>f \<leftarrow> forced. size_of f) div 20) bar) d fs = Some (Some (fs(target \<mapsto> (file_of es, True)), merge_messages env k n d))"
    by (simp add: run_merge_def assms(1) es(1) setHi_def)
  then show ?thesis using f(1,2) d(1) es(2-4) assms(1) by auto
qed

text \<open>What holds between two operations: the files are ready, the names of the intermediate files still
  to come are new, and the destination is none of the inputs.\<close>

definition chunks_ok :: "'q merge_env \<Rightarrow> (string \<Rightarrow> entry list) \<Rightarrow> files \<Rightarrow> nat \<Rightarrow> input_file list \<Rightarrow> bool" where
  "chunks_ok env E fs n xs \<longleftrightarrow>
     list_all (input_ready E fs) xs \<and> 20 * entry_total E (map if_path xs) < 2 ^ 64 \<and> inj (e_tmp env) \<and>
     (\<forall>i. e_tmp env i \<noteq> e_dst env \<and> (n \<le> i \<longrightarrow> e_tmp env i \<notin> if_path ` set xs)) \<and> e_dst env \<notin> if_path ` set xs"

lemma chunks_ok_next:
  assumes "chunks_ok env E fs n xs" and "sorted_unique es" and "fst ` set es = hashes_of E (map if_path (take b xs))"
  defines "target \<equiv> e_tmp env n"
  defines "ys \<equiv> drop b xs @ [newInputFile target]"
  defines "E' \<equiv> E(target := es)"
  shows "chunks_ok env E' (fs(target \<mapsto> (file_of es, True))) (Suc n) ys"
    and "hashes_of E' (map if_path ys) = hashes_of E (map if_path xs)"
proof -
  let ?fs = "fs(target \<mapsto> (file_of es, True))"
  have "target \<notin> if_path ` set xs" using assms(1) by (simp add: chunks_ok_def target_def)
  then have new: "if_path f \<noteq> target" if "f \<in> set xs" for f using that by auto
  have keep: "E' (if_path f) = E (if_path f)" "?fs (if_path f) = fs (if_path f)" if "f \<in> set xs" for f
    using new [OF that] by (auto simp: E'_def)
  have sub: "set (drop b xs) \<subseteq> set xs" by (rule set_drop_subset)
  have ready: "list_all (input_ready E' ?fs) (drop b xs)"
    unfolding list_all_iff
  proof
    fix f
    assume "f \<in> set (drop b xs)"
    then have f: "f \<in> set xs" using sub by blast
    then have "input_ready E fs f" using assms(1) by (simp add: chunks_ok_def list_all_iff)
    then show "input_ready E' ?fs f" by (simp only: input_ready_def keep [OF f])
  qed
  have last: "input_ready E' ?fs (newInputFile target)"
    using assms(2) by (simp add: input_ready_def newInputFile_def newLazy_def E'_def)
  have path: "if_path (newInputFile target) = target" by (simp add: newInputFile_def)
  have split: "map if_path xs = map if_path (take b xs) @ map if_path (drop b xs)" by (simp flip: map_append)
  have tot: "entry_total E' (map if_path ys) = entry_total E (map if_path (drop b xs)) + length es"
  proof -
    have "map (\<lambda>f. length (E' (if_path f))) (drop b xs) = map (\<lambda>f. length (E (if_path f))) (drop b xs)"
      using keep(1) sub by (intro map_cong refl) (metis subsetD)
    moreover have "entry_total E' (map if_path ys) = (\<Sum>f \<leftarrow> drop b xs. length (E' (if_path f))) + length (E' target)"
      by (simp add: entry_total_def ys_def path o_def)
    moreover have "E' target = es" by (simp add: E'_def)
    ultimately show ?thesis by (simp only: entry_total_def map_map o_def)
  qed
  also have "\<dots> \<le> entry_total E (map if_path xs)"
    using length_out [OF assms(2,3)] unfolding split by (simp add: entry_total_def)
  finally have le: "entry_total E' (map if_path ys) \<le> entry_total E (map if_path xs)" .
  have "20 * entry_total E (map if_path xs) < 2 ^ 64" using assms(1) by (simp add: chunks_ok_def)
  with mult_le_mono2 [OF le] have small: "20 * entry_total E' (map if_path ys) < 2 ^ 64" by (rule le_less_trans)
  have im: "if_path ` set ys \<subseteq> insert target (if_path ` set xs)" using sub by (auto simp: ys_def path)
  have old: "inj (e_tmp env)" "\<And>i. e_tmp env i \<noteq> e_dst env" "\<And>i. n \<le> i \<Longrightarrow> e_tmp env i \<notin> if_path ` set xs"
    "e_dst env \<notin> if_path ` set xs" using assms(1) by (simp_all add: chunks_ok_def)
  have "e_tmp env i \<notin> if_path ` set ys" if "Suc n \<le> i" for i
  proof -
    have "e_tmp env i \<noteq> target" using that injD [OF old(1), of i n] by (auto simp: target_def)
    then show ?thesis using subsetD [OF im, of "e_tmp env i"] old(3) [of i] that by auto
  qed
  moreover have "e_dst env \<notin> if_path ` set ys" 
  proof
    assume "e_dst env \<in> if_path ` set ys"
    from subsetD [OF im this] show False using old(2) [of n] old(4) by (simp add: target_def)
  qed
  ultimately show "chunks_ok env E' ?fs (Suc n) ys"
    using ready last small old(1,2) by (simp add: chunks_ok_def ys_def)
  have "hashes_of E' (map if_path (drop b xs)) = hashes_of E (map if_path (drop b xs))"
    using keep(1) sub unfolding hashes_of_def by (intro arg_cong [where f = Union] image_cong) auto
  then have "hashes_of E' (map if_path ys) = hashes_of E (map if_path (drop b xs)) \<union> fst ` set es"
    unfolding ys_def map_append hashes_append list.map hashes_single path by (simp add: E'_def)
  then show "hashes_of E' (map if_path ys) = hashes_of E (map if_path xs)"
    unfolding assms(3) split hashes_append by (simp only: Un_commute)
qed

definition undisturbed :: "'q merge_env \<Rightarrow> bool" where
  "undisturbed env \<longleftrightarrow> (\<forall>f. e_writable env f) \<and> (\<forall>k n. \<not> e_cancelled env k n) \<and> (\<forall>k b. \<not> e_stop env k b)"

text \<open>One round of the loop: the last one writes the destination, the others an intermediate file.\<close>

lemma merge_chunk_ok:
  assumes "e_ops env = list_queue input_key" and "undisturbed env" and "1 \<le> e_max env"
    and "chunks_ok env E fs (length done_files) xs" and "xs \<noteq> []"
  defines "b \<equiv> min (length xs) (nat (e_max env))" and "t \<equiv> e_tmp env (length done_files)"
  shows "\<exists>bar' es msgs. sorted_unique es \<and> fst ` set es = hashes_of E (map if_path (take b xs)) \<and>
    counts_kept E (map if_path (take b xs)) es \<and> merge_chunk env bar k xs done_files fs = Some (Inr
      (if b = length xs then (bar', [], done_files, fs(e_dst env \<mapsto> (file_of es, True)), msgs)
       else (bar', drop b xs @ [newInputFile t], done_files @ [t], fs(t \<mapsto> (file_of es, True)), msgs)))"
proof -
  let ?target = "if b = length xs then e_dst env else t"
  have und: "\<And>f. e_writable env f" "\<And>k n. \<not> e_cancelled env k n" "\<And>k b. \<not> e_stop env k b"
    using assms(2) by (simp_all add: undisturbed_def)
  have ne: "take b xs \<noteq> []" using assms(3,5) by (cases xs) (auto simp: b_def)
  have ready: "list_all (input_ready E fs) (take b xs)"
    using assms(4) by (auto simp: chunks_ok_def list_all_iff dest: in_set_takeD)
  have "map if_path xs = map if_path (take b xs) @ map if_path (drop b xs)" by (simp flip: map_append)
  then have tot: "20 * entry_total E (map if_path (take b xs)) < 2 ^ 64"
    using assms(4) by (simp only: chunks_ok_def) (simp add: entry_total_def)
  obtain forced d es where step: "force_sizes fs (take b xs) = Inr forced"
    "newMerge (e_ops env) fs (map if_path forced) ?target False = Inr d"
    "run_merge env k (length (take b xs)) (setHi ((\<Sum>f \<leftarrow> forced. size_of f) div 20) bar) d fs = Some (Some (fs(?target \<mapsto> (file_of es, True)), merge_messages env k (length (take b xs)) d))"
    "sorted_unique es" "fst ` set es = hashes_of E (map if_path (take b xs))" "counts_kept E (map if_path (take b xs)) es"
    using chunk_merges [OF assms(1) ready ne tot und(1) allI [OF und(2)]] by blast
  have last: "length (take b xs) = length xs \<longleftrightarrow> b = length xs" by (simp add: b_def)
  show ?thesis
  proof (cases "b = length xs")
    case True
    then have "\<exists>bar' msgs. merge_chunk env bar k xs done_files fs =
        Some (Inr (bar', [], done_files, fs(e_dst env \<mapsto> (file_of es, True)), msgs))"
      using assms(3) und(3) step(1-3) by (simp add: merge_chunk_def Let_def b_def [symmetric] last del: length_take)
    with step(4-6) show ?thesis unfolding if_P [OF True] by blast
  next
    case False
    then have "\<exists>bar' msgs. merge_chunk env bar k xs done_files fs =
        Some (Inr (bar', drop b xs @ [newInputFile t], done_files @ [t], fs(t \<mapsto> (file_of es, True)), msgs))"
      using assms(3) und(3) step(1-3) by (simp add: merge_chunk_def Let_def b_def [symmetric] t_def [symmetric] last del: length_take)
    with step(4-6) show ?thesis unfolding if_not_P [OF False] by blast
  qed
qed

lemma merge_chunks_all:
  assumes "e_ops env = list_queue input_key" and "undisturbed env" and "2 \<le> e_max env"
    and "chunks_ok env E fs (length done_files) xs" and "xs \<noteq> []" and "e_dst env \<notin> set done_files"
  shows "\<exists>done_files' fs' c es. merge_chunks env bar k xs done_files fs out = Some (Inr (done_files', fs', c)) \<and>
    fs' (e_dst env) = Some (file_of es, True) \<and> e_dst env \<notin> set done_files' \<and>
    sorted_unique es \<and> fst ` set es = hashes_of E (map if_path xs)"
  using assms(4-)
proof (induction "length xs" arbitrary: xs E fs done_files bar k out rule: less_induct)
  case less
  let ?b = "min (length xs) (nat (e_max env))"
  have stop: "\<not> e_stop env k False" using assms(2) by (simp add: undisturbed_def)
  have max: "1 \<le> e_max env" using assms(3) by simp
  note step = merge_chunk_ok [OF assms(1,2) max less.prems(1,2), of bar k]
  show ?case
  proof (cases "?b = length xs")
    case True
    then obtain bar' es msgs where "merge_chunk env bar k xs done_files fs =
        Some (Inr (bar', [], done_files, fs(e_dst env \<mapsto> (file_of es, True)), msgs))"
      "sorted_unique es" "fst ` set es = hashes_of E (map if_path xs)" using step unfolding if_P [OF True] by (auto simp: True)
    then show ?thesis using less.prems(2,3) stop
      by (subst merge_chunks.simps) (auto simp: merge_chunks.simps)
  next
    case False
    let ?t = "e_tmp env (length done_files)"
    let ?ys = "drop ?b xs @ [newInputFile ?t]" and ?done = "done_files @ [?t]"
    obtain bar' es msgs where round: "merge_chunk env bar k xs done_files fs =
        Some (Inr (bar', ?ys, ?done, fs(?t \<mapsto> (file_of es, True)), msgs))"
      "sorted_unique es" "fst ` set es = hashes_of E (map if_path (take ?b xs))"
      using step unfolding if_not_P [OF False] by blast
    let ?fs = "fs(?t \<mapsto> (file_of es, True))"
    note ok = chunks_ok_next [OF less.prems(1) round(2,3)]
    have "length ?ys < length xs" using assms(3) False by auto
    moreover have "chunks_ok env (E(?t := es)) ?fs (length ?done) ?ys" using ok(1) by simp
    moreover have "e_dst env \<notin> set ?done" using less.prems(1,3) by (auto simp: chunks_ok_def)
    moreover have "?ys \<noteq> []" by simp
    ultimately have "\<exists>done_files' fs' c es'. merge_chunks env bar' (Suc k) ?ys ?done ?fs (out @ msgs) = Some (Inr (done_files', fs', c)) \<and>
        fs' (e_dst env) = Some (file_of es', True) \<and> e_dst env \<notin> set done_files' \<and>
        sorted_unique es' \<and> fst ` set es' = hashes_of (E(?t := es)) (map if_path ?ys)"
      by (intro less.hyps) assumption+
    moreover have "merge_chunks env bar k xs done_files fs out = merge_chunks env bar' (Suc k) ?ys ?done ?fs (out @ msgs)"
      using less.prems(2) stop by (subst merge_chunks.simps) (simp add: round(1))
    ultimately show ?thesis unfolding ok(2) by (simp only:)
  qed
qed

section \<open>Merging that never ends\<close>

text \<open>Without files to a chunk, or with only one, the number of files does not decrease.\<close>

definition stuck :: "'q merge_env \<Rightarrow> nat \<Rightarrow> input_file list \<Rightarrow> files \<Rightarrow> bool" where
  "stuck env n xs fs \<longleftrightarrow> (e_max env = 0 \<and> xs \<noteq> []) \<or> (e_max env = 1 \<and> 2 \<le> length xs \<and> (\<exists>E. chunks_ok env E fs n xs))"

lemma stuck_step:
  assumes "e_ops env = list_queue input_key" and "undisturbed env" and "stuck env (length done_files) xs fs"
  shows "\<exists>bar' ys done_files' fs' msgs. merge_chunk env bar k xs done_files fs = Some (Inr (bar', ys, done_files', fs', msgs)) \<and>
    stuck env (length done_files') ys fs'"
  using assms(3) unfolding stuck_def [of env "length done_files" xs fs]
proof (elim disjE conjE exE)
  assume z: "e_max env = 0" "xs \<noteq> []"
  have "\<not> e_stop env k True" using assms(2) by (simp add: undisturbed_def)
  moreover have "run_merge env k n (setHi 0 bar) \<lparr>m_pq = [], m_totalEntries = 0, m_dst = t, m_remove = False\<rparr> fs = Some (Some (fs, []))" for t n
    by (simp add: run_merge_def merge_execute_def merge_messages_def assms(1) list_queue_def)
  ultimately show ?thesis using z by (simp add: merge_chunk_def newMerge_def assms(1) list_queue_def stuck_def Let_def)
next
  fix E
  assume o: "e_max env = 1" "2 \<le> length xs" "chunks_ok env E fs (length done_files) xs"
  then have ne: "xs \<noteq> []" and max: "1 \<le> e_max env" and b: "min (length xs) (nat (e_max env)) = 1" and last: "1 \<noteq> length xs" by auto
  let ?t = "e_tmp env (length done_files)"
  obtain bar' es msgs where round: "merge_chunk env bar k xs done_files fs =
      Some (Inr (bar', drop 1 xs @ [newInputFile ?t], done_files @ [?t], fs(?t \<mapsto> (file_of es, True)), msgs))"
    "sorted_unique es" "fst ` set es = hashes_of E (map if_path (take 1 xs))"
    using merge_chunk_ok [OF assms(1,2) max o(3) ne, of bar k] unfolding b if_not_P [OF last] by blast
  have "stuck env (length (done_files @ [?t])) (drop 1 xs @ [newInputFile ?t]) (fs(?t \<mapsto> (file_of es, True)))"
    using chunks_ok_next(1) [OF o(3) round(2,3)] o(1,2) by (auto simp: stuck_def)
  with round(1) show ?thesis by blast
qed

lemma stuck_forever:
  assumes "e_ops env = list_queue input_key" and "undisturbed env" and "stuck env (length done_files) xs fs"
  shows "merge_chunks env bar k xs done_files fs out = None"
proof (rule ccontr)
  let ?P = "\<lambda>env bar k xs done_files fs out res.
    e_ops env = list_queue input_key \<longrightarrow> undisturbed env \<longrightarrow> \<not> stuck env (length done_files) xs fs"
  assume "merge_chunks env bar k xs done_files fs out \<noteq> None"
  then obtain res where "merge_chunks env bar k xs done_files fs out = Some res" by blast
  then have "?P env bar k xs done_files fs out res"
  proof (rule merge_chunks.raw_induct [where P = ?P, rotated], intro impI notI)
    fix f and env :: "merger_input list merge_env" and bar k xs done_files fs out res
    assume IH: "\<And>env bar k xs done_files fs out res. f env bar k xs done_files fs out = Some res \<Longrightarrow> ?P env bar k xs done_files fs out res"
      and eq: "(if xs = [] \<or> e_stop env k False then Some (Inr (done_files, fs, out))
      else case merge_chunk env bar k xs done_files fs of
             None \<Rightarrow> None
           | Some (Inl e) \<Rightarrow> Some (Inl e)
           | Some (Inr (bar, inputFiles, intermediate, fs, msgs)) \<Rightarrow>
               f env bar (Suc k) inputFiles intermediate fs (out @ msgs)) = Some res"
      and env: "e_ops env = list_queue input_key" "undisturbed env" and s: "stuck env (length done_files) xs fs"
    obtain bar' ys done_files' fs' msgs where round: "merge_chunk env bar k xs done_files fs = Some (Inr (bar', ys, done_files', fs', msgs))"
      "stuck env (length done_files') ys fs'"
      using stuck_step [OF env s] by blast
    have "xs \<noteq> []" using s by (auto simp: stuck_def)
    then have "f env bar' (Suc k) ys done_files' fs' (out @ msgs) = Some res"
      using eq env(2) by (simp add: round(1) undisturbed_def)
    from IH [OF this] env round(2) show False by blast
  qed
  then show False using assms by blast
qed

section \<open>Properties\<close>

text \<open>A run of the tool on files given with \<^verbatim>\<open>--input\<close>: they are sorted files of records, the
  destination does not exist yet, and the names of the intermediate files are new.\<close>

definition merger_given :: "(string \<Rightarrow> entry list) \<Rightarrow> files \<Rightarrow> (nat \<Rightarrow> string) \<Rightarrow> string list \<Rightarrow> merger_options \<Rightarrow> bool" where
  "merger_given E fs unique paths opts \<longleftrightarrow>
     \<not> mo_help opts \<and> \<not> mo_warranty opts \<and> mo_src opts = None \<and> mo_input opts = Some paths \<and>
     mo_output opts \<noteq> [] \<and> fs (mo_output opts) = None \<and>
     list_all (\<lambda>p. fs p = Some (file_of (E p), True) \<and> sorted_unique (E p)) paths \<and> 20 * entry_total E paths < 2 ^ 64 \<and>
     inj unique \<and> (\<forall>i. unique i @ mo_ext opts \<noteq> mo_output opts \<and> unique i @ mo_ext opts \<notin> set paths)"

definition merger_run ::
  "files \<Rightarrow> (nat \<Rightarrow> string) \<Rightarrow> (nat option \<Rightarrow> string) \<Rightarrow> merger_options \<Rightarrow> merger_exit option" where
  "merger_run fs unique time opts =
     merger_main (list_queue input_key) fs [] (\<lambda>_. True) (\<lambda>_ _. False) (\<lambda>_ _. False) False CHR ''n'' True unique time [] [] (Inr opts)"

definition given_env :: "(nat \<Rightarrow> string) \<Rightarrow> (nat option \<Rightarrow> string) \<Rightarrow> merger_options \<Rightarrow> merger_input list merge_env" where
  "given_env unique time opts =
     \<lparr>e_ops = list_queue input_key, e_writable = (\<lambda>_. True), e_cancelled = (\<lambda>_ _. False), e_stop = (\<lambda>_ _. False),
      e_tmp = (\<lambda>i. unique i @ mo_ext opts), e_dst = mo_output opts, e_max = mo_max opts, e_what = [], e_time = time\<rparr>"

lemma entry_total_mset: "mset ps = mset qs \<Longrightarrow> entry_total E ps = entry_total E qs"
  unfolding entry_total_def by (metis mset_map sum_mset_sum_list)

lemma sorted_inputs:
  assumes "merger_given E fs unique paths opts"
  shows "\<exists>xs. sort_inputs fs (map newInputFile paths) = Inr xs \<and> chunks_ok (given_env unique time opts) E fs 0 xs \<and>
    length xs = length paths \<and> hashes_of E (map if_path xs) = hashes_of E paths \<and> mset (map if_path xs) = mset paths"
proof -
  let ?is = "map newInputFile paths"
  have ready: "list_all (input_ready E fs) ?is"
    using assms by (auto simp: merger_given_def input_ready_def newInputFile_def newLazy_def list_all_iff)
  have paths: "map if_path ?is = paths" by (induction paths) (simp_all add: newInputFile_def)
  obtain xs where xs: "sort_inputs fs ?is = Inr xs" "list_all (input_ready E fs) xs" "mset (map if_path xs) = mset paths"
  proof (cases "length ?is < 2")
    case True
    moreover have "mset (map if_path ?is) = mset paths" by (simp only: paths)
    ultimately show ?thesis using that [OF _ ready] by (simp add: sort_inputs_def)
  next
    case False
    obtain ys where ys: "force_sizes fs ?is = Inr ys" "list_all (input_ready E fs) ys" "map if_path ys = paths"
      using force_sizes_ready [OF ready] paths by auto
    let ?xs = "rev (sort_key size_of (rev ys))"
    have "mset ?xs = mset ys" by simp
    then have "mset (map if_path ?xs) = mset paths" using ys(3) by (metis mset_map)
    moreover have "list_all (input_ready E fs) ?xs" using ys(2) by (simp add: list_all_iff)
    ultimately show ?thesis using that [of ?xs] ys(1) False by (simp add: sort_inputs_def)
  qed
  have set_eq: "if_path ` set xs = set paths" using xs(3) by (metis set_map set_mset_mset)
  have len: "length xs = length paths" using xs(3) by (metis length_map mset_eq_length)
  have "hashes_of E (map if_path xs) = hashes_of E paths" using set_eq by (simp add: hashes_of_def flip: set_eq)
  moreover have "mo_output opts \<notin> set paths" using assms by (auto simp: merger_given_def list_all_iff)
  moreover have "inj (\<lambda>i. unique i @ mo_ext opts)" using assms by (auto simp: merger_given_def inj_def)
  ultimately show ?thesis using xs len set_eq entry_total_mset [OF xs(3), of E] assms
    by (simp add: chunks_ok_def given_env_def merger_given_def)
qed

lemma merger_run_chunks:
  assumes "merger_given E fs unique paths opts" and "sort_inputs fs (map newInputFile paths) = Inr xs"
  shows "\<exists>c. merger_run fs unique time opts =
    (case merge_chunks (given_env unique time opts) (newProgressBar 32 0) 0 xs [] fs c of
       None \<Rightarrow> None
     | Some (Inl None) \<Rightarrow> Some MergerCrash
     | Some (Inl (Some e)) \<Rightarrow> Some (MergerException e)
     | Some (Inr (intermediate, fs, c)) \<Rightarrow>
         Some (MergerExit True (c @ [Out (''Total time: '' @ time None @ endl)]) (fold (\<lambda>f m. m(f := None)) intermediate fs)))"
  using assms by (auto simp: merger_run_def merger_main_def merger_given_def given_env_def Let_def)

lemma undisturbed_given: "undisturbed (given_env unique time opts)" "e_ops (given_env unique time opts) = list_queue input_key"
  "e_max (given_env unique time opts) = mo_max opts" "e_dst (given_env unique time opts) = mo_output opts"
  by (simp_all add: undisturbed_def given_env_def)

lemma removed_keeps: "d \<notin> set fsx \<Longrightarrow> fold (\<lambda>f m. m(f := None)) fsx m d = m d"
  by (induction fsx arbitrary: m) simp_all

text \<open>With at least as many files at once as there are, one operation merges them all.\<close>

lemma merge_chunks_once:
  assumes "e_ops env = list_queue input_key" and "undisturbed env" and "1 \<le> e_max env" and "int (length xs) \<le> e_max env"
    and "chunks_ok env E fs 0 xs" and "xs \<noteq> []"
  shows "\<exists>fs' c es. merge_chunks env bar k xs [] fs out = Some (Inr ([], fs', c)) \<and> fs' = fs(e_dst env \<mapsto> (file_of es, True)) \<and>
    sorted_unique es \<and> fst ` set es = hashes_of E (map if_path xs) \<and> counts_kept E (map if_path xs) es"
proof -
  have b: "min (length xs) (nat (e_max env)) = length xs" using assms(4) by simp
  have stop: "\<not> e_stop env k False" for k using assms(2) by (simp add: undisturbed_def)
  obtain bar' es msgs where round: "merge_chunk env bar k xs [] fs = Some (Inr (bar', [], [], fs(e_dst env \<mapsto> (file_of es, True)), msgs))"
    "sorted_unique es" "fst ` set es = hashes_of E (map if_path xs)" "counts_kept E (map if_path xs) es"
    using merge_chunk_ok [of env E fs "[]" xs bar k] assms(1-3,5,6) unfolding b by auto
  then have "merge_chunks env bar k xs [] fs out = Some (Inr ([], fs(e_dst env \<mapsto> (file_of es, True)), out @ msgs))"
    using assms(6) stop by (subst merge_chunks.simps) (simp add: merge_chunks.simps)
  with round(2-4) show ?thesis by blast
qed

lemma merger_once:
  assumes "merger_given E fs unique paths opts" and "paths \<noteq> []" and "int (length paths) \<le> mo_max opts"
  shows "\<exists>c es. merger_run fs unique time opts = Some (MergerExit True c (fs(mo_output opts \<mapsto> (file_of es, True)))) \<and>
    sorted_unique es \<and> fst ` set es = hashes_of E paths \<and> counts_kept E paths es"
proof -
  obtain xs where xs: "sort_inputs fs (map newInputFile paths) = Inr xs" "chunks_ok (given_env unique time opts) E fs 0 xs"
    "length xs = length paths" "hashes_of E (map if_path xs) = hashes_of E paths" "mset (map if_path xs) = mset paths"
    using sorted_inputs [OF assms(1)] by blast
  obtain c where run: "merger_run fs unique time opts =
    (case merge_chunks (given_env unique time opts) (newProgressBar 32 0) 0 xs [] fs c of
       None \<Rightarrow> None
     | Some (Inl None) \<Rightarrow> Some MergerCrash
     | Some (Inl (Some e)) \<Rightarrow> Some (MergerException e)
     | Some (Inr (intermediate, fs, c)) \<Rightarrow>
         Some (MergerExit True (c @ [Out (''Total time: '' @ time None @ endl)]) (fold (\<lambda>f m. m(f := None)) intermediate fs)))"
    using merger_run_chunks [OF assms(1) xs(1)] by blast
  have ne: "xs \<noteq> []" using xs(3) assms(2) by auto
  then have "1 \<le> mo_max opts" using assms(3) xs(3) by (cases xs) auto
  then obtain fs' c' es where "merge_chunks (given_env unique time opts) (newProgressBar 32 0) 0 xs [] fs c = Some (Inr ([], fs', c'))"
    "fs' = fs(mo_output opts \<mapsto> (file_of es, True))" "sorted_unique es" "fst ` set es = hashes_of E paths" "counts_kept E (map if_path xs) es"
    using merge_chunks_once [of "given_env unique time opts" xs E fs "newProgressBar 32 0" 0 c] undisturbed_given assms(3) xs(2-4) ne by auto
  moreover have "counts_kept E paths es" using \<open>counts_kept E (map if_path xs) es\<close> weight_mset [OF xs(5)] by (simp add: counts_kept_def)
  ultimately show ?thesis unfolding run by auto
qed

text \<open>C37: The tool merges any number of sorted files with at least two at once: it comes to an end,
  and the destination holds, in order and once, exactly the hashes of the files.\<close>

theorem merger_merges_all:
  assumes "merger_given E fs unique paths opts" and "paths \<noteq> []" and "2 \<le> mo_max opts"
  shows "\<exists>c fs' es. merger_run fs unique time opts = Some (MergerExit True c fs') \<and>
    fs' (mo_output opts) = Some (file_of es, True) \<and> sorted_unique es \<and> fst ` set es = hashes_of E paths"
proof -
  obtain xs where xs: "sort_inputs fs (map newInputFile paths) = Inr xs" "chunks_ok (given_env unique time opts) E fs 0 xs"
    "length xs = length paths" "hashes_of E (map if_path xs) = hashes_of E paths" using sorted_inputs [OF assms(1)] by blast
  obtain c where run: "merger_run fs unique time opts =
    (case merge_chunks (given_env unique time opts) (newProgressBar 32 0) 0 xs [] fs c of
       None \<Rightarrow> None
     | Some (Inl None) \<Rightarrow> Some MergerCrash
     | Some (Inl (Some e)) \<Rightarrow> Some (MergerException e)
     | Some (Inr (intermediate, fs, c)) \<Rightarrow>
         Some (MergerExit True (c @ [Out (''Total time: '' @ time None @ endl)]) (fold (\<lambda>f m. m(f := None)) intermediate fs)))"
    using merger_run_chunks [OF assms(1) xs(1)] by blast
  have "xs \<noteq> []" using xs(3) assms(2) by auto
  with xs(2) assms(3) obtain dn fs' c' es where
    "merge_chunks (given_env unique time opts) (newProgressBar 32 0) 0 xs [] fs c = Some (Inr (dn, fs', c'))"
    "fs' (mo_output opts) = Some (file_of es, True)" "mo_output opts \<notin> set dn" "sorted_unique es" "fst ` set es = hashes_of E paths"
    using merge_chunks_all [of "given_env unique time opts" E fs "[]" xs "newProgressBar 32 0" 0 c] undisturbed_given xs(4) by auto
  then show ?thesis unfolding run by (auto simp: removed_keeps)
qed

definition toy_merger_files :: "string \<Rightarrow> entry list" where
  "toy_merger_files p = (if p = ''a'' then [(Quad 1 0, 5)] else if p = ''b'' then [(Quad 2 0, 7)] else [(Quad 1 0, 1), (Quad 3 0, 1)])"

definition toy_merger_fs :: files where
  "toy_merger_fs = (\<lambda>p. if p \<in> {''a'', ''b'', ''c''} then Some (file_of (toy_merger_files p), True) else None)"

definition toy_merger_options :: "int \<Rightarrow> merger_options" where
  "toy_merger_options n = \<lparr>mo_help = False, mo_warranty = False, mo_src = None, mo_input = Some [''a'', ''b'', ''c''], mo_output = ''o'',
     mo_tmp = [], mo_max = n, mo_ext = ''.md5''\<rparr>"

lemma toy_merger_given:
  "merger_given toy_merger_files toy_merger_fs (\<lambda>i. replicate i CHR ''t'') [''a'', ''b'', ''c''] (toy_merger_options n)"
proof -
  have "inj (\<lambda>i. replicate i CHR ''t'')" by (rule injI) (metis length_replicate)
  moreover have "replicate i CHR ''t'' @ ''.md5'' \<noteq> [x]" for i x by (cases i) auto
  ultimately show ?thesis
    by (auto simp: merger_given_def toy_merger_options_def toy_merger_fs_def toy_merger_files_def sorted_unique_def entry_total_def
      less_quad_def)
qed

lemma merger_merges_all_witness:
  "\<exists>c fs' es. merger_run toy_merger_fs (\<lambda>i. replicate i CHR ''t'') (\<lambda>_. []) (toy_merger_options 2) = Some (MergerExit True c fs') \<and>
     fs' ''o'' = Some (file_of es, True) \<and> fst ` set es = {Quad 1 0, Quad 2 0, Quad 3 0}"
proof -
  have "hashes_of toy_merger_files [''a'', ''b'', ''c''] = {Quad 1 0, Quad 2 0, Quad 3 0}"
    by (auto simp: hashes_of_def toy_merger_files_def)
  moreover have "2 \<le> mo_max (toy_merger_options 2)" and "mo_output (toy_merger_options 2) = ''o''"
    by (simp_all add: toy_merger_options_def)
  ultimately show ?thesis
    using merger_merges_all [OF toy_merger_given, of 2 "\<lambda>_. []"] by (simp only:) blast
qed

text \<open>C38: With \<^verbatim>\<open>--max-files-at-once\<close> 1 and two input files or more, or with 0 and at least one, the
  tool never returns: every round makes as many files as it takes.\<close>

theorem merger_never_ends:
  assumes "merger_given E fs unique paths opts" and "mo_max opts = 0 \<and> paths \<noteq> [] \<or> mo_max opts = 1 \<and> 2 \<le> length paths"
  shows "merger_run fs unique time opts = None"
proof -
  obtain xs where xs: "sort_inputs fs (map newInputFile paths) = Inr xs" "chunks_ok (given_env unique time opts) E fs 0 xs"
    "length xs = length paths" using sorted_inputs [OF assms(1)] by blast
  have "stuck (given_env unique time opts) (length []) xs fs"
    using assms(2) xs(2,3) by (auto simp: stuck_def undisturbed_given)
  from stuck_forever [OF undisturbed_given(2,1) this]
  have "merge_chunks (given_env unique time opts) (newProgressBar 32 0) 0 xs [] fs c = None" for c .
  then show ?thesis using merger_run_chunks [OF assms(1) xs(1), of time] by auto
qed

lemma merger_never_ends_witness:
  "merger_run toy_merger_fs (\<lambda>i. replicate i CHR ''t'') (\<lambda>_. []) (toy_merger_options 1) = None"
  by (rule merger_never_ends [OF toy_merger_given]) (simp add: toy_merger_options_def)

end
