(* ===== verification/Markov_Tools.thy ===== *)
theory Markov_Tools
  imports Markov Reader Inspector Console
begin

text \<open>
  \<^verbatim>\<open>extras/pwned-markov-generator\<close> trains a Markov chain on a password list and saves it;
  \<^verbatim>\<open>extras/pwned-markov-lookup\<close> loads it and prints the probabilities of passwords.

  Parameters are what the chain takes (\<open>decode\<close>, \<open>enc\<close>, \<open>dec\<close>, \<open>write_json\<close>), the formatted progress
  and the texts of probabilities and exceptions.
\<close>

section \<open>The generator\<close>



definition generator_license :: string where
  "generator_license =
     ''This program comes with ABSOLUTELY NO WARRANTY; for details type'' @ endl @
     [CHR 0x60] @ ''pwned-markov-generator --warranty'' @ [CHR 0x60] @ ''.'' @ endl @
     ''This is free software, and you are welcome to redistribute it'' @ endl @
     ''under certain conditions; see https://www.gnu.org/licenses/gpl-3.0.en.html'' @ endl @
     ''for details.'' @ endl @ endl"

definition generator_warranty :: string where
  "generator_warranty = warranty_text"





section \<open>The lookup\<close>




section \<open>Training on a file\<close>











section \<open>Properties\<close>






end
