(* ===== verification/Command_Lines.thy ===== *)
theory Command_Lines
  imports Indexer Converter Util_System Console
begin

text \<open>
  The mains of \<^verbatim>\<open>pwned-lookup-cli\<close>, \<^verbatim>\<open>pwned-index\<close> and \<^verbatim>\<open>pwned-converter-cli\<close> from the command line
  on: what they print around the work that \<open>Lookup_Cli\<close>, \<open>Indexer\<close> and \<open>Converter\<close> model.
\<close>

section \<open>Lookup\<close>

definition lookup_hello :: string where
  "lookup_hello = ''#pwned lookup 1.0-RC - Copyright (c) 2019 Oliver Lau'' @ endl @ endl"

definition lookup_license :: string where
  "lookup_license =
     ''This program comes with ABSOLUTELY NO WARRANTY; for details type'' @ endl @
     [CHR 0x60] @ ''pwned-lookup-cli --warranty'' @ [CHR 0x27] @ ''.'' @ endl @
     ''This is free software, and you are welcome to redistribute it'' @ endl @
     ''under certain conditions; see https://www.gnu.org/licenses/gpl-3.0.en.html'' @ endl @
     ''for details.'' @ endl @ endl"

definition lookup_warranty :: string where
  "lookup_warranty = warranty_text"

record lookup_options =
  lo_input :: string
  lo_index :: string

datatype lookup_cli_run =
    LookupFailed "console list"
  | LookupThrows fs_error
  | LookupAsks "console list"
  | LookupHangs

text \<open>What is printed for one password; \<open>time\<close> is the text of the time spent.\<close>

definition lookup_print :: "(string \<Rightarrow> u8 list) \<Rightarrow> string \<Rightarrow> string \<times> answer \<Rightarrow> console list" where
  "lookup_print md5 time = (\<lambda>(pwd, a).
     [Out ''Password? '', Out (''MD5 hash '' @ toString False (hash_of_string md5 pwd) @ endl),
      Out (case a of Found n \<Rightarrow> ''Found '' @ decimal (unat n) @ '' times.'' @ endl | NotFound \<Rightarrow> ''Not found.'' @ endl),
      Out (''Lookup time: '' @ time @ '' ms'' @ endl @ endl)])"

definition lookup_cli ::
  "(string \<Rightarrow> u8 list) \<Rightarrow> files \<Rightarrow> string \<Rightarrow> string \<Rightarrow> lookup_options parsed \<Rightarrow> string list \<Rightarrow> lookup_cli_run" where
  "lookup_cli md5 fs time usage parsed pwds =
     (case parsed of
        Inl e \<Rightarrow> LookupFailed [Err (''ERROR: '' @ e @ endl @ endl)]
      | Inr opts \<Rightarrow>
          (case lookup_main md5 fs (lo_input opts) (lo_index opts) pwds of
             ExitFailure \<Rightarrow> LookupFailed [Err (''ERROR: input file not given.'' @ endl), Out (usage @ endl)]
           | ExitException e \<Rightarrow> LookupThrows e
           | Answers as \<Rightarrow> LookupAsks (concat (map (lookup_print md5 time) (zip pwds as)) @ [Out ''Password? ''])
           | NoReturn \<Rightarrow> LookupHangs))"

section \<open>Index\<close>

definition index_hello :: string where
  "index_hello = ''#pwned indexer 1.0-RC - Copyright (c) 2019 Oliver Lau'' @ endl @ endl"

definition index_license :: string where
  "index_license =
     ''This program comes with ABSOLUTELY NO WARRANTY; for details type'' @ endl @
     [CHR 0x60] @ ''index --warranty'' @ [CHR 0x60] @ ''.'' @ endl @
     ''This is free software, and you are welcome to redistribute it'' @ endl @
     ''under certain conditions; see https://www.gnu.org/licenses/gpl-3.0.en.html'' @ endl @
     ''for details.'' @ endl @ endl"

definition index_warranty :: string where
  "index_warranty = warranty_text"

definition DefaultBits :: nat where
  "DefaultBits = 24"

record index_options =
  io_help :: bool
  io_warranty :: bool
  io_license :: bool
  io_input :: string
  io_output :: string
  io_bits :: nat

datatype index_cli_run =
    IndexExit bool "console list" "u8 list option"
  | IndexHangs "console list"
  | IndexAborts "console list"
  | IndexUndefinedBehaviour

definition index_ready :: "console list" where
  "index_ready = [Out (''Scanning ...'' @ endl), Out (endl @ ''Writing ... ''), Out (''Ready.'' @ endl @ endl)]"

text \<open>After an error of the parser no variable is set: the names are empty. The lines that show the
  buckets while they are found are left out.\<close>

definition index_cli :: "(nat \<Rightarrow> bool) \<Rightarrow> (string \<Rightarrow> bool) \<Rightarrow> files \<Rightarrow> string \<Rightarrow> index_options parsed \<Rightarrow> index_cli_run" where
  "index_cli alloc writable fs usage parsed =
     (let noInput = [Err (''ERROR: input filename not given.'' @ endl), Out (usage @ endl)]
      in case parsed of
           Inl e \<Rightarrow> IndexExit False (option_error e usage @ noInput) None
         | Inr opts \<Rightarrow>
             (if io_help opts then IndexExit True [Out (usage @ endl)] None
              else if io_warranty opts then IndexExit True [Out index_warranty] None
              else if io_license opts then IndexExit True [Out index_license] None
              else if io_input opts = [] then IndexExit False noInput None
              else if io_output opts = []
              then IndexExit False [Err (''ERROR: output filename not given.'' @ endl), Out (usage @ endl)] None
              else case index_main alloc writable fs (io_input opts) (io_output opts) (io_bits opts) of
                     IndexFailure \<Rightarrow> IndexExit False [] None
                   | IndexUndefined \<Rightarrow> IndexUndefinedBehaviour
                   | IndexThrows \<Rightarrow> IndexAborts [Out (''Scanning ...'' @ endl)]
                   | IndexNoReturn \<Rightarrow> IndexHangs [Out (''Scanning ...'' @ endl)]
                   | IndexNotWritten \<Rightarrow> IndexExit True index_ready None
                   | IndexWritten bs \<Rightarrow> IndexExit True index_ready (Some bs)))"

section \<open>Converter\<close>

definition converter_hello :: string where
  "converter_hello = ''#pwned converter 1.0.0 - Copyright (c) 2019 Oliver Lau'' @ endl @ endl"

definition converter_info :: string where
  "converter_info =
     ''This program comes with ABSOLUTELY NO WARRANTY; for details'' @ endl @
     ''type '' @ [CHR 0x60] @ ''pwned-merger --warranty'' @ [CHR 0x60] @ ''. This is free software, and'' @ endl @
     ''you are welcome to redistribute it under certain conditions;'' @ endl @
     ''type '' @ [CHR 0x60] @ ''pwned-merger --license'' @ [CHR 0x60] @ '' for details.'' @ endl @ endl"

definition DefaultNumThreads :: nat where
  "DefaultNumThreads = 4"

record converter_opts =
  co_help :: bool
  co_src :: string
  co_dst :: string
  co_ext :: string
  co_ram :: "u64 option"
  co_threads :: nat
  co_forceMD5 :: bool
  co_autoMD5 :: bool
  co_forceHex :: bool
  co_autoHex :: bool

datatype converter_cli_run =
    ConverterExit bool "console list"
  | ConverterThrows fs_error "console list"
  | ConverterRuns "convert list" "console list" "console list"

definition memory_line :: "(nat \<Rightarrow> 'p::linordered_field \<Rightarrow> string) \<Rightarrow> MemoryStat \<Rightarrow> string" where
  "memory_line fixed m =
     ''Physical memory (total/app/available): '' @ the (readableSize fixed (m_total (phys m))) @ ''/'' @
     the (readableSize fixed (m_app (phys m))) @ ''/'' @ the (readableSize fixed (m_avail (phys m))) @ endl @ endl"

text \<open>The keys the converter reads while its queue works: the calls, and what is printed.\<close>

definition converter_keys :: "(nat \<Rightarrow> bool) \<Rightarrow> string \<Rightarrow> queue_call list" where
  "converter_keys running keys = key_loop (CHR '' '') running 0 keys"

fun converter_messages :: "(nat \<Rightarrow> bool) \<Rightarrow> nat \<Rightarrow> string \<Rightarrow> console list" where
  "converter_messages running i [] = []"
| "converter_messages running i (ch # chs) =
     (if ch = CHR '' '' then Out (if running i then ''Pausing ... '' else ''Resuming ... '') # converter_messages running (Suc i) chs
      else if ch = CHR ''q'' then [Out (''Cancelling all operations ...'' @ endl)]
      else converter_messages running (Suc i) chs)"

text \<open>\<open>m\<close> is the result of \<^verbatim>\<open>getMemoryStat\<close>. \<open>ConverterRuns\<close> holds the operations of the queue, what
  was printed before it runs, and what is printed when it was not cancelled. After an error of the
  parser no variable is set: no file is found.\<close>

definition converter_cli ::
  "texts \<Rightarrow> file_tree \<Rightarrow> (string \<Rightarrow> string) \<Rightarrow> (string \<Rightarrow> string \<Rightarrow> string) \<Rightarrow> (nat \<Rightarrow> 'p::linordered_field \<Rightarrow> string) \<Rightarrow> MemoryStat \<Rightarrow>
   string \<Rightarrow> string \<Rightarrow> converter_opts parsed \<Rightarrow> converter_cli_run" where
  "converter_cli texts tree stem join fixed m time usage parsed =
     (let c = [Out converter_hello, Out (memory_line fixed m)]
      in case parsed of
           Inl e \<Rightarrow> ConverterExit False (c @ option_error e usage @ [Out (usage @ endl)])
         | Inr opts \<Rightarrow>
             (if co_help opts then ConverterExit True (c @ [Out (usage @ endl)])
              else let ram = (case co_ram opts of None \<Rightarrow> m_avail (phys m) div 1024 div 1024 | Some r \<Rightarrow> r);
                       c = c @ (if co_src opts \<noteq> []
                                then [Out (''Scanning '' @ [CHR 0x27] @ co_src opts @ [CHR 0x27] @ '' for files ...''), Out endl] else []);
                       preparing = (\<lambda>n. [Out converter_info, Out (''Converting '' @ decimal n @ '' files.'' @ endl),
                         Out (''Destination directory: '' @ co_dst opts @ endl @ endl), Out (''Preparing queue ...'' @ endl)])
                   in case converter_main texts tree stem join (co_src opts) (co_dst opts) (co_ext opts) ram (co_threads opts)
                             (co_forceMD5 opts) (co_autoMD5 opts) (co_forceHex opts) (co_autoHex opts) of
                        ConverterFailure \<Rightarrow> ConverterExit False (c @ [Out (usage @ endl)])
                      | ConverterException e \<Rightarrow> ConverterThrows e (c @ preparing (length (filter (\<lambda>(f, regular). regular \<and> ends_with f ''.txt'') tree)))
                      | ConverterQueue ds \<Rightarrow>
                          ConverterRuns ds
                            (c @ preparing (length ds) @
                                 [Out (''Executing queue ...'' @ endl), Out (''([Space] to pause/resume, Q to quit)'' @ endl)])
                            [Out (''Total time: '' @ time @ endl @ endl)]))"

end
