(* ===== verification/Extractors.thy ===== *)
theory Extractors
  imports Reader Inspector Console
begin

text \<open>
  \<^verbatim>\<open>extras/pwned-test-set-extractor\<close>: records of a database, or hashes it does not hold, as test data;
  and \<^verbatim>\<open>extras/pwned-password-extractor\<close>: the passwords of all lists below a directory in one file.
\<close>

section \<open>Test sets\<close>

record test_set_options =
  to_help :: bool
  to_warranty :: bool
  to_license :: bool
  to_input :: string
  to_output :: string
  to_num :: int
  to_nonexistent :: bool
  to_urls :: bool
  to_prefix :: string

definition DefaultN :: int where
  "DefaultN = 20000"

definition DefaultURI :: string where
  "DefaultURI = ''http://127.0.0.1:31337/v1/pwned/api/lookup?hash=''"

definition test_set_hello :: string where
  "test_set_hello = ''#pwned test set extractor 1.0 - Copyright (c) 2019 Oliver Lau'' @ endl @ endl"

definition test_set_license :: string where
  "test_set_license =
     ''This program comes with ABSOLUTELY NO WARRANTY; for details type'' @ endl @
     [CHR 0x60] @ ''test-set-extractor --warranty'' @ [CHR 0x60] @ ''.'' @ endl @
     ''This is free software, and you are welcome to redistribute it'' @ endl @
     ''under certain conditions; see https://www.gnu.org/licenses/gpl-3.0.en.html'' @ endl @
     ''for details.'' @ endl @ endl"

definition test_set_warranty :: string where
  "test_set_warranty = warranty_text"

text \<open>What a record becomes in the output: its bytes, or the text of a URL.\<close>

definition string_bytes :: "string \<Rightarrow> u8 list" where
  "string_bytes s = map (\<lambda>c. word_of_nat (of_char c)) s"

definition test_item :: "bool \<Rightarrow> string \<Rightarrow> phc \<Rightarrow> u8 list" where
  "test_item urls prefix p = (if urls then string_bytes (prefix @ toString False (phc_hash p) @ endl) else phc_dump p)"

text \<open>The hashes \<^verbatim>\<open>Hash(gen(), gen())\<close> are a parameter.\<close>

primrec nonexistent_loop :: "(nat \<Rightarrow> hash) \<Rightarrow> bool \<Rightarrow> string \<Rightarrow> nat \<Rightarrow> nat \<Rightarrow> inspector \<Rightarrow> u8 list \<Rightarrow> console list \<Rightarrow> (u8 list \<times> console list) option" where
  "nonexistent_loop gen urls prefix i 0 d bytes out = Some (bytes, out)"
| "nonexistent_loop gen urls prefix i (Suc n) d bytes out =
     (case binsearch d (gen i) of
        None \<Rightarrow> None
      | Some (p, _, d) \<Rightarrow>
          (if phc_count p = 0
           then nonexistent_loop gen urls prefix (Suc i) n d (bytes @ test_item urls prefix (p\<lparr>phc_hash := gen i\<rparr>))
                  (out @ [Out (toString False (gen i) @ '' #'' @ decimal i @ endl)])
           else nonexistent_loop gen urls prefix (Suc i) n d bytes out))"

text \<open>The loop over the positions; with an offset of 0 it only ends when enough records were read.\<close>

partial_function (option) existent_loop ::
  "bool \<Rightarrow> string \<Rightarrow> int \<Rightarrow> int \<Rightarrow> int \<Rightarrow> int \<Rightarrow> int \<Rightarrow> phc \<Rightarrow> u8 istream \<Rightarrow> u8 list \<Rightarrow> console list \<Rightarrow> (u8 list \<times> console list) option" where
  "existent_loop urls prefix size' offset num pos i p f bytes out =
     (if pos < size' \<and> i < num
      then let idx = pos - pos mod 20; r = phc_read_at p f idx; p = fst (snd r); f = snd (snd r)
           in if fst r
              then existent_loop urls prefix size' offset num (pos + offset) (i + 1) p f (bytes @ test_item urls prefix p)
                     (out @ [Out (toString False (phc_hash p) @ '' @ '' @ decimal_int idx @ endl)])
              else existent_loop urls prefix size' offset num (pos + offset) i p f bytes out
      else Some (bytes, out))"

datatype test_set_exit =
    TestSetExit bool "console list" "u8 list option"
  | TestSetThrows fs_error
  | TestSetCrash

text \<open>Integer division cuts off towards zero; \<open>N\<close> may be negative. After an error of the parser no
  name is set. The third component of the result is what the output file holds.\<close>

definition test_set_main ::
  "(nat \<Rightarrow> hash) \<Rightarrow> files \<Rightarrow> (string \<Rightarrow> bool) \<Rightarrow> string \<Rightarrow> test_set_options parsed \<Rightarrow> test_set_exit option" where
  "test_set_main gen fs writable usage parsed =
     (let c = [Out test_set_hello]
      in case parsed of
           Inl e \<Rightarrow> Some (TestSetExit True (c @ option_error e usage @ [Out (usage @ endl)]) None)
         | Inr opts \<Rightarrow>
             (if to_help opts then Some (TestSetExit True (c @ [Out (usage @ endl)]) None)
              else if to_warranty opts then Some (TestSetExit True (c @ [Out test_set_warranty]) None)
              else if to_license opts then Some (TestSetExit True (c @ [Out test_set_license]) None)
              else if to_input opts = [] \<or> to_output opts = [] then Some (TestSetExit True (c @ [Out (usage @ endl)]) None)
              else case fs (to_input opts) of
                     None \<Rightarrow> Some (TestSetThrows (NoSuchFile (to_input opts)))
                   | Some e \<Rightarrow>
                       (let size' = int (length (fst e)); N = to_num opts; quote = [CHR 0x27]
                        in if N = 0 then Some TestSetCrash
                           else let offset = (if N < 0 then - (size' div - N) else size' div N);
                                    f = open_ifstream e
                                in if \<not> opened f
                                   then Some (TestSetExit False (c @ [Err (''Cannot open '' @ quote @ to_input opts @ quote @ '' for reading.'' @ endl)]) None)
                                   else if \<not> writable (to_output opts)
                                   then Some (TestSetExit False (c @ [Err (''Cannot open '' @ quote @ to_output opts @ quote @ '' for writing.'' @ endl)]) None)
                                   else let c = c @ [Out (''Input file:  '' @ to_input opts @ '' ('' @ decimal_int size' @ '' bytes, offset = '' @ decimal_int offset @ '')'' @ endl @
                                                          ''Output file: '' @ to_output opts @ endl)];
                                            r = (if to_nonexistent opts
                                                 then (case inspector_open_index fs newInspector (to_input opts) [] of
                                                         Inl e \<Rightarrow> Some (Inl e)
                                                       | Inr (_, d) \<Rightarrow>
                                                           map_option Inr (nonexistent_loop gen (to_urls opts) (to_prefix opts) 0 (nat N) d []
                                                             (c @ [Out (''Selecting '' @ decimal_int N @ '' non-existent hashes ... '' @ endl)])))
                                                 else map_option Inr (existent_loop (to_urls opts) (to_prefix opts) size' offset N 0 0 emptyPHC f []
                                                             (c @ [Out (''Selecting '' @ decimal_int N @ '' existent hashes ... '' @ endl)])))
                                        in case r of
                                             None \<Rightarrow> None
                                           | Some (Inl e) \<Rightarrow> Some (TestSetThrows e)
                                           | Some (Inr (bytes, c)) \<Rightarrow> Some (TestSetExit True (c @ [Out (endl @ ''Ready.'' @ endl)]) (Some bytes)))))"

section \<open>Password lists\<close>

record extractor_options =
  eo_help :: bool
  eo_warranty :: bool
  eo_license :: bool
  eo_source :: string
  eo_output :: string
  eo_compress :: bool
  eo_ignoreReady :: bool

definition extractor_hello :: string where
  "extractor_hello = ''#pwned password extractor 1.0-BETA - Copyright (c) 2019 Oliver Lau'' @ endl @ endl"

definition extractor_license :: string where
  "extractor_license =
     ''This program comes with ABSOLUTELY NO WARRANTY; for details type'' @ endl @
     [CHR 0x60] @ ''pwned-password-extractor --warranty'' @ [CHR 0x60] @ ''.'' @ endl @
     ''This is free software, and you are welcome to redistribute it'' @ endl @
     ''under certain conditions; see https://www.gnu.org/licenses/gpl-3.0.en.html'' @ endl @
     ''for details.'' @ endl @ endl"

definition extractor_warranty :: string where
  "extractor_warranty = warranty_text"

text \<open>The names in \<^verbatim>\<open>.ready\<close>: all lines, the last one included, which is empty.\<close>

partial_function (option) ready_loop :: "char istream \<Rightarrow> string list \<Rightarrow> string list option" where
  "ready_loop f names =
     (if eofbit f then Some names
      else let r = getline f [] in ready_loop (snd r) (names @ [fst r]))"

text \<open>BZ2 is a parameter: whether the writer opens, takes one more piece after those it has, and closes.
  A sink is the output file or the pieces handed to BZ2.\<close>

record bz2_library =
  bz_opens :: bool
  bz_takes :: "string list \<Rightarrow> string \<Rightarrow> bool"
  bz_closes :: "string list \<Rightarrow> bool"

datatype sink = Plain string | Compressed "string list"

fun write_password :: "bz2_library \<Rightarrow> sink \<Rightarrow> string \<Rightarrow> sink option" where
  "write_password bz (Plain s) pwd = Some (Plain (s @ pwd))"
| "write_password bz (Compressed ps) pwd = (if bz_takes bz ps pwd then Some (Compressed (ps @ [pwd])) else None)"

text \<open>\<^verbatim>\<open>append\<close> makes every password a line; it is never empty then. \<open>Inl\<close> is what was written when
  BZ2 fails.\<close>

partial_function (option) extract_loop :: "bz2_library \<Rightarrow> reader \<Rightarrow> sink \<Rightarrow> (sink + sink) option" where
  "extract_loop bz r out =
     (if reader_eof r then Some (Inr out)
      else let x = nextPassword r; pwd = fst x @ [CHR 0x0A]
           in if pwd \<noteq> []
              then (case write_password bz out pwd of None \<Rightarrow> Some (Inl out) | Some out \<Rightarrow> extract_loop bz (snd x) out)
              else extract_loop bz (snd x) out)"

text \<open>The loop over the lists: the output, what \<^verbatim>\<open>.ready\<close> holds and what is printed.\<close>

type_synonym extract_state = "sink \<times> string \<times> console list"

primrec extract_files ::
  "texts \<Rightarrow> bz2_library \<Rightarrow> string list \<Rightarrow> string list \<Rightarrow> sink \<Rightarrow> string \<Rightarrow> console list \<Rightarrow> (extract_state + extract_state) option" where
  "extract_files fs bz processed [] out ready c = Some (Inr (out, ready, c))"
| "extract_files fs bz processed (f # files) out ready c =
     (let quote = [CHR 0x27]
      in if f \<in> set processed
         then extract_files fs bz processed files out ready (c @ [Out (''Skipping '' @ quote @ f @ quote @ ''.'' @ endl)])
         else case fs f of
                Some (cs, True) \<Rightarrow>
                  (case extract_loop bz (newReader (open_stream cs) [autoEvaluateHexEncodedPasswords]) out of
                     None \<Rightarrow> None
                   | Some (Inl out) \<Rightarrow> Some (Inl (out, ready, c @ [Out f, Err (''ERROR while writing to BZ2 file.'' @ endl)]))
                   | Some (Inr out) \<Rightarrow> extract_files fs bz processed files out (ready @ f @ endl) (c @ [Out f, Out endl]))
              | _ \<Rightarrow> extract_files fs bz processed files out ready
                       (c @ [Err (''WARNING! Cannot open '' @ quote @ f @ quote @ '' for reading. Skipping ...'' @ endl)]))"

text \<open>Opening the BZ2 writer, and closing it; \<^verbatim>\<open>None\<close> when BZ2 reports an error.\<close>

definition open_sink :: "bz2_library \<Rightarrow> bool \<Rightarrow> (sink \<times> console list) option" where
  "open_sink bz compress =
     (if \<not> compress then Some (Plain [], [])
      else if bz_opens bz then Some (Compressed [], [Out (''Compressing output file with BZ2.'' @ endl)])
      else None)"

fun close_sink :: "bz2_library \<Rightarrow> sink \<Rightarrow> bool" where
  "close_sink bz (Plain s) = True"
| "close_sink bz (Compressed ps) = bz_closes bz ps"

text \<open>What the loops leave: the exit code, the printed text, the output and the contents of \<^verbatim>\<open>.ready\<close>.\<close>

datatype extractor_exit = ExtractorExit bool "console list" "(sink \<times> string) option"

definition extractor_run ::
  "texts \<Rightarrow> bz2_library \<Rightarrow> string list \<Rightarrow> string option \<Rightarrow> extractor_options \<Rightarrow> console list \<Rightarrow> extractor_exit option" where
  "extractor_run fs bz names ready opts c =
     (let quote = [CHR 0x27]
      in case open_sink bz (eo_compress opts) of
           None \<Rightarrow> Some (ExtractorExit False (c @ [Err (''Cannot create BZ2 writer for '' @ quote @ eo_output opts @ quote @ ''.'' @ endl)]) None)
         | Some (out, c') \<Rightarrow>
             (case (if eo_ignoreReady opts then Some []
                    else case ready of None \<Rightarrow> Some [] | Some cs \<Rightarrow> ready_loop (open_stream cs) []) of
                None \<Rightarrow> None
              | Some processed \<Rightarrow>
                  (let old = (if eo_ignoreReady opts then [] else case ready of None \<Rightarrow> [] | Some cs \<Rightarrow> cs)
                   in case extract_files fs bz processed names out old (c @ c' @ [Out (''Extracting passwords from ... '' @ endl)]) of
                        None \<Rightarrow> None
                      | Some (Inl (out, ready, c)) \<Rightarrow> Some (ExtractorExit False c (Some (out, ready)))
                      | Some (Inr (out, ready, c)) \<Rightarrow>
                          (if close_sink bz out
                           then Some (ExtractorExit True (c @ [Out (endl @ ''Ready.'' @ endl)]) (Some (out, ready)))
                           else Some (ExtractorExit False (c @ [Err (''ERROR while closing BZ2 file.'' @ endl)]) (Some (out, ready)))))))"

text \<open>\<open>ready\<close> is the file \<^verbatim>\<open>.ready\<close>, \<open>answer\<close> the character typed, \<open>outExists\<close> whether the output is there
  and \<open>writable\<close> whether it can be opened.\<close>

definition extractor_main ::
  "texts \<Rightarrow> bz2_library \<Rightarrow> file_tree \<Rightarrow> string option \<Rightarrow> bool \<Rightarrow> bool \<Rightarrow> char \<Rightarrow> string \<Rightarrow> extractor_options parsed \<Rightarrow> extractor_exit option" where
  "extractor_main fs bz tree ready outExists writable answer usage parsed =
     (let c = [Out extractor_hello]
      in case parsed of
           Inl e \<Rightarrow> Some (ExtractorExit True (c @ option_error e usage @ [Out (usage @ endl)]) None)
         | Inr opts \<Rightarrow>
             (if eo_help opts then Some (ExtractorExit True (c @ [Out (usage @ endl)]) None)
              else if eo_warranty opts then Some (ExtractorExit True (c @ [Out extractor_warranty]) None)
              else if eo_license opts then Some (ExtractorExit True (c @ [Out extractor_license]) None)
              else if eo_source opts = [] \<or> eo_output opts = [] then Some (ExtractorExit True (c @ [Out (usage @ endl)]) None)
              else let quote = [CHR 0x27];
                       c = c @ (if outExists then [Out (eo_output opts @ '' already exists. Do you want to overwrite it?'' @ endl @ ''(y/n) '')] else [])
                   in if outExists \<and> answer \<noteq> CHR ''y'' then Some (ExtractorExit False (c @ [Out (endl @ ''Exiting ...'' @ endl)]) None)
                      else let c = c @ [Out (''Scanning '' @ quote @ eo_source opts @ quote @ '' for files ... ''), Out endl];
                               names = map fst (filter (\<lambda>(f, regular). regular \<and> ends_with f ''.txt'') tree)
                           in if names = []
                              then Some (ExtractorExit False (c @ [Err (''No files found in '' @ quote @ eo_source opts @ quote @ ''.'' @ endl)]) None)
                              else if \<not> writable
                              then Some (ExtractorExit False (c @ [Err (''Cannot open '' @ quote @ eo_output opts @ quote @ '' for writing.'' @ endl)]) None)
                              else extractor_run fs bz names ready opts c))"

section \<open>What the extractors write\<close>

lemma position_below:
  assumes "i < N" and "0 < size'"
  shows "i * (size' div N) < (size' :: nat)"
proof -
  have "i * (size' div N) \<le> (N - 1) * (size' div N)" using assms(1) by (intro mult_le_mono1) simp
  also have "\<dots> < size'"
  proof (cases "size' div N = 0")
    case False
    have "N * (size' div N) \<le> size'" by simp
    moreover have "(N - 1) * (size' div N) < N * (size' div N)" using False assms(1) by (intro mult_less_mono1) auto
    ultimately show ?thesis by (rule order_less_le_trans [rotated])
  qed (use assms(2) in simp)
  finally show ?thesis .
qed

definition sample :: "entry list \<Rightarrow> nat \<Rightarrow> nat \<Rightarrow> entry" where
  "sample es N i = es ! (i * (20 * length es div N) div 20)"

lemma existent_loop_samples:
  assumes "reads f es" and "i \<le> N" and "es \<noteq> []"
  shows "\<exists>out'. existent_loop False prefix (int (20 * length es)) (int (20 * length es div N)) (int N)
      (int (i * (20 * length es div N))) (int i) p f bytes out =
    Some (bytes @ file_of (map (sample es N) [i..<N]), out')"
  using assms(1,2)
proof (induction "N - i" arbitrary: i p f bytes out)
  case 0
  then show ?case by (subst existent_loop.simps) (simp add: file_of_def)
next
  case (Suc k)
  let ?pos = "i * (20 * length es div N)"
  let ?j = "?pos div 20"
  have i: "i < N" using Suc.hyps(2) by simp
  have pos: "?pos < 20 * length es" using position_below [OF i, of "20 * length es"] assms(3) by simp
  then have j: "?j < length es" by (simp add: div_less_iff_less_mult mult.commute)
  have idx: "int ?pos - int ?pos mod 20 = 20 * int ?j" by (simp add: minus_mod_eq_mult_div zdiv_int)
  let ?p = "set_entry p (es ! ?j)" and ?f = "f\<lparr>eofbit := False, position := 20 * Suc ?j\<rparr>"
  have r: "phc_read_at p f (20 * int ?j) = (True, ?p, ?f)" by (rule phc_read_at_entry [OF Suc.prems(1) j])
  have dump: "test_item False prefix ?p = entry_bytes (sample es N i)"
    by (simp add: test_item_def phc_dump_entry sample_def)
  have next_pos: "int ?pos + int (20 * length es div N) = int (Suc i * (20 * length es div N))" by simp
  let ?out = "out @ [Out (toString False (phc_hash ?p) @ '' @ '' @ decimal_int (20 * int ?j) @ endl)]"
  have "\<exists>out'. existent_loop False prefix (int (20 * length es)) (int (20 * length es div N)) (int N)
      (int (Suc i * (20 * length es div N))) (int (Suc i)) ?p ?f (bytes @ entry_bytes (sample es N i)) ?out =
    Some ((bytes @ entry_bytes (sample es N i)) @ file_of (map (sample es N) [Suc i..<N]), out')"
    using Suc.prems(1) i Suc.hyps(2) by (intro Suc.hyps(1)) simp_all
  moreover have "[i..<N] = i # [Suc i..<N]" using i by (rule upt_conv_Cons)
  moreover have "existent_loop False prefix (int (20 * length es)) (int (20 * length es div N)) (int N) (int ?pos) (int i) p f bytes out =
      existent_loop False prefix (int (20 * length es)) (int (20 * length es div N)) (int N)
        (int (Suc i * (20 * length es div N))) (int (Suc i)) ?p ?f (bytes @ entry_bytes (sample es N i)) ?out"
  proof -
    have c: "int ?pos < int (20 * length es) \<and> int i < int N" using pos i by (simp only: of_nat_less_iff)
    have s: "int i + 1 = int (Suc i)" by simp
    show ?thesis
      by (subst existent_loop.simps) (simp only: c Let_def idx r fst_conv snd_conv if_True simp_thms next_pos s dump)
  qed
  ultimately show ?case by (simp add: file_of_def)
qed

lemma ready_loop_holds:
  assumes "holds f ls" and "ls \<noteq> []"
  shows "ready_loop f names = Some (names @ ls)"
  using assms
proof (induction ls arbitrary: f names)
  case (Cons l ls)
  obtain f' where f': "getline f [] = (l, f')" "if ls = [] then eofbit f' else holds f' ls"
    using getline_holds [OF Cons.prems(1)] by blast
  have "\<not> eofbit f" using Cons.prems(1) by (simp add: holds_def good_def)
  moreover have "ready_loop f' (names @ [l]) = Some ((names @ [l]) @ ls)"
  proof (cases "ls = []")
    case True
    then show ?thesis using f'(2) by (simp add: ready_loop.simps)
  qed (use Cons.IH [of f' "names @ [l]"] f'(2) in simp)
  ultimately show ?case using f'(1) by (subst ready_loop.simps) simp
qed simp

lemma split_lines_names:
  assumes "\<forall>f \<in> set names. CHR 0x0A \<notin> set f"
  shows "split_lines (concat (map (\<lambda>f. f @ endl) names)) = names @ [[]]"
  using assms by (induction names) (simp_all add: endl_def split_lines_line)

definition list_passwords :: "string \<Rightarrow> string" where
  "list_passwords cs =
     concat (map (\<lambda>l. line_password (guessedSeparator (newReader (open_stream cs) [autoEvaluateHexEncodedPasswords])) l @ endl) (split_lines cs))"

lemma extract_loop_lines:
  assumes "holds (input r) ls" and "ls \<noteq> []"
  shows "extract_loop bz r (Plain out) = Some (Inr (Plain (out @ concat (map (\<lambda>l. line_password (guessedSeparator r) l @ endl) ls))))"
  using assms
proof (induction ls arbitrary: r out)
  case (Cons l ls)
  let ?o = "out @ line_password (guessedSeparator r) l @ endl"
  obtain r' where r': "nextPassword r = (line_password (guessedSeparator r) l, r')" "guessedSeparator r' = guessedSeparator r"
    "if ls = [] then eofbit (input r') else holds (input r') ls"
    using nextPassword_holds [OF Cons.prems(1)] by blast
  have "\<not> eofbit (input r)" using Cons.prems(1) by (simp add: holds_def good_def)
  moreover have "extract_loop bz r' (Plain ?o) = Some (Inr (Plain (?o @ concat (map (\<lambda>l. line_password (guessedSeparator r) l @ endl) ls))))"
  proof (cases "ls = []")
    case True
    then show ?thesis using r'(3) by (simp add: extract_loop.simps reader_eof_def)
  qed (use Cons.IH [of r' ?o] r'(2,3) in simp)
  ultimately show ?case
    using r'(1) by (subst extract_loop.simps) (simp add: reader_eof_def Let_def endl_def)
qed simp

lemma extract_files_all:
  assumes "\<forall>f \<in> set names. f \<notin> set processed \<and> (\<exists>cs. fs f = Some (cs, True))"
  shows "\<exists>c'. extract_files fs bz processed names (Plain out) ready c =
    Some (Inr (Plain (out @ concat (map (\<lambda>f. list_passwords (fst (the (fs f)))) names)), ready @ concat (map (\<lambda>f. f @ endl) names), c'))"
  using assms
proof (induction names arbitrary: out ready c)
  case (Cons f names)
  then obtain cs where f: "f \<notin> set processed" "fs f = Some (cs, True)" by auto
  have "extract_loop bz (newReader (open_stream cs) [autoEvaluateHexEncodedPasswords]) (Plain out) = Some (Inr (Plain (out @ list_passwords cs)))"
    using extract_loop_lines [OF newReader_holds split_lines_not_Nil] by (simp add: list_passwords_def)
  moreover have "\<exists>c'. extract_files fs bz processed names (Plain (out @ list_passwords cs)) (ready @ f @ endl) (c @ [Out f, Out endl]) =
      Some (Inr (Plain ((out @ list_passwords cs) @ concat (map (\<lambda>f. list_passwords (fst (the (fs f)))) names)),
        (ready @ f @ endl) @ concat (map (\<lambda>f. f @ endl) names), c'))"
    using Cons.prems by (intro Cons.IH) simp
  ultimately show ?case using f by simp
qed simp

lemma extract_files_skip:
  assumes "set names \<subseteq> set processed"
  shows "\<exists>c'. extract_files fs bz processed names out ready c = Some (Inr (out, ready, c'))"
  using assms by (induction names arbitrary: c) simp_all

lemma extractor_run_plain:
  assumes "\<not> eo_compress opts" and "\<not> eo_ignoreReady opts"
    and "(case ready of None \<Rightarrow> Some [] | Some cs \<Rightarrow> ready_loop (open_stream cs) []) = Some processed"
    and "\<And>c. \<exists>c'. extract_files fs bz processed names (Plain []) (case ready of None \<Rightarrow> [] | Some cs \<Rightarrow> cs) c = Some (Inr (Plain out, ready', c'))"
  shows "\<exists>c'. extractor_run fs bz names ready opts c = Some (ExtractorExit True c' (Some (Plain out, ready')))"
proof -
  obtain c' where "extract_files fs bz processed names (Plain []) (case ready of None \<Rightarrow> [] | Some cs \<Rightarrow> cs)
      (c @ [] @ [Out (''Extracting passwords from ... '' @ endl)]) = Some (Inr (Plain out, ready', c'))"
    using assms(4) by blast
  with assms(1-3) show ?thesis by (simp add: extractor_run_def open_sink_def)
qed

lemma extractor_main_run:
  assumes "names = map fst (filter (\<lambda>(f, regular). regular \<and> ends_with f ''.txt'') tree)" and "names \<noteq> []"
    and "\<not> eo_help opts" and "\<not> eo_warranty opts" and "\<not> eo_license opts" and "eo_source opts \<noteq> []" and "eo_output opts \<noteq> []"
  shows "\<exists>c. extractor_main fs bz tree ready outExists True CHR ''y'' usage (Inr opts) = extractor_run fs bz names ready opts c"
  using assms(2-7) by (simp add: extractor_main_def assms(1) [symmetric] Let_def) blast

lemma test_set_main_samples:
  assumes "fs (to_input opts) = Some (file_of es, True)" and "to_num opts = int N" and "0 < N" and "es \<noteq> []"
    and "\<not> to_help opts" and "\<not> to_warranty opts" and "\<not> to_license opts" and "to_input opts \<noteq> []" and "to_output opts \<noteq> []"
    and "\<not> to_nonexistent opts" and "\<not> to_urls opts" and "writable (to_output opts)"
  shows "\<exists>c. test_set_main gen fs writable usage (Inr opts) = Some (TestSetExit True c (Some (file_of (map (sample es N) [0..<N]))))"
proof -
  have rd: "reads (open_stream (file_of es)) es" by (simp add: reads_def fail_def)
  have "\<exists>out'. existent_loop False (to_prefix opts) (int (20 * length es)) (int (20 * length es) div int N) (int N) 0 0 emptyPHC
      (open_stream (file_of es)) [] out = Some (file_of (map (sample es N) [0..<N]), out')" for out
    using existent_loop_samples [OF rd le0 assms(4), of "to_prefix opts" N emptyPHC "[]" out] by (simp add: zdiv_int)
  then obtain g where g: "existent_loop False (to_prefix opts) (int (20 * length es)) (int (20 * length es) div int N) (int N) 0 0 emptyPHC
      (open_stream (file_of es)) [] out = Some (file_of (map (sample es N) [0..<N]), g out)" for out
    by metis
  then show ?thesis
    using assms g by (simp add: test_set_main_def Let_def open_ifstream_def)
qed

lemma sample_in:
  assumes "i < N" and "es \<noteq> []"
  shows "sample es N i \<in> set es"
proof -
  have "i * (20 * length es div N) < 20 * length es" using position_below [OF assms(1), of "20 * length es"] assms(2) by simp
  then show ?thesis by (simp add: sample_def div_less_iff_less_mult mult.commute)
qed

section \<open>Properties\<close>

text \<open>Without \<^verbatim>\<open>--non-existent\<close> the test set consists of exactly \<open>N\<close> records of the database, spread
  evenly over it: record \<open>i\<close> is the one at byte \<open>i * (size div N)\<close>.\<close>

theorem test_set_records:
  assumes "fs (to_input opts) = Some (file_of es, True)" and "to_num opts = int N" and "0 < N" and "es \<noteq> []"
    and "\<not> to_help opts" and "\<not> to_warranty opts" and "\<not> to_license opts" and "to_input opts \<noteq> []" and "to_output opts \<noteq> []"
    and "\<not> to_nonexistent opts" and "\<not> to_urls opts" and "writable (to_output opts)"
  shows "\<exists>c. test_set_main gen fs writable usage (Inr opts) = Some (TestSetExit True c
    (Some (file_of (map (\<lambda>i. es ! (i * (20 * length es div N) div 20)) [0..<N]))))"
  using test_set_main_samples [of fs opts es N writable gen usage, OF assms] by (simp add: sample_def [abs_def])

text \<open>A small run: two of three records.\<close>

lemma test_set_records_witness:
  "\<exists>c. test_set_main (\<lambda>_. emptyHash) [''db'' \<mapsto> (file_of [(Quad 1 0, 5), (Quad 2 0, 7), (Quad 3 0, 9)], True)] (\<lambda>_. True) []
     (Inr \<lparr>to_help = False, to_warranty = False, to_license = False, to_input = ''db'', to_output = ''t'', to_num = 2,
           to_nonexistent = False, to_urls = False, to_prefix = []\<rparr>) =
   Some (TestSetExit True c (Some (file_of [(Quad 1 0, 5), (Quad 2 0, 7)])))"
proof -
  let ?opts = "\<lparr>to_help = False, to_warranty = False, to_license = False, to_input = ''db'', to_output = ''t'', to_num = 2,
           to_nonexistent = False, to_urls = False, to_prefix = []\<rparr>"
  let ?es = "[(Quad 1 0, 5), (Quad 2 0, 7), (Quad 3 0, 9)] :: entry list"
  have "map (\<lambda>i. ?es ! (i * (20 * length ?es div 2) div 20)) [0..<2] = [(Quad 1 0, 5), (Quad 2 0, 7)]" by (simp add: upt_rec)
  then show ?thesis
    using test_set_records [of "[''db'' \<mapsto> (file_of ?es, True)]" ?opts ?es 2 "\<lambda>_. True" "\<lambda>_. emptyHash" "[]"] by simp
qed

text \<open>C39: A first run of the password extractor writes the passwords of all lines of all lists, one per
  line, and notes the lists in \<^verbatim>\<open>.ready\<close>. A second run skips them all and leaves the output empty.\<close>

theorem extractor_twice:
  assumes "names = map fst (filter (\<lambda>(f, regular). regular \<and> ends_with f ''.txt'') tree)" and "names \<noteq> []"
    and "\<forall>f \<in> set names. CHR 0x0A \<notin> set f \<and> (\<exists>cs. fs f = Some (cs, True))"
    and "\<not> eo_help opts" and "\<not> eo_warranty opts" and "\<not> eo_license opts" and "eo_source opts \<noteq> []" and "eo_output opts \<noteq> []"
    and "\<not> eo_compress opts" and "\<not> eo_ignoreReady opts"
  shows "\<exists>c c' ready. extractor_main fs bz tree None False True CHR ''y'' usage (Inr opts) =
      Some (ExtractorExit True c (Some (Plain (concat (map (\<lambda>f. list_passwords (fst (the (fs f)))) names)), ready))) \<and>
    extractor_main fs bz tree (Some ready) True True CHR ''y'' usage (Inr opts) = Some (ExtractorExit True c' (Some (Plain [], ready)))"
proof -
  let ?ready = "concat (map (\<lambda>f. f @ endl) names)"
  have first: "\<exists>c'. extractor_run fs bz names None opts c =
      Some (ExtractorExit True c' (Some (Plain (concat (map (\<lambda>f. list_passwords (fst (the (fs f)))) names)), ?ready)))" for c
    using extract_files_all [of names "[]" fs bz "[]" "[]"] assms(3)
    by (intro extractor_run_plain [OF assms(9,10), of None "[]"]) simp_all
  have rd: "ready_loop (open_stream ?ready) [] = Some (names @ [[]])"
    using ready_loop_holds [OF holds_open split_lines_not_Nil, of ?ready "[]"] split_lines_names [of names] assms(3) by simp
  have second: "\<exists>c'. extractor_run fs bz names (Some ?ready) opts c = Some (ExtractorExit True c' (Some (Plain [], ?ready)))" for c
    using rd extract_files_skip [of names "names @ [[]]" fs bz "Plain []" ?ready]
    by (intro extractor_run_plain [OF assms(9,10), of "Some ?ready" "names @ [[]]"]) auto
  obtain c1 c2 where
    "extractor_main fs bz tree None False True CHR ''y'' usage (Inr opts) = extractor_run fs bz names None opts c1"
    "extractor_main fs bz tree (Some ?ready) True True CHR ''y'' usage (Inr opts) = extractor_run fs bz names (Some ?ready) opts c2"
    using extractor_main_run [OF assms(1,2,4-8)] by blast
  then show ?thesis using first [of c1] second [of c2] by auto
qed

text \<open>Two runs over a directory with one list.\<close>

lemma extractor_twice_witness:
  "\<exists>c c' ready. extractor_main [''a.txt'' \<mapsto> (''u:pw'', True)] \<lparr>bz_opens = True, bz_takes = \<lambda>_ _. True, bz_closes = \<lambda>_. True\<rparr>
       [(''a.txt'', True), (''b'', True)] None False True CHR ''y'' []
       (Inr \<lparr>eo_help = False, eo_warranty = False, eo_license = False, eo_source = ''d'', eo_output = ''o'',
             eo_compress = False, eo_ignoreReady = False\<rparr>) =
      Some (ExtractorExit True c (Some (Plain (list_passwords ''u:pw''), ready))) \<and>
    extractor_main [''a.txt'' \<mapsto> (''u:pw'', True)] \<lparr>bz_opens = True, bz_takes = \<lambda>_ _. True, bz_closes = \<lambda>_. True\<rparr>
       [(''a.txt'', True), (''b'', True)] (Some ready) True True CHR ''y'' []
       (Inr \<lparr>eo_help = False, eo_warranty = False, eo_license = False, eo_source = ''d'', eo_output = ''o'',
             eo_compress = False, eo_ignoreReady = False\<rparr>) =
      Some (ExtractorExit True c' (Some (Plain [], ready)))"
proof -
  let ?tree = "[(''a.txt'', True), (''b'', True)]" and ?fs = "[''a.txt'' \<mapsto> (''u:pw'', True)] :: texts"
  let ?opts = "\<lparr>eo_help = False, eo_warranty = False, eo_license = False, eo_source = ''d'', eo_output = ''o'',
                eo_compress = False, eo_ignoreReady = False\<rparr>"
  let ?bz = "\<lparr>bz_opens = True, bz_takes = \<lambda>_ _. True, bz_closes = \<lambda>_. True\<rparr>"
  have names: "[''a.txt''] = map fst (filter (\<lambda>(f, regular). regular \<and> ends_with f ''.txt'') ?tree)" by (simp add: ends_with_def)
  from extractor_twice [OF names, of ?fs ?opts ?bz "[]"] show ?thesis by simp
qed

end
