(* ===== verification/Benchmark.thy ===== *)
theory Benchmark
  imports Extractors Indexed_Lookup Util_System
begin

text \<open>
  \<^verbatim>\<open>extras/pwned-benchmark/benchmark.cpp\<close>: how long the searches of the inspector take on a test set.
  The durations are parameters; what the model keeps is which hashes were found, what was read and what
  the tool prints. The three searches share one contract, the locale \<open>hash_search\<close>.
\<close>

section \<open>The searches\<close>

type_synonym searcher = "inspector \<Rightarrow> hash \<Rightarrow> (phc \<times> nat \<times> inspector) option"

text \<open>\<open>ready\<close> says which inspectors work on a database, \<open>askable\<close> which hashes they may be asked for.
  A hash above the greatest entry is never askable.\<close>

locale hash_search =
  fixes search :: searcher
    and ready :: "entry list \<Rightarrow> inspector \<Rightarrow> bool"
    and askable :: "entry list \<Rightarrow> quad \<Rightarrow> bool"
  assumes search_law: "ready es d \<Longrightarrow> askable es (quad h) \<Longrightarrow> e \<in> set es \<Longrightarrow> quad h \<le> fst e \<Longrightarrow>
    \<exists>p n d'. search d h = Some (p, n, d') \<and> found es (quad h) p \<and> ready es d'"

definition plain_ready :: "entry list \<Rightarrow> inspector \<Rightarrow> bool" where
  "plain_ready es d \<longleftrightarrow> serves d es \<and> no_index d"

interpretation plain_search: hash_search binsearch plain_ready "\<lambda>_ _. True"
proof unfold_locales
  fix es :: "entry list" and d :: inspector and h :: hash and e :: entry
  assume "plain_ready es d" "e \<in> set es" "quad h \<le> fst e"
  then show "\<exists>p n d'. binsearch d h = Some (p, n, d') \<and> found es (quad h) p \<and> plain_ready es d'"
    using binsearch_serves [of d es h] by (force simp: plain_ready_def not_le [symmetric])
qed

interpretation indexed_search: hash_search binsearch "\<lambda>es d. indexed d es bits" "\<lambda>es. covered es bits" for bits
proof unfold_locales
  fix es :: "entry list" and d :: inspector and h :: hash and e :: entry
  assume "indexed d es bits" "covered es bits (quad h)" "e \<in> set es" "quad h \<le> fst e"
  then show "\<exists>p n d'. binsearch d h = Some (p, n, d') \<and> found es (quad h) p \<and> indexed d' es bits"
    using binsearch_indexed [of d es bits h] by (force simp: not_le [symmetric])
qed

text \<open>The interpolating search, with its estimate of the position as a function of the hash.\<close>

definition smart_search :: "(hash \<Rightarrow> int) \<Rightarrow> searcher" where
  "smart_search est d h = smart_binsearch (est h) d h"

interpretation interpolating_search: hash_search "smart_search est"
  "\<lambda>es d. plain_ready es d \<and> (\<forall>h. 0 \<le> est h \<and> est h \<le> 20 * int (length es))" "\<lambda>_ _. True" for est
proof unfold_locales
  fix es :: "entry list" and d :: inspector and h :: hash and e :: entry
  assume d: "plain_ready es d \<and> (\<forall>h. 0 \<le> est h \<and> est h \<le> 20 * int (length es))" and e: "e \<in> set es" "quad h \<le> fst e"
  then have s: "serves d es" "no_index d" "es \<noteq> []" "0 \<le> est h" "est h \<le> mFileSize d"
    by (auto simp: plain_ready_def serves_def)
  obtain p n d' where "smart_binsearch (est h) d h = Some (p, n, d')" "found es (quad h) p" "no_index d'"
    "serves d' es \<or> (\<forall>e \<in> set es. fst e < quad h)"
    using smart_binsearch_leaves [OF s, of h] by blast
  then show "\<exists>p n d'. smart_search est d h = Some (p, n, d') \<and> found es (quad h) p \<and>
      (plain_ready es d' \<and> (\<forall>h. 0 \<le> est h \<and> est h \<le> 20 * int (length es)))"
    using d e by (force simp: smart_search_def plain_ready_def not_le [symmetric])
qed

section \<open>The tool\<close>

definition benchmark_hello :: string where
  "benchmark_hello = ''#pwned lookup benchmark 1.0.0 - Copyright (c) 2019 Oliver Lau'' @ endl @ endl"

definition benchmark_license :: string where
  "benchmark_license =
     ''This program comes with ABSOLUTELY NO WARRANTY; for details type'' @ endl @
     [CHR 0x60] @ ''benchmark --warranty'' @ [CHR 0x60] @ ''.'' @ endl @
     ''This is free software, and you are welcome to redistribute it'' @ endl @
     ''under certain conditions; see https://www.gnu.org/licenses/gpl-3.0.en.html'' @ endl @
     ''for details.'' @ endl @ endl"

definition benchmark_warranty :: string where
  "benchmark_warranty = warranty_text"

text \<open>The cache of the file system; on macOS it depends on the user being root. The branch for Windows
  does not compile (it names a variable that is not there).\<close>

datatype platform = Apple bool | Linux | OtherUnix

text \<open>The return value, what is printed and what is written to which file.\<close>

fun purgeFilesystemCacheOn :: "platform \<Rightarrow> int \<times> console list \<times> (string \<times> string) list" where
  "purgeFilesystemCacheOn (Apple True) =
     (0, [Out ''Purging filesystem cache (this can take a couple of minutes) ... '', Out (endl @ endl)], [])"
| "purgeFilesystemCacheOn (Apple False) =
     (1, [Out (''** WARNING** This program needs root privileges to purge the filesystem cache.'' @ endl @
               ''** WARNING** Running benchmarks without purging first.'' @ endl @ endl)], [])"
| "purgeFilesystemCacheOn Linux = (0, [], [(''/proc/sys/vm/drop_caches'', ''3'' @ endl)])"
| "purgeFilesystemCacheOn OtherUnix = (0, [], [])"

definition AlgoBinSearch :: string where
  "AlgoBinSearch = ''binsearch''"

definition AlgoSmartBinSearch :: string where
  "AlgoSmartBinSearch = ''smart''"

definition AlgoList :: "string list" where
  "AlgoList = [AlgoBinSearch, AlgoSmartBinSearch]"

definition AlgoStringList :: string where
  "AlgoStringList =
     foldl (\<lambda>a b. a @ '', '' @ [CHR 0x27] @ b @ [CHR 0x27]) ([CHR 0x27] @ hd AlgoList @ [CHR 0x27]) (tl AlgoList)"

text \<open>One pass over the test set: the numbers of reads, of hashes found and of hashes not found.
  \<open>extra\<close> is what the loop itself adds to the reads of every lookup. The counters of the code are of
  type \<^verbatim>\<open>int\<close>; the numbers are the same as long as they stay below \<open>2 ^ 31\<close>.\<close>

primrec bench_lookups :: "nat \<Rightarrow> searcher \<Rightarrow> phc list \<Rightarrow> inspector \<Rightarrow> nat \<Rightarrow> nat \<Rightarrow> nat \<Rightarrow> (nat \<times> nat \<times> nat) option" where
  "bench_lookups extra search [] d nReads nFound notFound = Some (nReads, nFound, notFound)"
| "bench_lookups extra search (p # ps) d nReads nFound notFound =
     (case search d (phc_hash p) of
        None \<Rightarrow> None
      | Some (result, readCount, d) \<Rightarrow>
          (if phc_count result > 0
           then bench_lookups extra search ps d (nReads + extra + readCount) (nFound + 1) notFound
           else bench_lookups extra search ps d (nReads + extra + readCount) nFound (notFound + 1)))"

text \<open>How durations are printed: \<open>bl_fixed\<close> is \<^verbatim>\<open>%.kf\<close>, \<open>bl_per\<close> the text of the milliseconds per lookup;
  \<open>bl_span i\<close> is the duration of the \<open>i\<close>th run in seconds.\<close>

record 'p bench_lib =
  bl_fixed :: "nat \<Rightarrow> 'p \<Rightarrow> string"
  bl_per :: "'p \<Rightarrow> nat \<Rightarrow> string"
  bl_span :: "nat \<Rightarrow> 'p"

definition run_report :: "'p::floor_ceiling bench_lib \<Rightarrow> nat \<Rightarrow> nat \<Rightarrow> nat \<Rightarrow> 'p \<Rightarrow> nat \<Rightarrow> string option" where
  "run_report lib nReads nFound notFound t n =
     map_option (\<lambda>time. endl @
       ''#reads: '' @ decimal nReads @ endl @
       ''Found: '' @ decimal nFound @ endl @
       ''Not found: '' @ decimal notFound @ endl @
       ''Lookup time: '' @ time @ '' ('' @ bl_per lib t n @ ''ms per lookup)'' @ endl @ endl)
     (readableTime (bl_fixed lib) t)"

text \<open>The runs \<open>past + 1, \<dots>, past + k\<close> of \<open>nRuns\<close>, each with a new inspector.\<close>

primrec bench_runs ::
  "'p::floor_ceiling bench_lib \<Rightarrow> nat \<Rightarrow> searcher \<Rightarrow> files \<Rightarrow> string \<Rightarrow> string \<Rightarrow> phc list \<Rightarrow> nat \<Rightarrow> nat \<Rightarrow> nat \<Rightarrow>
   'p list \<Rightarrow> console list \<Rightarrow> (fs_error + 'p list \<times> console list) option" where
  "bench_runs lib extra search fs inputFile index phcs nRuns past 0 runTimes c = Some (Inr (runTimes, c))"
| "bench_runs lib extra search fs inputFile index phcs nRuns past (Suc k) runTimes c =
     (case inspector_open_index fs newInspector inputFile index of
        Inl e \<Rightarrow> Some (Inl e)
      | Inr (_, d) \<Rightarrow>
          (case bench_lookups extra search phcs d 0 0 0 of
             None \<Rightarrow> None
           | Some (nReads, nFound, notFound) \<Rightarrow>
               (case run_report lib nReads nFound notFound (bl_span lib past) (length phcs) of
                  None \<Rightarrow> None
                | Some report \<Rightarrow>
                    bench_runs lib extra search fs inputFile index phcs nRuns (Suc past) k (runTimes @ [bl_span lib past])
                      (c @ [Out (''Benchmark run '' @ decimal (Suc past) @ '' of '' @ decimal nRuns @ '' in progress ... ''), Out report]))))"

definition benchmarkWithoutIndex ::
  "'p::floor_ceiling bench_lib \<Rightarrow> files \<Rightarrow> nat \<Rightarrow> string \<Rightarrow> phc list \<Rightarrow> searcher \<Rightarrow> console list \<Rightarrow> (fs_error + 'p list \<times> console list) option" where
  "benchmarkWithoutIndex lib fs nRuns inputFile phcs search c = bench_runs lib 0 search fs inputFile [] phcs nRuns 0 nRuns [] c"

definition benchmarkWithIndex ::
  "'p::floor_ceiling bench_lib \<Rightarrow> files \<Rightarrow> nat \<Rightarrow> string \<Rightarrow> phc list \<Rightarrow> string \<Rightarrow> console list \<Rightarrow> (fs_error + 'p list \<times> console list) option" where
  "benchmarkWithIndex lib fs nRuns inputFile phcs index c = bench_runs lib 1 binsearch fs inputFile index phcs nRuns 0 nRuns [] c"

record benchmark_options =
  bo_help :: bool
  bo_warranty :: bool
  bo_license :: bool
  bo_input :: string
  bo_testset :: string
  bo_runs :: int
  bo_algorithm :: string
  bo_index :: string
  bo_purge :: bool

definition DefaultNumberOfRuns :: int where
  "DefaultNumberOfRuns = 5"

text \<open>The test set: all records up to the first that cannot be read.\<close>

partial_function (option) read_test_set :: "phc \<Rightarrow> u8 istream \<Rightarrow> phc list \<Rightarrow> phc list option" where
  "read_test_set p f phcs =
     (let r = phc_read p f
      in if fst r then read_test_set (fst (snd r)) (snd (snd r)) (phcs @ [fst (snd r)]) else Some phcs)"

text \<open>The last line. Without a single run \<^verbatim>\<open>front()\<close> is undefined.\<close>

definition overall :: "'p::floor_ceiling bench_lib \<Rightarrow> 'p list \<Rightarrow> string option" where
  "overall lib runTimes =
     (let ts = sort runTimes; n = length ts
      in case (readableTime (bl_fixed lib) (hd ts), readableTime (bl_fixed lib) (ts ! (n div 2)),
               readableTime (bl_fixed lib) (sum_list ts / of_nat n)) of
           (Some best, Some median, Some avg) \<Rightarrow>
             Some (endl @ ''Overall lookup time (best/median/avg): '' @ best @ '' / '' @ median @ '' / '' @ avg @ endl @ endl)
         | _ \<Rightarrow> None)"

datatype benchmark_exit =
    BenchmarkExit bool "console list"
  | BenchmarkThrows fs_error
  | BenchmarkUndefined "console list"

definition benchmark_report :: "'p::floor_ceiling bench_lib \<Rightarrow> (fs_error + 'p list \<times> console list) option \<Rightarrow> benchmark_exit option" where
  "benchmark_report lib result =
     (case result of
        None \<Rightarrow> None
      | Some (Inl e) \<Rightarrow> Some (BenchmarkThrows e)
      | Some (Inr (runTimes, c)) \<Rightarrow>
          (if runTimes = [] then Some (BenchmarkUndefined c)
           else case overall lib runTimes of
                  None \<Rightarrow> None
                | Some s \<Rightarrow> Some (BenchmarkExit True (c @ [Out s]))))"

definition benchmark_main ::
  "'p::floor_ceiling bench_lib \<Rightarrow> (hash \<Rightarrow> int) \<Rightarrow> platform \<Rightarrow> files \<Rightarrow> string \<Rightarrow> benchmark_options parsed \<Rightarrow> benchmark_exit option" where
  "benchmark_main lib est platform fs usage parsed =
     (let c = [Out benchmark_hello]; quote = [CHR 0x27]
      in case parsed of
           Inl e \<Rightarrow> Some (BenchmarkExit False (c @ option_error e usage @ [Out (usage @ endl)]))
         | Inr opts \<Rightarrow>
             (if bo_help opts then Some (BenchmarkExit True (c @ [Out (usage @ endl)]))
              else if bo_warranty opts then Some (BenchmarkExit True (c @ [Out benchmark_warranty]))
              else if bo_license opts then Some (BenchmarkExit True (c @ [Out benchmark_license]))
              else if bo_algorithm opts \<notin> set AlgoList
              then Some (BenchmarkExit False (c @ [Err (''Invalid algorithm '' @ quote @ bo_algorithm opts @ quote @ ''.'' @ endl)]))
              else if bo_input opts = [] \<or> bo_testset opts = [] then Some (BenchmarkExit False (c @ [Out (usage @ endl)]))
              else if fs (bo_input opts) = None
              then Some (BenchmarkExit False
                     (c @ [Err (''ERROR: Input file '' @ quote @ bo_input opts @ quote @ '' doesn'' @ quote @ ''t exist.'' @ endl)]))
              else case fs (bo_testset opts) of
                     None \<Rightarrow>
                       Some (BenchmarkExit False
                         (c @ [Err (''ERROR: Test set file '' @ quote @ bo_testset opts @ quote @ '' doesn'' @ quote @ ''t exist.'' @ endl)]))
                   | Some testset \<Rightarrow>
                       (let search = (if bo_algorithm opts = AlgoBinSearch then binsearch else smart_search est);
                            nRuns = (if bo_runs opts < 1 then DefaultNumberOfRuns else bo_runs opts);
                            c = c @ (if bo_runs opts < 1
                                     then [Out (''Invalid number of runs given. Defaulting to '' @ decimal_int DefaultNumberOfRuns @ endl)] else []);
                            c = c @ (if bo_purge opts then fst (snd (purgeFilesystemCacheOn platform)) else []) @ [Out ''Reading test set ... '']
                        in case read_test_set emptyPHC (open_ifstream testset) [] of
                             None \<Rightarrow> None
                           | Some phcs \<Rightarrow>
                               (let c = c @ [Out (decimal (length phcs) @ '' hashes.'' @ endl)]
                                in if bo_index opts = []
                                   then benchmark_report lib (benchmarkWithoutIndex lib fs (nat nRuns) (bo_input opts) phcs search
                                          (c @ [Out (''Using *'' @ bo_algorithm opts @ ''* algorithm.'' @ endl)]))
                                   else case fs (bo_index opts) of
                                          None \<Rightarrow> Some (BenchmarkThrows (NoSuchFile (bo_index opts)))
                                        | Some e \<Rightarrow>
                                            (if length (fst e) mod 8 = 0
                                             then benchmark_report lib (benchmarkWithIndex lib fs (nat nRuns) (bo_input opts) phcs (bo_index opts)
                                                    (c @ [Out (''Using *binsearch* algorithm with index.'' @ endl)]))
                                             else benchmark_report lib (Some (Inr ([], c @ [Err (''ERROR: Invalid index file.'' @ endl)]))))))))"

section \<open>What a benchmark finds\<close>

lemma readableTime_text: "\<exists>s. readableTime fixed t = Some s"
  by (simp add: readableTime_def string_format_text split: prod.split)

lemma overall_text: "\<exists>s. overall lib ts = Some s"
proof -
  obtain best median avg where "readableTime (bl_fixed lib) (hd (sort ts)) = Some best"
    "readableTime (bl_fixed lib) (sort ts ! (length (sort ts) div 2)) = Some median"
    "readableTime (bl_fixed lib) (sum_list (sort ts) / of_nat (length (sort ts))) = Some avg"
    using readableTime_text by blast
  then show ?thesis by (simp add: overall_def Let_def)
qed

lemma read_test_set_entries:
  assumes "good f" and "contents f = file_of es" and "position f = 20 * i" and "i \<le> length es"
  shows "read_test_set p f acc = Some (acc @ map (set_entry p) (drop i es))"
  using assms
proof (induction "length es - i" arbitrary: i p f acc)
  case 0
  then show ?case by (subst read_test_set.simps) (simp add: phc_read_eof [where es = es])
next
  case (Suc k)
  then have i: "i < length es" by simp
  let ?p = "set_entry p (es ! i)" and ?f = "f\<lparr>position := 20 * Suc i\<rparr>"
  have r: "phc_read p f = (True, ?p, ?f)" by (rule phc_read_entry [OF Suc.prems(1-3) i])
  have "read_test_set ?p ?f (acc @ [?p]) = Some ((acc @ [?p]) @ map (set_entry ?p) (drop (Suc i) es))"
    using Suc i by (intro Suc.hyps(1)) (auto simp: good_def)
  moreover have "map (set_entry ?p) (drop (Suc i) es) = map (set_entry p) (drop (Suc i) es)" by simp
  moreover have "drop i es = es ! i # drop (Suc i) es" using i by (rule Cons_nth_drop_Suc [symmetric])
  ultimately show ?case by (subst read_test_set.simps) (simp add: r)
qed

lemma read_test_set_file: "read_test_set emptyPHC (open_stream (file_of es)) [] = Some (map (set_entry emptyPHC) es)"
  using read_test_set_entries [of "open_stream (file_of es)" es 0] by (simp add: good_def)

context hash_search
begin

text \<open>Every hash of the test set counts as found exactly if the database holds it.\<close>

lemma bench_lookups_counts:
  assumes "ready es d" and "database es"
    and "\<forall>p \<in> set ps. askable es (quad (phc_hash p)) \<and> (\<exists>e \<in> set es. quad (phc_hash p) \<le> fst e)"
  shows "\<exists>r. bench_lookups extra search ps d nReads m k =
    Some (r, m + length (filter (\<lambda>p. quad (phc_hash p) \<in> fst ` set es) ps),
             k + length (filter (\<lambda>p. quad (phc_hash p) \<notin> fst ` set es) ps))"
  using assms
proof (induction ps arbitrary: d nReads m k)
  case (Cons p ps)
  obtain e where e: "e \<in> set es" "quad (phc_hash p) \<le> fst e" "askable es (quad (phc_hash p))"
    using Cons.prems(3) by auto
  obtain q n d' where q: "search d (phc_hash p) = Some (q, n, d')" "found es (quad (phc_hash p)) q" "ready es d'"
    using search_law [OF Cons.prems(1) e(3,1,2)] by blast
  have c: "phc_count q > 0 \<longleftrightarrow> quad (phc_hash p) \<in> fst ` set es"
    using q(2) Cons.prems(2) by (force simp: found_def database_def split: if_splits)
  show ?case
  proof (cases "phc_count q > 0")
    case True
    then show ?thesis
      using Cons.IH [OF q(3) Cons.prems(2), of "nReads + extra + n" "m + 1" k] Cons.prems(3) q(1) c by simp
  next
    case False
    then show ?thesis
      using Cons.IH [OF q(3) Cons.prems(2), of "nReads + extra + n" m "k + 1"] Cons.prems(3) q(1) c by simp
  qed
qed simp

lemma bench_runs_reports:
  assumes "inspector_open_index fs newInspector inputFile index = Inr (ok, d)" and "ready es d" and "database es"
    and "\<forall>p \<in> set ps. askable es (quad (phc_hash p)) \<and> (\<exists>e \<in> set es. quad (phc_hash p) \<le> fst e)"
  shows "\<exists>c'. bench_runs lib extra search fs inputFile index ps nRuns past k ts c =
      Some (Inr (ts @ map (bl_span lib) [past..<past + k], c @ c')) \<and>
    (\<forall>i. past \<le> i \<and> i < past + k \<longrightarrow> (\<exists>r s.
       run_report lib r (length (filter (\<lambda>p. quad (phc_hash p) \<in> fst ` set es) ps))
         (length (filter (\<lambda>p. quad (phc_hash p) \<notin> fst ` set es) ps)) (bl_span lib i) (length ps) = Some s \<and> Out s \<in> set c'))"
proof (induction k arbitrary: past ts c)
  case (Suc k)
  let ?m = "length (filter (\<lambda>p. quad (phc_hash p) \<in> fst ` set es) ps)"
  let ?k = "length (filter (\<lambda>p. quad (phc_hash p) \<notin> fst ` set es) ps)"
  obtain r where r: "bench_lookups extra search ps d 0 0 0 = Some (r, ?m, ?k)"
    using bench_lookups_counts [OF assms(2-4), of extra 0 0 0] by auto
  obtain s where s: "run_report lib r ?m ?k (bl_span lib past) (length ps) = Some s"
    using readableTime_text [of "bl_fixed lib" "bl_span lib past"] by (auto simp: run_report_def)
  let ?c = "[Out (''Benchmark run '' @ decimal (Suc past) @ '' of '' @ decimal nRuns @ '' in progress ... ''), Out s]"
  obtain c' where c': "bench_runs lib extra search fs inputFile index ps nRuns (Suc past) k (ts @ [bl_span lib past]) (c @ ?c) =
      Some (Inr ((ts @ [bl_span lib past]) @ map (bl_span lib) [Suc past..<Suc past + k], (c @ ?c) @ c'))"
    and rep: "\<forall>i. Suc past \<le> i \<and> i < Suc past + k \<longrightarrow> (\<exists>r s. run_report lib r ?m ?k (bl_span lib i) (length ps) = Some s \<and> Out s \<in> set c')"
    using Suc.IH [of "Suc past" "ts @ [bl_span lib past]" "c @ ?c"] by blast
  have whole: "bench_runs lib extra search fs inputFile index ps nRuns past (Suc k) ts c =
      Some (Inr (ts @ map (bl_span lib) [past..<past + Suc k], c @ (?c @ c')))"
  proof -
    have "[past..<past + Suc k] = past # [Suc past..<Suc past + k]" by (simp add: upt_conv_Cons del: upt_Suc)
    then show ?thesis using c' by (simp add: assms(1) r s del: upt_Suc)
  qed
  have "\<exists>r s. run_report lib r ?m ?k (bl_span lib i) (length ps) = Some s \<and> Out s \<in> set (?c @ c')"
    if "past \<le> i" "i < past + Suc k" for i
  proof (cases "i = past")
    case True
    then show ?thesis using s by (intro exI conjI) auto
  next
    case False
    then show ?thesis using rep [THEN spec, of i] that by fastforce
  qed
  with whole show ?case by blast
qed simp

end

text \<open>A benchmark that gets past the checks of its options.\<close>

definition benchmark_opts :: "benchmark_options \<Rightarrow> bool" where
  "benchmark_opts opts \<longleftrightarrow> \<not> bo_help opts \<and> \<not> bo_warranty opts \<and> \<not> bo_license opts \<and> bo_input opts \<noteq> [] \<and> bo_testset opts \<noteq> [] \<and>
     bo_algorithm opts \<in> set AlgoList \<and> bo_index opts = []"

definition number_of_runs :: "benchmark_options \<Rightarrow> nat" where
  "number_of_runs opts = nat (if bo_runs opts < 1 then DefaultNumberOfRuns else bo_runs opts)"

lemma benchmark_main_reports:
  assumes "benchmark_opts opts" and "database es" and "es \<noteq> []"
    and "fs (bo_input opts) = Some (file_of es, True)" and "fs (bo_testset opts) = Some (file_of ts, True)"
    and "\<forall>t \<in> set ts. \<exists>e \<in> set es. fst t \<le> fst e" and "\<forall>h. 0 \<le> est h \<and> est h \<le> 20 * int (length es)"
  shows "\<exists>c. benchmark_main lib est platform fs usage (Inr opts) = Some (BenchmarkExit True c) \<and>
    (\<forall>i < number_of_runs opts. \<exists>r s. run_report lib r (length (filter (\<lambda>t. fst t \<in> fst ` set es) ts))
       (length (filter (\<lambda>t. fst t \<notin> fst ` set es) ts)) (bl_span lib i) (length ts) = Some s \<and> Out s \<in> set c)"
proof -
  let ?ps = "map (set_entry emptyPHC) ts" and ?n = "number_of_runs opts"
  let ?search = "if bo_algorithm opts = AlgoBinSearch then binsearch else smart_search est"
  have op: "inspector_open_index fs newInspector (bo_input opts) [] = Inr (True, inspector_on es)"
    by (rule open_database [of fs, OF assms(4)])
  have ready: "plain_ready es (inspector_on es)" using serves_on [OF assms(2)] by (simp add: plain_ready_def)
  have ps: "\<forall>p \<in> set ?ps. True \<and> (\<exists>e \<in> set es. quad (phc_hash p) \<le> fst e)" using assms(6) by simp
  have n: "0 < ?n" by (simp add: number_of_runs_def DefaultNumberOfRuns_def)
  have runs: "\<exists>c'. bench_runs lib 0 ?search fs (bo_input opts) [] ?ps ?n 0 ?n [] c = Some (Inr (map (bl_span lib) [0..<?n], c @ c')) \<and>
      (\<forall>i < ?n. \<exists>r s. run_report lib r (length (filter (\<lambda>t. fst t \<in> fst ` set es) ts))
         (length (filter (\<lambda>t. fst t \<notin> fst ` set es) ts)) (bl_span lib i) (length ts) = Some s \<and> Out s \<in> set c')" for c
    using plain_search.bench_runs_reports [OF op ready assms(2) ps, of lib 0 ?n 0 ?n "[]" c]
      interpolating_search.bench_runs_reports [OF op conjI [OF ready assms(7)] assms(2) ps, of lib 0 ?n 0 ?n "[]" c]
    by (simp add: o_def filter_map)
  show ?thesis
  proof -
    obtain c0 where main: "benchmark_main lib est platform fs usage (Inr opts) =
        benchmark_report lib (benchmarkWithoutIndex lib fs ?n (bo_input opts) ?ps ?search c0)"
      using assms(1,4,5) by (auto simp: benchmark_main_def benchmark_opts_def Let_def number_of_runs_def open_ifstream_def
          read_test_set_file AlgoList_def)
    obtain c' where c': "benchmarkWithoutIndex lib fs ?n (bo_input opts) ?ps ?search c0 = Some (Inr (map (bl_span lib) [0..<?n], c0 @ c'))"
      and rep: "\<forall>i < ?n. \<exists>r s. run_report lib r (length (filter (\<lambda>t. fst t \<in> fst ` set es) ts))
         (length (filter (\<lambda>t. fst t \<notin> fst ` set es) ts)) (bl_span lib i) (length ts) = Some s \<and> Out s \<in> set c'"
      using runs [of c0] unfolding benchmarkWithoutIndex_def by blast
    obtain s where "overall lib (map (bl_span lib) [0..<?n]) = Some s" using overall_text by blast
    then have "benchmark_main lib est platform fs usage (Inr opts) = Some (BenchmarkExit True ((c0 @ c') @ [Out s]))"
      using n by (simp add: main c' benchmark_report_def)
    then show ?thesis using rep by (intro exI [of _ "(c0 @ c') @ [Out s]"]) fastforce
  qed
qed

section \<open>Properties\<close>

text \<open>C40: A benchmark of a test set that the test set extractor took from the same database finds all of its
  \<open>N\<close> hashes, in every run and with either algorithm.\<close>

theorem benchmark_of_test_set:
  assumes "database es" and "es \<noteq> []" and "fs (bo_input opts) = Some (file_of es, True)"
    and "to_input topts = bo_input opts" and "to_num topts = int N" and "0 < N"
    and "\<not> to_help topts" and "\<not> to_warranty topts" and "\<not> to_license topts" and "to_output topts = bo_testset opts"
    and "\<not> to_nonexistent topts" and "\<not> to_urls topts" and "writable (to_output topts)"
    and "benchmark_opts opts" and "bo_testset opts \<noteq> bo_input opts"
    and "\<forall>h. 0 \<le> est h \<and> est h \<le> 20 * int (length es)"
  shows "\<exists>c bytes c'. test_set_main gen fs writable usage (Inr topts) = Some (TestSetExit True c (Some bytes)) \<and>
    benchmark_main lib est platform (fs(bo_testset opts \<mapsto> (bytes, True))) usage' (Inr opts) = Some (BenchmarkExit True c') \<and>
    (\<forall>i < number_of_runs opts. \<exists>r s. run_report lib r N 0 (bl_span lib i) N = Some s \<and> Out s \<in> set c')"
proof -
  let ?ts = "map (sample es N) [0..<N]"
  let ?fs = "fs(bo_testset opts \<mapsto> (file_of ?ts, True))"
  have names: "to_input topts \<noteq> []" "to_output topts \<noteq> []" using assms(4,10,14) by (simp_all add: benchmark_opts_def)
  obtain c where c: "test_set_main gen fs writable usage (Inr topts) = Some (TestSetExit True c (Some (file_of ?ts)))"
    using test_set_main_samples [of fs topts es N writable gen usage] assms(2-13) names by auto
  have ts: "set ?ts \<subseteq> set es" using sample_in [OF _ assms(2)] by auto
  then have all: "filter (\<lambda>t. fst t \<in> fst ` set es) ?ts = ?ts" "filter (\<lambda>t. fst t \<notin> fst ` set es) ?ts = []"
    by (auto simp: filter_id_conv filter_empty_conv)
  have le: "\<forall>t \<in> set ?ts. \<exists>e \<in> set es. fst t \<le> fst e" using ts by blast
  have fs: "?fs (bo_input opts) = Some (file_of es, True)" "?fs (bo_testset opts) = Some (file_of ?ts, True)"
    using assms(3,15) by simp_all
  obtain c' where "benchmark_main lib est platform ?fs usage' (Inr opts) = Some (BenchmarkExit True c')"
    "\<forall>i < number_of_runs opts. \<exists>r s. run_report lib r (length ?ts) (length ([] :: entry list)) (bl_span lib i) (length ?ts) = Some s \<and> Out s \<in> set c'"
    using benchmark_main_reports [of opts es ?fs ?ts est lib platform usage', OF assms(14,1,2) fs le assms(16)] unfolding all by blast
  then show ?thesis using c by (intro exI [of _ c] exI [of _ "file_of ?ts"] exI [of _ c']) simp
qed

text \<open>One run over a database with three records and a test set of two.\<close>

lemma benchmark_of_test_set_witness:
  "\<exists>c bytes c' r s. test_set_main (\<lambda>_. emptyHash) [''db'' \<mapsto> (file_of [(Quad 1 0, 5), (Quad 2 0, 7), (Quad 3 0, 9)], True)] (\<lambda>_. True) []
       (Inr \<lparr>to_help = False, to_warranty = False, to_license = False, to_input = ''db'', to_output = ''t'', to_num = 2,
             to_nonexistent = False, to_urls = False, to_prefix = []\<rparr>) = Some (TestSetExit True c (Some bytes)) \<and>
    benchmark_main \<lparr>bl_fixed = \<lambda>_ _. ''0'', bl_per = \<lambda>_ _. ''0'', bl_span = \<lambda>_. 1 :: rat\<rparr> (\<lambda>_. 0) Linux
      [''db'' \<mapsto> (file_of [(Quad 1 0, 5), (Quad 2 0, 7), (Quad 3 0, 9)], True), ''t'' \<mapsto> (bytes, True)] []
      (Inr \<lparr>bo_help = False, bo_warranty = False, bo_license = False, bo_input = ''db'', bo_testset = ''t'', bo_runs = 1,
            bo_algorithm = ''smart'', bo_index = [], bo_purge = False\<rparr>) = Some (BenchmarkExit True c') \<and>
    run_report \<lparr>bl_fixed = \<lambda>_ _. ''0'', bl_per = \<lambda>_ _. ''0'', bl_span = \<lambda>_. 1 :: rat\<rparr> r 2 0 1 2 = Some s \<and> Out s \<in> set c'"
proof -
  let ?es = "[(Quad 1 0, 5), (Quad 2 0, 7), (Quad 3 0, 9)] :: entry list" and ?fs = "[''db'' \<mapsto> (file_of [(Quad 1 0, 5), (Quad 2 0, 7), (Quad 3 0, 9)], True)]"
  let ?topts = "\<lparr>to_help = False, to_warranty = False, to_license = False, to_input = ''db'', to_output = ''t'', to_num = 2,
             to_nonexistent = False, to_urls = False, to_prefix = []\<rparr>"
  let ?opts = "\<lparr>bo_help = False, bo_warranty = False, bo_license = False, bo_input = ''db'', bo_testset = ''t'', bo_runs = 1,
            bo_algorithm = ''smart'', bo_index = [], bo_purge = False\<rparr>"
  let ?lib = "\<lparr>bl_fixed = \<lambda>_ _. ''0'', bl_per = \<lambda>_ _. ''0'', bl_span = \<lambda>_. 1 :: rat\<rparr>"
  have db: "database ?es" by (simp add: database_def less_quad_def)
  have opts: "benchmark_opts ?opts" by (simp add: benchmark_opts_def AlgoList_def AlgoSmartBinSearch_def)
  have runs: "number_of_runs ?opts = 1" by (simp add: number_of_runs_def)
  show ?thesis
    using benchmark_of_test_set [OF db, of ?fs ?opts ?topts 2 "\<lambda>_. True" "\<lambda>_. 0" "\<lambda>_. emptyHash" "[]" ?lib Linux "[]"] opts
    unfolding runs by simp
qed

end
