(* ===== verification/Client_Worker.thy ===== *)
theory Client_Worker
  imports Uri Inspector Console
begin

text \<open>
  \<^verbatim>\<open>pwned-server/loadtest/httpclientworker.cpp\<close>: a worker of the load test. It draws a record of the
  database at random, asks the service for its hash, measures the time to the answer, and starts again
  until its time is over. Like the worker of the service it is a chain of asynchronous operations;
  \<open>client_step\<close> says which handler may run when. The clock is an argument wherever it is read, up to three
  times in a handler; times are nanoseconds.
\<close>

section \<open>Data\<close>

text \<open>Error codes: those the code treats specially and all others, with their message and value.\<close>

datatype error_kind = StreamEof | StreamTruncated | NotConnected | OtherKind

type_synonym error_code = "(error_kind \<times> string \<times> int) option"

text \<open>The numbers drawn from \<^verbatim>\<open>mt19937_64\<close>, setting the host name of a TLS connection and parsing JSON
  (with the message of an error), and \<^verbatim>\<open>boost::split\<close>.\<close>

record client_env =
  ce_gen :: "nat \<Rightarrow> u64"
  ce_sni :: "string \<Rightarrow> string option"
  ce_json :: "string \<Rightarrow> string option"
  ce_split :: splitter

datatype client_pending = Resolving | Connecting | Handshaking | SendingRequest | AwaitingAnswer | ShuttingDown

record client_request =
  cr_version :: int
  cr_target :: string
  cr_fields :: "(string \<times> string) list"

record client =
  k_uri :: uri
  k_file :: "u8 istream"
  k_size :: int
  k_drawn :: nat
  k_t0 :: int
  k_t1 :: int
  k_tStop :: int
  k_count :: u64
  k_rttT0 :: int
  k_rtts :: "int list"
  k_resolved :: bool
  k_ssl :: bool
  k_req :: client_request
  k_body :: string
  k_pending :: "client_pending list"
  k_console :: "console list"

definition ExpiresAfterSecs :: int where
  "ExpiresAfterSecs = 30"

section \<open>Handlers\<close>

definition client_say :: "string \<Rightarrow> client \<Rightarrow> client" where
  "client_say s k = k\<lparr>k_console := k_console k @ [Err (s @ endl)]\<rparr>"

definition client_fail :: "error_kind \<times> string \<times> int \<Rightarrow> string \<Rightarrow> client \<Rightarrow> client" where
  "client_fail ec what k = client_say (what @ '': '' @ fst (snd ec) @ '' #'' @ decimal_int (snd (snd ec))) k"

definition client_async :: "client_pending \<Rightarrow> client \<Rightarrow> client" where
  "client_async p k = k\<lparr>k_pending := p # k_pending k\<rparr>"

text \<open>What the constructor may throw.\<close>

datatype client_error = NoInput fs_error | BadAddress number_error

definition newClient :: "client_env \<Rightarrow> files \<Rightarrow> int \<Rightarrow> string \<Rightarrow> string \<Rightarrow> int \<Rightarrow> client_error + client" where
  "newClient env fs now address inputFilename runtimeSecs =
     (case fs inputFilename of
        None \<Rightarrow> Inl (NoInput (NoSuchFile inputFilename))
      | Some e \<Rightarrow>
          (case URI (ce_split env) address of
             Inl e \<Rightarrow> Inl (BadAddress e)
           | Inr u \<Rightarrow>
               Inr \<lparr>k_uri = u, k_file = open_ifstream e, k_size = int (length (fst e)), k_drawn = 0, k_t0 = now,
                    k_t1 = now + runtimeSecs * 10 ^ 9, k_tStop = 0, k_count = 0, k_rttT0 = 0, k_rtts = [], k_resolved = False,
                    k_ssl = False, k_req = \<lparr>cr_version = 11, cr_target = [], cr_fields = []\<rparr>, k_body = [], k_pending = [],
                    k_console = []\<rparr>))"

definition client_connect :: "client \<Rightarrow> client" where
  "client_connect k = client_async Connecting k"

text \<open>The record at a random position, and the request that asks for it. An empty input divides by
  zero (\<open>None\<close>).\<close>

definition client_draw :: "client_env \<Rightarrow> client \<Rightarrow> (bool \<times> phc \<times> client) option" where
  "client_draw env k =
     (if k_size k = 0 then None
      else let pos = uint (ce_gen env (k_drawn k)) mod k_size k;
               idx = pos - pos mod phc_size;
               r = phc_read_at emptyPHC (k_file k) idx
           in Some (fst r, fst (snd r), k\<lparr>k_drawn := k_drawn k + 1, k_file := snd (snd r)\<rparr>))"

definition client_ask :: "hash \<Rightarrow> client \<Rightarrow> client" where
  "client_ask h k =
     k\<lparr>k_req := \<lparr>cr_version = 11, cr_target = mPath (k_uri k) @ ''?hash='' @ toString False h,
                 cr_fields = [(''Host'', mHost (k_uri k)), (''User-Agent'', ''#pwned load test'')]\<rparr>\<rparr>"

definition client_send :: "client_env \<Rightarrow> int \<Rightarrow> client \<Rightarrow> client option" where
  "client_send env now k =
     (case client_draw env k of
        None \<Rightarrow> None
      | Some (ok, p, k) \<Rightarrow>
          (if \<not> ok then Some (client_say ''ERROR while reading from input file.'' k)
           else let k = (client_ask (phc_hash p) k)\<lparr>k_rttT0 := now\<rparr>
                in Some (if k_resolved k then client_connect k else client_async Resolving k)))"

definition client_start :: "client_env \<Rightarrow> int \<Rightarrow> client \<Rightarrow> client option" where
  "client_start env now k =
     (if \<not> opened (k_file k) then Some (client_say ''ERROR: Input file cannot be read.'' k)
      else if mScheme (k_uri k) = ''https''
      then (case ce_sni env (mHost (k_uri k)) of
              Some what \<Rightarrow> Some (client_say (''ERROR: '' @ what) (k\<lparr>k_ssl := True\<rparr>))
            | None \<Rightarrow> client_send env now (k\<lparr>k_ssl := True\<rparr>))
      else client_send env now k)"

definition onResolve :: "error_code \<Rightarrow> client \<Rightarrow> client" where
  "onResolve ec k =
     (case ec of Some e \<Rightarrow> client_fail e ''resolve'' k | None \<Rightarrow> client_connect (k\<lparr>k_resolved := True\<rparr>))"

definition onConnect :: "error_code \<Rightarrow> client \<Rightarrow> client" where
  "onConnect ec k =
     (case ec of
        Some e \<Rightarrow> client_fail e ''connect'' k
      | None \<Rightarrow> client_async (if k_ssl k then Handshaking else SendingRequest) k)"

definition onHandshake :: "error_code \<Rightarrow> client \<Rightarrow> client" where
  "onHandshake ec k =
     (case ec of Some e \<Rightarrow> client_fail e ''handshake'' k | None \<Rightarrow> client_async SendingRequest k)"

definition onWrite :: "error_code \<Rightarrow> client \<Rightarrow> client" where
  "onWrite ec k = (case ec of Some e \<Rightarrow> client_fail e ''write'' k | None \<Rightarrow> client_async AwaitingAnswer k)"

text \<open>The clock is read at \<open>now\<close> for the check of the deadline, and at \<open>begun\<close> in \<^verbatim>\<open>start()\<close>, after the
  record was read.\<close>

definition client_restart :: "client_env \<Rightarrow> int \<Rightarrow> int \<Rightarrow> client \<Rightarrow> client option" where
  "client_restart env now begun k =
     (let k = k\<lparr>k_body := [], k_tStop := now\<rparr>
      in if now < k_t1 k then client_start env begun (k\<lparr>k_ssl := False\<rparr>) else Some k)"

text \<open>\<open>arrived\<close> is the time at which the answer has been parsed, \<open>body\<close> is the answer, \<open>ec'\<close> what
  shutting down the plain socket reports.\<close>

definition onRead :: "client_env \<Rightarrow> int \<Rightarrow> int \<Rightarrow> int \<Rightarrow> error_code \<Rightarrow> string \<Rightarrow> error_code \<Rightarrow> client \<Rightarrow> client option" where
  "onRead env arrived now begun ec body ec' k =
     (case ec of
        Some e \<Rightarrow> Some (client_fail e ''read'' k)
      | None \<Rightarrow>
          (let k = k\<lparr>k_body := body\<rparr>
           in case ce_json env body of
                Some what \<Rightarrow> Some (client_say (''ERROR in read_json(): '' @ what) k)
              | None \<Rightarrow>
                  (let k = k\<lparr>k_rtts := k_rtts k @ [arrived - k_rttT0 k], k_count := k_count k + 1\<rparr>
                   in if k_ssl k then Some (client_async ShuttingDown k)
                      else case ec' of
                             None \<Rightarrow> client_restart env now begun k
                           | Some e \<Rightarrow>
                               (if fst e \<noteq> NotConnected then Some (client_fail e ''shutdown'' k)
                                else client_restart env now begun k))))"

definition onShutdown :: "client_env \<Rightarrow> int \<Rightarrow> int \<Rightarrow> error_code \<Rightarrow> client \<Rightarrow> client option" where
  "onShutdown env now begun ec k =
     (case ec of
        None \<Rightarrow> client_restart env now begun k
      | Some e \<Rightarrow>
          (if fst e = StreamEof \<or> fst e = StreamTruncated then client_restart env now begun k
           else Some (client_fail e ''shutdown'' k)))"

definition client_dt :: "client \<Rightarrow> int" where
  "client_dt k = k_tStop k - k_t0 k"

section \<open>Events\<close>

datatype client_event =
    Resolved error_code
  | Connected error_code
  | HandshakeDone error_code
  | RequestSent error_code
  | AnswerRead int int int error_code string error_code
  | ShutDownDone int int error_code

definition client_takes :: "client_pending \<Rightarrow> client \<Rightarrow> client" where
  "client_takes p k = k\<lparr>k_pending := remove1 p (k_pending k)\<rparr>"

inductive client_step :: "client_env \<Rightarrow> client \<Rightarrow> client_event \<Rightarrow> client \<Rightarrow> bool" for env where
  Resolved: "Resolving \<in> set (k_pending k) \<Longrightarrow>
    client_step env k (Resolved ec) (onResolve ec (client_takes Resolving k))"
| Connected: "Connecting \<in> set (k_pending k) \<Longrightarrow>
    client_step env k (Connected ec) (onConnect ec (client_takes Connecting k))"
| HandshakeDone: "Handshaking \<in> set (k_pending k) \<Longrightarrow>
    client_step env k (HandshakeDone ec) (onHandshake ec (client_takes Handshaking k))"
| RequestSent: "SendingRequest \<in> set (k_pending k) \<Longrightarrow>
    client_step env k (RequestSent ec) (onWrite ec (client_takes SendingRequest k))"
| AnswerRead: "AwaitingAnswer \<in> set (k_pending k) \<Longrightarrow>
    onRead env arrived now begun ec body ec' (client_takes AwaitingAnswer k) = Some k' \<Longrightarrow>
    client_step env k (AnswerRead arrived now begun ec body ec') k'"
| ShutDownDone: "ShuttingDown \<in> set (k_pending k) \<Longrightarrow>
    onShutdown env now begun ec (client_takes ShuttingDown k) = Some k' \<Longrightarrow>
    client_step env k (ShutDownDone now begun ec) k'"

inductive client_reaches :: "client_env \<Rightarrow> client \<Rightarrow> client_event list \<Rightarrow> client \<Rightarrow> bool" for env where
  start: "client_reaches env k [] k"
| step: "client_reaches env k evs k' \<Longrightarrow> client_step env k' ev k'' \<Longrightarrow> client_reaches env k (evs @ [ev]) k''"

inductive_cases client_stepE: "client_step env k ev k'"

section \<open>The invariant of a load test worker\<close>

text \<open>The input file is in order, the numbers agree, and TLS is only used for https.\<close>

definition client_ok :: "entry list \<Rightarrow> client \<Rightarrow> bool" where
  "client_ok es k \<longleftrightarrow> reads (k_file k) es \<and> k_size k = 20 * int (length es) \<and>
     k_count k = of_nat (length (k_rtts k)) \<and> (k_ssl k \<longrightarrow> mScheme (k_uri k) = ''https'')"

text \<open>Nothing in flight, and every request so far was answered.\<close>

definition client_idle :: "entry list \<Rightarrow> client \<Rightarrow> bool" where
  "client_idle es k \<longleftrightarrow> client_ok es k \<and> k_pending k = [] \<and> k_drawn k = length (k_rtts k)"

definition asks_for :: "entry list \<Rightarrow> client \<Rightarrow> bool" where
  "asks_for es k \<longleftrightarrow> (\<exists>e \<in> set es. \<exists>h. quad h = fst e \<and>
     cr_target (k_req k) = mPath (k_uri k) @ ''?hash='' @ toString False h)"

text \<open>One operation in flight for a request that asks for a record of the database; it is the first
  one, or the deadline had not passed at the last check; TLS is used exactly for https, and only with it there are handshakes and shutdowns.\<close>

definition before_deadline :: "client \<Rightarrow> bool" where
  "before_deadline k \<longleftrightarrow> k_drawn k = 1 \<or> k_tStop k < k_t1 k"

definition in_flight :: "entry list \<Rightarrow> client_pending \<Rightarrow> client \<Rightarrow> bool" where
  "in_flight es p k \<longleftrightarrow> client_ok es k \<and> asks_for es k \<and> before_deadline k \<and>
     (k_ssl k \<longleftrightarrow> mScheme (k_uri k) = ''https'') \<and> (p \<in> {Handshaking, ShuttingDown} \<longrightarrow> k_ssl k) \<and>
     (p \<noteq> Resolving \<longrightarrow> k_resolved k) \<and> k_drawn k = length (k_rtts k) + (if p = ShuttingDown then 0 else 1)"

definition client_inv :: "entry list \<Rightarrow> client \<Rightarrow> bool" where
  "client_inv es k \<longleftrightarrow> client_ok es k \<and> (k_pending k = [] \<or> (\<exists>p. k_pending k = [p] \<and> in_flight es p k))"

lemmas client_defs = client_ok_def client_say_def client_fail_def client_async_def client_connect_def client_takes_def
  client_ask_def asks_for_def

lemma client_draw_record:
  assumes "client_ok es k" and "es \<noteq> []"
  shows "\<exists>i f. i < length es \<and> reads f es \<and>
    client_draw env k = Some (True, set_entry emptyPHC (es ! i), k\<lparr>k_drawn := k_drawn k + 1, k_file := f\<rparr>)"
proof -
  let ?pos = "uint (ce_gen env (k_drawn k)) mod (20 * int (length es))"
  define i where "i = nat (?pos div 20)"
  have k: "reads (k_file k) es" "k_size k = 20 * int (length es)" using assms(1) by (simp_all add: client_ok_def)
  have "0 \<le> ?pos" "?pos < 20 * int (length es)" using assms(2) by simp_all
  then have i: "i < length es" "20 * int i = ?pos - ?pos mod 20"
    by (auto simp: i_def minus_mod_eq_mult_div nat_less_iff)
  have "phc_read_at emptyPHC (k_file k) (?pos - ?pos mod phc_size) =
      (True, set_entry emptyPHC (es ! i), (k_file k)\<lparr>eofbit := False, position := 20 * Suc i\<rparr>)"
    using phc_read_at_entry [OF k(1) i(1), of emptyPHC] unfolding i(2) by (simp add: phc_size_def)
  then show ?thesis
    using i(1) k assms(2) by (intro exI [of _ i] exI conjI) (auto simp: client_draw_def Let_def)
qed

lemma client_say_inv: "client_ok es k \<Longrightarrow> k_pending k = [] \<Longrightarrow> client_inv es (client_say s k)"
  by (simp add: client_inv_def client_defs)

lemma client_send_inv:
  assumes "client_idle es k" and "es \<noteq> []" and "k_drawn k = 0 \<or> k_tStop k < k_t1 k" and "k_ssl k \<longleftrightarrow> mScheme (k_uri k) = ''https''"
  shows "\<exists>k'. client_send env now k = Some k' \<and> client_inv es k'"
proof -
  have k: "client_ok es k" "k_pending k = []" "k_drawn k = length (k_rtts k)"
    using assms(1) by (simp_all add: client_idle_def)
  obtain i f where d: "i < length es" "reads f es"
    "client_draw env k = Some (True, set_entry emptyPHC (es ! i), k\<lparr>k_drawn := k_drawn k + 1, k_file := f\<rparr>)"
    using client_draw_record [OF k(1) assms(2)] by blast
  let ?k2 = "(client_ask (phc_hash (set_entry emptyPHC (es ! i))) (k\<lparr>k_drawn := k_drawn k + 1, k_file := f\<rparr>))\<lparr>k_rttT0 := now\<rparr>"
  have a: "asks_for es ?k2"
    using d(1) unfolding asks_for_def by (intro bexI [of _ "es ! i"] exI [of _ "phc_hash (set_entry emptyPHC (es ! i))"]) (auto simp: client_ask_def)
  have two: "client_ok es ?k2" "k_pending ?k2 = []" "before_deadline ?k2" "k_ssl ?k2 \<longleftrightarrow> mScheme (k_uri ?k2) = ''https''"
      "k_drawn ?k2 = length (k_rtts ?k2) + 1"
    using k d(2) assms(3,4) by (auto simp: client_ask_def client_ok_def before_deadline_def)
  have "client_inv es (client_async p ?k2)" if "p \<in> {Resolving, Connecting}" "p \<noteq> Resolving \<longrightarrow> k_resolved ?k2" for p
    using two a that by (auto simp: client_inv_def in_flight_def client_async_def client_ok_def asks_for_def before_deadline_def)
  then show ?thesis by (simp add: client_send_def d(3) Let_def client_connect_def)
qed

lemma client_start_inv:
  assumes "client_idle es k" and "es \<noteq> []" and "k_drawn k = 0 \<or> k_tStop k < k_t1 k"
  shows "\<exists>k'. client_start env now k = Some k' \<and> client_inv es k'"
proof (cases "mScheme (k_uri k) = ''https''")
  case True
  let ?k = "k\<lparr>k_ssl := True\<rparr>"
  have k: "client_idle es ?k" "k_drawn ?k = 0 \<or> k_tStop ?k < k_t1 ?k" "opened (k_file k)"
    using assms(1,3) True by (auto simp: client_idle_def client_ok_def reads_def)
  show ?thesis
  proof (cases "ce_sni env (mHost (k_uri k))")
    case None
    then show ?thesis using client_send_inv [OF k(1) assms(2) k(2), of env] True k(3) by (simp add: client_start_def)
  next
    case (Some what)
    then show ?thesis using k(1,3) True client_say_inv [of es ?k] by (simp add: client_start_def client_idle_def)
  qed
next
  case False
  then have "\<not> k_ssl k" "opened (k_file k)" using assms(1) by (auto simp: client_idle_def client_ok_def reads_def)
  then show ?thesis using client_send_inv [OF assms, of env] False by (simp add: client_start_def)
qed

lemma client_restart_inv:
  assumes "client_idle es k" and "es \<noteq> []"
  shows "\<exists>k'. client_restart env now begun k = Some k' \<and> client_inv es k'"
proof -
  let ?k = "k\<lparr>k_body := [], k_tStop := now\<rparr>"
  have "client_idle es (?k\<lparr>k_ssl := False\<rparr>)" "client_inv es ?k"
    using assms(1) by (auto simp: client_idle_def client_ok_def client_inv_def)
  then show ?thesis using client_start_inv [of es "?k\<lparr>k_ssl := False\<rparr>" env begun] assms(2) by (simp add: client_restart_def Let_def)
qed

text \<open>A handler takes over an operation and starts the next one, or reports an error.\<close>

lemma client_takes_in_flight:
  assumes "client_inv es k" and "p \<in> set (k_pending k)"
  shows "in_flight es p (client_takes p k)" and "k_pending (client_takes p k) = []"
proof -
  from assms obtain q where q: "k_pending k = [q]" "in_flight es q k" by (auto simp: client_inv_def)
  then have "q = p" using assms(2) by simp
  with q show "in_flight es p (client_takes p k)" "k_pending (client_takes p k) = []"
    by (auto simp: client_takes_def in_flight_def client_ok_def asks_for_def before_deadline_def)
qed

lemma in_flight_fail: "in_flight es p k \<Longrightarrow> k_pending k = [] \<Longrightarrow> client_inv es (client_fail ec what k)"
  unfolding client_fail_def by (rule client_say_inv) (simp_all add: in_flight_def)

lemma in_flight_next:
  assumes "in_flight es p k" and "k_pending k = []" and "p \<noteq> ShuttingDown" and "q \<notin> {Resolving, ShuttingDown}" and "k_resolved k"
    and "q = Handshaking \<longrightarrow> k_ssl k"
  shows "client_inv es (client_async q k)"
  using assms by (auto simp: client_inv_def in_flight_def client_async_def client_ok_def asks_for_def before_deadline_def)

lemma onRead_inv:
  assumes "in_flight es AwaitingAnswer k" and "k_pending k = []" and "es \<noteq> []"
  shows "\<exists>k'. onRead env arrived now begun ec body ec' k = Some k' \<and> client_inv es k'"
proof -
  let ?k = "k\<lparr>k_body := body, k_rtts := k_rtts k @ [arrived - k_rttT0 k], k_count := k_count k + 1\<rparr>"
  have k: "in_flight es AwaitingAnswer (k\<lparr>k_body := body\<rparr>)" "k_pending (k\<lparr>k_body := body\<rparr>) = []"
    using assms(1,2) by (auto simp: in_flight_def client_ok_def asks_for_def before_deadline_def)
  have ok: "client_ok es ?k" using assms(1) by (simp add: in_flight_def client_ok_def)
  have idle: "client_idle es ?k" using ok assms(1,2) by (simp add: client_idle_def in_flight_def)
  have down: "k_ssl k \<Longrightarrow> client_inv es (client_async ShuttingDown ?k)"
    using ok assms(1,2) by (auto simp: client_inv_def in_flight_def client_async_def client_ok_def asks_for_def before_deadline_def)
  have "client_inv es (client_fail e ''shutdown'' ?k)" for e
    unfolding client_fail_def by (rule client_say_inv [OF ok]) (simp add: assms(2))
  then show ?thesis
    using in_flight_fail [OF assms(1,2)] client_say_inv [of es "k\<lparr>k_body := body\<rparr>"] k down client_restart_inv [OF idle assms(3), of env now begun]
    by (auto simp: onRead_def Let_def in_flight_def split: option.split)
qed

text \<open>What an answer adds to the numbers.\<close>

definition read_counted :: "client_env \<Rightarrow> int \<Rightarrow> error_code \<Rightarrow> string \<Rightarrow> client \<Rightarrow> client \<Rightarrow> bool" where
  "read_counted env arrived ec body k k' \<longleftrightarrow>
     (if ec = None \<and> ce_json env body = None
      then k_rtts k' = k_rtts k @ [arrived - k_rttT0 k] \<and> k_count k' = k_count k + 1
      else k_rtts k' = k_rtts k \<and> k_count k' = k_count k \<and> k_pending k' = [])"

lemma client_start_counts:
  assumes "client_start env now k = Some k'"
  shows "k_rtts k' = k_rtts k \<and> k_count k' = k_count k"
  using assms
  by (auto simp: client_start_def client_send_def client_draw_def client_defs Let_def split: if_splits option.splits)

lemma client_restart_counts:
  assumes "client_restart env now begun k = Some k'"
  shows "k_rtts k' = k_rtts k \<and> k_count k' = k_count k"
  using assms client_start_counts [of env begun _ k'] by (fastforce simp: client_restart_def Let_def split: if_splits)

lemma onRead_counted:
  assumes "onRead env arrived now begun ec body ec' k = Some k'" and "k_pending k = []"
  shows "read_counted env arrived ec body k k'"
proof (cases "ec = None \<and> ce_json env body = None")
  case True
  let ?k = "k\<lparr>k_body := body, k_rtts := k_rtts k @ [arrived - k_rttT0 k], k_count := k_count k + 1\<rparr>"
  have "k_rtts k' = k_rtts ?k \<and> k_count k' = k_count ?k"
    using assms(1) True client_restart_counts [of env now begun ?k k']
    by (auto simp: onRead_def Let_def client_defs split: if_splits option.splits)
  then show ?thesis using True by (simp add: read_counted_def)
next
  case False
  then show ?thesis
    using assms by (auto simp: onRead_def read_counted_def Let_def client_defs split: option.splits)
qed

lemma answer_read:
  assumes "client_inv es k" and "AwaitingAnswer \<in> set (k_pending k)" and "es \<noteq> []"
  shows "\<exists>k'. client_step env k (AnswerRead arrived now begun ec body ec') k' \<and> read_counted env arrived ec body k k'"
proof -
  note t = client_takes_in_flight [OF assms(1,2)]
  obtain k' where k': "onRead env arrived now begun ec body ec' (client_takes AwaitingAnswer k) = Some k'"
    using onRead_inv [OF t assms(3), of env arrived now begun ec body ec'] by blast
  have "read_counted env arrived ec body k k'"
    using onRead_counted [OF k' t(2)] by (simp add: read_counted_def client_takes_def)
  with client_step.AnswerRead [OF assms(2) k'] show ?thesis by blast
qed

lemma onShutdown_inv:
  assumes "in_flight es ShuttingDown k" and "k_pending k = []" and "es \<noteq> []"
  shows "\<exists>k'. onShutdown env now begun ec k = Some k' \<and> client_inv es k'"
proof -
  have "client_idle es k" using assms(1,2) by (simp add: client_idle_def in_flight_def)
  then show ?thesis
    using client_restart_inv [OF _ assms(3), of k env now begun] in_flight_fail [OF assms(1,2)]
    by (auto simp: onShutdown_def split: option.split)
qed

lemma client_step_inv:
  assumes "client_step env k ev k'" and "client_inv es k" and "es \<noteq> []"
  shows "client_inv es k'"
  using assms(1)
proof (cases rule: client_step.cases)
  case (Resolved ec)
  note t = client_takes_in_flight [OF assms(2) Resolved(3)]
  have "in_flight es Connecting ((client_takes Resolving k)\<lparr>k_resolved := True\<rparr>)"
    using t(1) by (auto simp: in_flight_def client_ok_def asks_for_def before_deadline_def)
  then have "client_inv es (client_connect ((client_takes Resolving k)\<lparr>k_resolved := True\<rparr>))"
    unfolding client_connect_def by (rule in_flight_next) (use t(2) in simp_all)
  then show ?thesis using Resolved(2) in_flight_fail [OF t] by (simp add: onResolve_def split: option.split)
next
  case (Connected ec)
  note t = client_takes_in_flight [OF assms(2) Connected(3)]
  have r: "k_resolved (client_takes Connecting k)" using t(1) by (simp add: in_flight_def)
  show ?thesis
    using Connected(2) in_flight_fail [OF t] in_flight_next [OF t _ _ r]
    by (simp add: onConnect_def split: option.split)
next
  case (HandshakeDone ec)
  note t = client_takes_in_flight [OF assms(2) HandshakeDone(3)]
  have r: "k_resolved (client_takes Handshaking k)" using t(1) by (simp add: in_flight_def)
  show ?thesis
    using HandshakeDone(2) in_flight_fail [OF t] in_flight_next [OF t _ _ r, of SendingRequest]
    by (simp add: onHandshake_def split: option.split)
next
  case (RequestSent ec)
  note t = client_takes_in_flight [OF assms(2) RequestSent(3)]
  have r: "k_resolved (client_takes SendingRequest k)" using t(1) by (simp add: in_flight_def)
  show ?thesis
    using RequestSent(2) in_flight_fail [OF t] in_flight_next [OF t _ _ r, of AwaitingAnswer]
    by (simp add: onWrite_def split: option.split)
next
  case (AnswerRead arrived now begun ec body ec')
  then show ?thesis using onRead_inv [OF client_takes_in_flight [OF assms(2) AnswerRead(2)] assms(3), of env arrived now begun ec body ec'] by auto
next
  case (ShutDownDone now begun ec)
  then show ?thesis using onShutdown_inv [OF client_takes_in_flight [OF assms(2) ShutDownDone(2)] assms(3), of env now begun ec] by auto
qed

lemma client_reaches_inv:
  assumes "client_reaches env k evs k'" and "client_inv es k" and "es \<noteq> []"
  shows "client_inv es k'"
  using assms by (induction rule: client_reaches.induct) (auto dest: client_step_inv)

lemma newClient_idle:
  assumes "newClient env fs now address f secs = Inr k" and "fs f = Some (file_of es, True)"
  shows "client_idle es k" and "k_drawn k = 0"
  using assms by (auto simp: newClient_def client_idle_def client_ok_def open_ifstream_def split: sum.splits)

end
