(* ===== verification/Load_Test.thy ===== *)
theory Load_Test
  imports Client_Worker Server Util_System
begin

text \<open>
  \<^verbatim>\<open>pwned-server/loadtest/loadtest.cpp\<close>: the load test from its command line to the workers it starts, its
  progress and its summary; and the load test together with the service it runs against.
\<close>

section \<open>The tool\<close>

definition load_hello :: string where
  "load_hello = ''#pwned server load test 1.0 - Copyright (c) 2019 Oliver Lau'' @ endl @ endl"

definition load_license :: string where
  "load_license =
     ''This program comes with ABSOLUTELY NO WARRANTY; for details type'' @ endl @
     [CHR 0x60] @ ''loadtest --warranty'' @ [CHR 0x27] @ ''.'' @ endl @
     ''This is free software, and you are welcome to redistribute it'' @ endl @
     ''under certain conditions; see https://www.gnu.org/licenses/gpl-3.0.en.html'' @ endl @
     ''for details.'' @ endl @ endl"

definition load_warranty :: string where
  "load_warranty = warranty_text"

text \<open>The line that shows how far the test is, and whether the timer is set again. The clock of the first
  worker counts; both numbers are cut off at the size of their buffers.\<close>

definition load_progress :: "(nat \<Rightarrow> 'p \<Rightarrow> string) \<Rightarrow> int \<Rightarrow> client \<Rightarrow> 'p::floor_ceiling \<Rightarrow> console \<times> bool" where
  "load_progress fixed now k timeoutSecs =
     (let dt = of_int (now - k_t0 k) / 10 ^ 9; bufSize = 20;
          tBuf = snd (vsnprintf (fixed 2 dt) bufSize);
          pctBuf = snd (vsnprintf (decimal_int (round_half (100 * dt / timeoutSecs))) bufSize)
      in (Out ([CHR 0x0D] @ tBuf @ ''s ('' @ pctBuf @ ''%)''), dt < timeoutSecs))"

record load_options =
  lo_help :: bool
  lo_input :: string
  lo_address :: string
  lo_secs :: int
  lo_workers :: int
  lo_threads :: int

definition LoadDefaultAddress :: string where
  "LoadDefaultAddress = ''http://127.0.0.1:31337/v1/pwned/api/lookup''"

definition LoadDefaultNumWorkers :: int where
  "LoadDefaultNumWorkers = 64"

definition LoadDefaultRuntimeSecs :: int where
  "LoadDefaultRuntimeSecs = 10"

definition load_workers :: "load_options \<Rightarrow> int" where
  "load_workers opts = (if lo_workers opts < 1 then LoadDefaultNumWorkers else lo_workers opts)"

definition load_secs :: "load_options \<Rightarrow> int" where
  "load_secs opts = (if lo_secs opts < 1 then LoadDefaultRuntimeSecs else lo_secs opts)"

definition load_banner :: "load_options \<Rightarrow> console list" where
  "load_banner opts =
     (let plural = (\<lambda>n :: int. if n = 1 then [] else ''s'')
      in (if lo_workers opts < 1
          then [Out (''WARNING: Illegal number of workers given. Defaulting to '' @ decimal_int LoadDefaultNumWorkers @ ''.'' @ endl)] else []) @
         (if lo_secs opts < 1
          then [Out (''WARNING: Illegal runtime given. Defaulting to '' @ decimal_int LoadDefaultRuntimeSecs @ '' seconds.'' @ endl)] else []) @
         [Out (''Running load test on '' @ lo_address opts @
               '' in '' @ decimal_int (load_workers opts) @ '' worker'' @ plural (load_workers opts) @
               '' in '' @ decimal_int (lo_threads opts) @ '' thread'' @ plural (lo_threads opts) @
               '' for '' @ decimal_int (load_secs opts) @ '' seconds ... '' @ endl)])"

text \<open>The loop that creates and starts the workers \<open>wid\<close>, \<open>wid + 1\<close>, \<dots>; every worker has its own random
  generator, is made at the time \<open>now wid\<close> and begins its first request at \<open>begun wid\<close>. \<open>None\<close> is a
  division by zero.\<close>

primrec start_clients ::
  "(nat \<Rightarrow> client_env) \<Rightarrow> files \<Rightarrow> (nat \<Rightarrow> int) \<Rightarrow> (nat \<Rightarrow> int) \<Rightarrow> string \<Rightarrow> string \<Rightarrow> int \<Rightarrow> nat \<Rightarrow> nat \<Rightarrow> (client_error + client list) option" where
  "start_clients envs fs now begun address inputFilename secs wid 0 = Some (Inr [])"
| "start_clients envs fs now begun address inputFilename secs wid (Suc n) =
     (case newClient (envs wid) fs (now wid) address inputFilename secs of
        Inl e \<Rightarrow> Some (Inl e)
      | Inr k \<Rightarrow>
          (case client_start (envs wid) (begun wid) k of
             None \<Rightarrow> None
           | Some k \<Rightarrow>
               (case start_clients envs fs now begun address inputFilename secs (Suc wid) n of
                  None \<Rightarrow> None
                | Some (Inl e) \<Rightarrow> Some (Inl e)
                | Some (Inr ks) \<Rightarrow> Some (Inr (k # ks)))))"

datatype load_run =
    LoadExit bool "console list"
  | LoadRunning "console list" "client list"
  | LoadCrash

text \<open>Texts of exceptions, and the error of loading the root certificates.\<close>

record load_lib =
  ll_client_what :: "client_error \<Rightarrow> string"
  ll_length_what :: string
  ll_certs :: "string option"

text \<open>\<^verbatim>\<open>main\<close> up to \<^verbatim>\<open>ioc.run()\<close>. A negative number of threads makes \<^verbatim>\<open>reserve\<close> throw.\<close>

definition load_main :: "load_lib \<Rightarrow> (nat \<Rightarrow> client_env) \<Rightarrow> files \<Rightarrow> (nat \<Rightarrow> int) \<Rightarrow> (nat \<Rightarrow> int) \<Rightarrow> string \<Rightarrow> load_options parsed \<Rightarrow> load_run" where
  "load_main lib envs fs now begun usage parsed =
     (case parsed of
        Inl e \<Rightarrow> LoadExit False (option_error e usage)
      | Inr opts \<Rightarrow>
          (let c = [Out load_hello]; failed = (\<lambda>c what. LoadExit False (c @ [Err (''ERROR: '' @ what @ endl)]))
           in if lo_help opts then LoadExit True (c @ [Out (usage @ endl)])
              else if lo_input opts = []
              then LoadExit False (c @ [Err (''ERROR: input file not given.'' @ endl), Out (usage @ endl)])
              else let c = c @ load_banner opts
                   in case URI (ce_split (envs 0)) (lo_address opts) of
                        Inl e \<Rightarrow> failed c (ll_client_what lib (BadAddress e))
                      | Inr u \<Rightarrow>
                          (let c = c @ (case ll_certs lib of None \<Rightarrow> [] | Some what \<Rightarrow> [Err (what @ endl)])
                           in case start_clients envs fs now begun (lo_address opts) (lo_input opts) (load_secs opts) 0 (nat (load_workers opts)) of
                                None \<Rightarrow> LoadCrash
                              | Some (Inl e) \<Rightarrow> failed c (ll_client_what lib e)
                              | Some (Inr ks) \<Rightarrow>
                                  (if lo_threads opts < 0 then failed c (ll_length_what lib) else LoadRunning c ks))))"

text \<open>The summary. \<open>num\<close> prints a double, \<open>wide\<close> does so in a field, \<open>rate\<close> is the text of the requests per
  second, which divides by a run time that may be 0.\<close>

definition total_requests :: "client list \<Rightarrow> u64" where
  "total_requests ks = foldl (\<lambda>n k. n + k_count k) 0 ks"

definition total_runtime :: "client list \<Rightarrow> int" where
  "total_runtime ks = foldl (\<lambda>t k. if client_dt k > t then client_dt k else t) 0 ks"

definition all_rtts :: "client list \<Rightarrow> int list" where
  "all_rtts ks = sort (concat (map k_rtts ks))"

definition load_summary ::
  "('p::linordered_field \<Rightarrow> string) \<Rightarrow> ('p \<Rightarrow> string) \<Rightarrow> (u64 \<Rightarrow> int \<Rightarrow> string) \<Rightarrow> client list \<Rightarrow> console list" where
  "load_summary num wide rate ks =
     (let rtts = all_rtts ks; ms = (\<lambda>t :: int. of_int t / 10 ^ 6)
      in [Out ([CHR 0x0D] @ decimal_int (sint (total_requests ks)) @ '' requests in '' @ num (of_int (total_runtime ks) / 10 ^ 9) @
               '' seconds ('' @ rate (total_requests ks) (total_runtime ks) @ '' reqs/sec)'' @ endl)] @
         (if rtts = [] then []
          else [Out (''min RTT   : '' @ wide (ms (hd rtts)) @ '' ms'' @ endl @
                     ''max RTT   : '' @ wide (ms (last rtts)) @ '' ms'' @ endl @
                     ''avg RTT   : '' @ wide (ms (sum_list rtts) / of_nat (length rtts)) @ '' ms'' @ endl @
                     ''median RTT: '' @ wide (ms (rtts ! (length rtts div 2))) @ '' ms'' @ endl)]))"

section \<open>The workers of a load test\<close>

lemma start_clients_started:
  assumes "start_clients envs fs now begun address f secs wid n = Some (Inr ks)"
  shows "length ks = n \<and> (\<forall>i < n. \<exists>k. newClient (envs (wid + i)) fs (now (wid + i)) address f secs = Inr k \<and>
    client_start (envs (wid + i)) (begun (wid + i)) k = Some (ks ! i))"
  using assms
proof (induction n arbitrary: wid ks)
  case (Suc n)
  then obtain k k' ks' where k: "newClient (envs wid) fs (now wid) address f secs = Inr k" "client_start (envs wid) (begun wid) k = Some k'"
    "start_clients envs fs now begun address f secs (Suc wid) n = Some (Inr ks')" "ks = k' # ks'"
    by (auto split: sum.splits option.splits)
  from Suc.IH [OF k(3)] k show ?case by (auto simp: less_Suc_eq_0_disj)
qed simp

lemma load_main_running:
  assumes "load_main lib envs fs now begun usage (Inr opts) = LoadRunning c ks"
  shows "start_clients envs fs now begun (lo_address opts) (lo_input opts) (load_secs opts) 0 (nat (load_workers opts)) = Some (Inr ks)"
  using assms by (auto simp: load_main_def Let_def split: if_splits sum.splits option.splits)

lemma load_clients_inv:
  assumes "load_main lib envs fs now begun usage (Inr opts) = LoadRunning c ks" and "fs (lo_input opts) = Some (file_of es, True)" and "es \<noteq> []"
    and "i < length ks" and "client_reaches (envs i) (ks ! i) evs k"
  shows "client_inv es k"
proof -
  have n: "length ks = nat (load_workers opts)" using start_clients_started [OF load_main_running [OF assms(1)]] by simp
  obtain k0 where k0: "newClient (envs i) fs (now i) (lo_address opts) (lo_input opts) (load_secs opts) = Inr k0"
    "client_start (envs i) (begun i) k0 = Some (ks ! i)"
    using start_clients_started [OF load_main_running [OF assms(1)]] assms(4) n by auto
  have "client_idle es k0" "k_drawn k0 = 0 \<or> k_tStop k0 < k_t1 k0"
    using newClient_idle [OF k0(1) assms(2)] by auto
  then have "client_inv es (ks ! i)" using client_start_inv [OF _ assms(3), of k0 "envs i" "begun i"] k0(2) by auto
  then show ?thesis using client_reaches_inv [OF assms(5) _ assms(3)] by simp
qed

lemma total_requests_sum: "total_requests ks = sum_list (map k_count ks)"
proof -
  have "foldl (\<lambda>n k. n + k_count k) m ks = m + sum_list (map k_count ks)" for m
    by (induction ks arbitrary: m) (simp_all add: add.assoc)
  then show ?thesis by (simp add: total_requests_def)
qed

lemma total_requests_rtts:
  assumes "\<forall>k \<in> set ks. client_ok es k"
  shows "total_requests ks = of_nat (length (all_rtts ks))"
  unfolding total_requests_sum all_rtts_def using assms by (induction ks) (auto simp: client_ok_def)

section \<open>The load test against the service\<close>

lemma serves_lookup:
  assumes "web_ok lib" and "database es" and "worker_serves es w" and "plain (mBasePath w)" and "(quad h, c) \<in> set es"
  shows "\<exists>w' r. processRequest lib stamp (Some peer) ms (lookup_request (mBasePath w) False h) w = Handled w' \<and> mSent w' = mSent w @ [r] \<and>
    res_status r = status_ok \<and> res_body r = lookup_json h (unat c) ms \<and> worker_serves es w' \<and> mBasePath w' = mBasePath w"
proof -
  obtain p n d' where b: "binsearch (mInspector w) (h\<lparr>isValid := True\<rparr>) = Some (p, n, d')" and f: "found es (quad h) p"
    and d': "no_index d'" "serves d' es \<or> (\<forall>e \<in> set es. fst e < quad h)"
    using binsearch_serves [of "mInspector w" es "h\<lparr>isValid := True\<rparr>"] assms(3) by (auto simp: worker_serves_def)
  have "quad h \<in> fst ` set es" using assms(5) by (rule image_eqI [rotated]) simp
  then have "(quad h, phc_count p) \<in> set es" using f by (simp add: found_def)
  then have "phc_count p = c" using database_distinct [OF assms(2)] assms(5) by (auto dest: eq_key_imp_eq_value)
  moreover have "serves d' es" using d'(2) assms(5) by fastforce
  ultimately show ?thesis
    using process_lookup [OF assms(1,4) b, of stamp peer ms False] d'(1) by (auto simp: worker_serves_def)
qed

section \<open>Properties\<close>

text \<open>C19: In every state the workers of a load test can reach, at most one operation is in flight, and only for
  a request that asks for a record of the database and that is the worker's first or was begun after a check that
  the time is not over; TLS is used exactly for https. An operation that completes always finds a handler that goes
  on: one answer that can be read as JSON is counted and timed once, any other stops the worker and is not counted.
  The total of the summary is the number of round trips.\<close>

theorem load_workers_invariant:
  assumes "load_main lib envs fs now begun usage (Inr opts) = LoadRunning c ks" and "fs (lo_input opts) = Some (file_of es, True)" and "es \<noteq> []"
    and "length ks' = length ks" and "\<forall>i < length ks. client_reaches (envs i) (ks ! i) (evs i) (ks' ! i)"
  shows "(\<forall>i < length ks. client_inv es (ks' ! i) \<and>
      (AwaitingAnswer \<in> set (k_pending (ks' ! i)) \<longrightarrow>
        (\<forall>arrived t t' ec body ec'. \<exists>k. client_step (envs i) (ks' ! i) (AnswerRead arrived t t' ec body ec') k \<and>
          (if ec = None \<and> ce_json (envs i) body = None
           then k_rtts k = k_rtts (ks' ! i) @ [arrived - k_rttT0 (ks' ! i)] \<and> k_count k = k_count (ks' ! i) + 1
           else k_rtts k = k_rtts (ks' ! i) \<and> k_count k = k_count (ks' ! i) \<and> k_pending k = []))) \<and>
      (ShuttingDown \<in> set (k_pending (ks' ! i)) \<longrightarrow> (\<forall>t t' ec. \<exists>k. client_step (envs i) (ks' ! i) (ShutDownDone t t' ec) k))) \<and>
    total_requests ks' = of_nat (length (concat (map k_rtts ks')))"
proof -
  have inv: "client_inv es (ks' ! i)" if "i < length ks" for i
    using load_clients_inv [OF assms(1-3) that] assms(5) that by blast
  have read: "\<exists>k. client_step (envs i) (ks' ! i) (AnswerRead arrived t t' ec body ec') k \<and>
      read_counted (envs i) arrived ec body (ks' ! i) k"
    if "i < length ks" "AwaitingAnswer \<in> set (k_pending (ks' ! i))" for i arrived t t' ec body ec'
    by (rule answer_read [OF inv [OF that(1)] that(2) assms(3)])
  have down: "\<exists>k. client_step (envs i) (ks' ! i) (ShutDownDone t t' ec) k"
    if "i < length ks" "ShuttingDown \<in> set (k_pending (ks' ! i))" for i t t' ec
    using onShutdown_inv [OF client_takes_in_flight [OF inv [OF that(1)] that(2)] assms(3), of "envs i" t t' ec]
      client_step.ShutDownDone [OF that(2)] by blast
  have "\<forall>k \<in> set ks'. client_ok es k"
    using inv assms(4) by (auto simp: in_set_conv_nth client_inv_def)
  then show ?thesis
    using total_requests_rtts [of ks' es] inv read [unfolded read_counted_def] down by (simp add: all_rtts_def)
qed

definition toy_env :: client_env where
  "toy_env = \<lparr>ce_gen = \<lambda>_. 0, ce_sni = \<lambda>_. None, ce_json = \<lambda>_. None, ce_split = split_on\<rparr>"

definition toy_load :: load_options where
  "toy_load = \<lparr>lo_help = False, lo_input = ''db'', lo_address = ''http://h:1/v1/lookup'', lo_secs = 1, lo_workers = 1, lo_threads = 1\<rparr>"

definition toy_load_lib :: load_lib where
  "toy_load_lib = \<lparr>ll_client_what = \<lambda>_. [], ll_length_what = [], ll_certs = None\<rparr>"

lemma toy_load_runs:
  "\<exists>c k. load_main toy_load_lib (\<lambda>_. toy_env) [''db'' \<mapsto> (file_of toy_db, True)] (\<lambda>_. 0) (\<lambda>_. 0) [] (Inr toy_load) = LoadRunning c [k] \<and>
     k_pending k = [Resolving] \<and> mPath (k_uri k) = ''/v1/lookup'' \<and> mScheme (k_uri k) = ''http''"
proof -
  have "case load_main toy_load_lib (\<lambda>_. toy_env) [''db'' \<mapsto> (file_of toy_db, True)] (\<lambda>_. 0) (\<lambda>_. 0) [] (Inr toy_load) of
      LoadRunning c ks \<Rightarrow> (case ks of [k] \<Rightarrow> k_pending k = [Resolving] \<and> mPath (k_uri k) = ''/v1/lookup'' \<and> mScheme (k_uri k) = ''http'' | _ \<Rightarrow> False)
    | _ \<Rightarrow> False"
    by code_simp
  then show ?thesis by (auto split: load_run.splits list.splits)
qed

text \<open>The workers of this load test before any event.\<close>

lemma load_workers_invariant_witness:
  "\<exists>c k. load_main toy_load_lib (\<lambda>_. toy_env) [''db'' \<mapsto> (file_of toy_db, True)] (\<lambda>_. 0) (\<lambda>_. 0) [] (Inr toy_load) = LoadRunning c [k] \<and>
     client_inv toy_db k \<and> total_requests [k] = of_nat (length (k_rtts k))"
proof -
  obtain c k where k: "load_main toy_load_lib (\<lambda>_. toy_env) [''db'' \<mapsto> (file_of toy_db, True)] (\<lambda>_. 0) (\<lambda>_. 0) [] (Inr toy_load) = LoadRunning c [k]"
    using toy_load_runs by blast
  have reach: "\<forall>i < length [k]. client_reaches toy_env ([k] ! i) [] ([k] ! i)" by (auto intro: client_reaches.start)
  have "[''db'' \<mapsto> (file_of toy_db, True)] (lo_input toy_load) = Some (file_of toy_db, True)" by (simp add: toy_load_def)
  from load_workers_invariant [OF k this _ refl, of "\<lambda>_. []"] reach k show ?thesis by (auto simp: toy_db_def)
qed

text \<open>C17: The load test and the service work together: whenever a worker of a load test over a database has a
  request in flight, a worker of a service on the same database answers it with status OK and the
  positive count of the record the request was made from, and goes on serving the database. (The load
  test never asks for a hash that would break the service.)\<close>

theorem load_test_served:
  assumes "web_ok lib" and "database es" and "es \<noteq> []" and "fs (lo_input opts) = Some (file_of es, True)"
    and "load_main ll envs fs now begun usage (Inr opts) = LoadRunning c ks" and "i < length ks"
    and "client_reaches (envs i) (ks ! i) evs k" and "k_pending k \<noteq> []"
    and "worker_serves es w" and "plain (mBasePath w)" and "mPath (k_uri k) = mBasePath w @ ''/lookup''"
  shows "\<exists>e \<in> set es. \<exists>h w' r. quad h = fst e \<and> 0 < snd e \<and>
    processRequest lib stamp (Some peer) ms \<lparr>req_method = GET, req_target = cr_target (k_req k)\<rparr> w = Handled w' \<and>
    mSent w' = mSent w @ [r] \<and> res_status r = status_ok \<and> res_body r = lookup_json h (unat (snd e)) ms \<and> worker_serves es w'"
proof -
  have "client_inv es k" by (rule load_clients_inv [of ll envs fs, OF assms(5,4,3,6,7)])
  then have "asks_for es k" using assms(8) by (auto simp: client_inv_def in_flight_def)
  then obtain e h where e: "e \<in> set es" "quad h = fst e" "cr_target (k_req k) = mPath (k_uri k) @ ''?hash='' @ toString False h"
    by (auto simp: asks_for_def)
  have "\<lparr>req_method = GET, req_target = cr_target (k_req k)\<rparr> = lookup_request (mBasePath w) False h"
    by (simp add: lookup_request_def e(3) assms(11))
  moreover have "(quad h, snd e) \<in> set es" "0 < snd e" using e(1,2) assms(2) by (auto simp: database_def)
  ultimately show ?thesis using e(1,2) serves_lookup [OF assms(1,2,9,10), of h "snd e" stamp peer ms] by fastforce
qed

lemma load_test_served_witness:
  "\<exists>c k e h w' r. load_main toy_load_lib (\<lambda>_. toy_env) [''db'' \<mapsto> (file_of toy_db, True)] (\<lambda>_. 0) (\<lambda>_. 0) [] (Inr toy_load) = LoadRunning c [k] \<and>
     e \<in> set toy_db \<and> quad h = fst e \<and>
     processRequest toy_web [] (Some []) ''0.1'' \<lparr>req_method = GET, req_target = cr_target (k_req k)\<rparr> toy_worker = Handled w' \<and>
     mSent w' = mSent toy_worker @ [r] \<and> res_body r = lookup_json h (unat (snd e)) ''0.1''"
proof -
  obtain c k where k: "load_main toy_load_lib (\<lambda>_. toy_env) [''db'' \<mapsto> (file_of toy_db, True)] (\<lambda>_. 0) (\<lambda>_. 0) [] (Inr toy_load) = LoadRunning c [k]"
    and p: "k_pending k = [Resolving]" "mPath (k_uri k) = ''/v1/lookup''"
    using toy_load_runs by blast
  have fs: "[''db'' \<mapsto> (file_of toy_db, True)] (lo_input toy_load) = Some (file_of toy_db, True)" by (simp add: toy_load_def)
  have w: "worker_serves toy_db toy_worker" "plain (mBasePath toy_worker)" "mPath (k_uri k) = mBasePath toy_worker @ ''/lookup''"
    by (simp_all add: worker_serves_def toy_worker serves_on [OF toy_database] plain_def p(2))
  have ne: "toy_db \<noteq> []" "0 < length [k]" "client_reaches toy_env ([k] ! 0) [] k" "k_pending k \<noteq> []"
    by (simp_all add: toy_db_def client_reaches.start p(1))
  show ?thesis
    using load_test_served [OF toy_web_ok toy_database ne(1) fs k ne(2-4) w, of "[]" "[]" "''0.1''"] k by blast
qed

end
