(* ===== verification/Be2le.thy ===== *)
theory Be2le
  imports Phc Inspector Console
begin

text \<open>
  \<^verbatim>\<open>deprecated/be2le/be2le.cpp\<close>: converting a file of MD5:count records from one byte order to the other.
\<close>

section \<open>The tool\<close>

text \<open>The loop ends at the end of the file, which only a read that failed has reached.\<close>

partial_function (option) be2le_loop :: "phc \<Rightarrow> u8 istream \<Rightarrow> u8 list \<Rightarrow> u8 list option" where
  "be2le_loop p f out =
     (if eofbit f then Some out
      else let r = phc_read p f;
               p = fst (snd r);
               p = p\<lparr>phc_hash := toHostByteOrder (phc_hash p)\<rparr>
           in be2le_loop p (snd (snd r)) (out @ phc_dump p))"

datatype be2le_exit = Be2leExit bool "console list" "u8 list option"

text \<open>The arguments after the name of the program; \<open>writable\<close> says whether the output can be opened, which
  empties it: if it is the input as well, nothing is left to read.\<close>

definition be2le_main :: "files \<Rightarrow> (string \<Rightarrow> bool) \<Rightarrow> string list \<Rightarrow> be2le_exit option" where
  "be2le_main fs writable args =
     (case args of
        inputFilename # outputFilename # _ \<Rightarrow>
          (let f = (case fs inputFilename of None \<Rightarrow> failed_open | Some e \<Rightarrow> open_ifstream e);
               f = (if inputFilename = outputFilename \<and> writable outputFilename then f\<lparr>contents := []\<rparr> else f);
               c = [Out (''Input file:  '' @ inputFilename @ endl @ ''Output file: '' @ outputFilename @ endl @
                         ''Converting to Little Endian ... ''), Out (endl @ ''Ready.'' @ endl)]
           in if opened f \<and> writable outputFilename
              then map_option (\<lambda>out. Be2leExit True c (Some out)) (be2le_loop emptyPHC f [])
              else Some (Be2leExit True c (if writable outputFilename then Some [] else None)))
      | _ \<Rightarrow> Some (Be2leExit False [Err (''Usage: be2le <md5_count_input_file> <md5_count_output_file>'' @ endl)] None))"

section \<open>What it writes\<close>

definition swap_entry :: "entry \<Rightarrow> entry" where
  "swap_entry e = (Quad (ntohll (upper (fst e))) (ntohll (lower (fst e))), snd e)"

lemma swap_entry_twice [simp]: "swap_entry (swap_entry e) = e"
  by (cases e; cases "fst e") (simp add: swap_entry_def)

abbreviation swapped :: "phc \<Rightarrow> phc" where
  "swapped p \<equiv> p\<lparr>phc_hash := toHostByteOrder (phc_hash p)\<rparr>"

lemma swapped_entry: "phc_entry (swapped p) = swap_entry (phc_entry p)"
  by (simp add: phc_entry_def swap_entry_def toHostByteOrder_def)

lemma swapped_dump: "phc_dump (swapped p) = entry_bytes (swap_entry (phc_entry p))"
  by (simp only: phc_dump_entry swapped_entry)

text \<open>The failing read at the end leaves the record of the round before, which is swapped back.\<close>

lemma be2le_loop_records:
  assumes "good f" and "contents f = file_of es" and "position f = 20 * i" and "i \<le> length es"
  shows "be2le_loop p f out = Some (out @ file_of (map swap_entry (drop i es)) @
    entry_bytes (if i < length es then last es else swap_entry (phc_entry p)))"
  using assms
proof (induction "length es - i" arbitrary: i p f out)
  case 0
  let ?f = "f\<lparr>eofbit := True, failbit := True\<rparr>"
  have r: "phc_read p f = (False, p, ?f)" using 0 by (intro phc_read_eof [where es = es]) auto
  have "be2le_loop p f out = be2le_loop (swapped p) ?f (out @ phc_dump (swapped p))"
    using 0 by (subst be2le_loop.simps) (simp add: r good_def Let_def)
  also have "\<dots> = Some (out @ phc_dump (swapped p))" by (subst be2le_loop.simps) simp
  finally show ?case using 0 by (simp add: swapped_dump file_of_def)
next
  case (Suc k)
  then have i: "i < length es" by simp
  let ?p = "set_entry p (es ! i)" and ?f = "f\<lparr>position := 20 * Suc i\<rparr>"
  have r: "phc_read p f = (True, ?p, ?f)" by (rule phc_read_entry [OF Suc.prems(1-3) i])
  have "be2le_loop p f out = be2le_loop (swapped ?p) ?f (out @ phc_dump (swapped ?p))"
    using Suc.prems(1) by (subst be2le_loop.simps) (simp add: r good_def Let_def)
  also have "\<dots> = Some ((out @ phc_dump (swapped ?p)) @ file_of (map swap_entry (drop (Suc i) es)) @
      entry_bytes (if Suc i < length es then last es else swap_entry (phc_entry (swapped ?p))))"
    using Suc i by (intro Suc.hyps(1)) (auto simp: good_def)
  finally have "be2le_loop p f out = Some (out @ entry_bytes (swap_entry (es ! i)) @ file_of (map swap_entry (drop (Suc i) es)) @
      entry_bytes (if Suc i < length es then last es else es ! i))"
    by (simp add: swapped_dump swapped_entry)
  moreover have "drop i es = es ! i # drop (Suc i) es" using i by (rule Cons_nth_drop_Suc [symmetric])
  moreover have "(if Suc i < length es then last es else es ! i) = last es"
  proof (cases "Suc i < length es")
    case False
    then have "length es - 1 = i" "es \<noteq> []" using i by auto
    then show ?thesis by (simp add: last_conv_nth)
  qed simp
  ultimately show ?case using i by (simp add: file_of_def)
qed

section \<open>Property\<close>

text \<open>C32: The converted file holds all records with the bytes of both halves of the hash reversed, and then,
  because the end of the file is only noticed after the last record was handled, the last record once
  more, unconverted. So converting twice does not give the file back.\<close>

theorem be2le_converts:
  assumes "fs f = Some (file_of es, True)" and "es \<noteq> []" and "f \<noteq> g" and "writable g"
  shows "\<exists>c. be2le_main fs writable [f, g] = Some (Be2leExit True c (Some (file_of (map swap_entry es @ [last es]))))"
proof -
  have "be2le_loop emptyPHC (open_stream (file_of es)) [] = Some (file_of (map swap_entry es @ [last es]))"
    using be2le_loop_records [of "open_stream (file_of es)" es 0] assms(2) by (simp add: good_def file_of_def)
  then show ?thesis using assms by (simp add: be2le_main_def open_ifstream_def Let_def)
qed

lemma be2le_converts_witness:
  "\<exists>c. be2le_main [''a'' \<mapsto> (file_of [(Quad 1 2, 3)], True)] (\<lambda>_. True) [''a'', ''b''] =
     Some (Be2leExit True c (Some (file_of [(Quad 0x0100000000000000 0x0200000000000000, 3), (Quad 1 2, 3)])))"
proof -
  have "swap_entry (Quad 1 2, 3) = (Quad 0x0100000000000000 0x0200000000000000, 3)" by code_simp
  then show ?thesis using be2le_converts [of "[''a'' \<mapsto> (file_of [(Quad 1 2, 3)], True)]" "''a''" "[(Quad 1 2, 3)]" "''b''" "\<lambda>_. True"] by simp
qed

end
