(* ===== verification/Markov_Invariant.thy ===== *)
theory Markov_Invariant
  imports Markov
begin

text \<open>
  What every Markov chain has, whatever was done to it: its maps have every key once, and the list a node
  chooses from is empty or its probabilities in ascending order.
\<close>

definition node_wf :: "'p::linordered_field node \<Rightarrow> bool" where
  "node_wf n \<longleftrightarrow> distinct (map fst (mProbs n)) \<and> distinct (map fst (mCounts n)) \<and>
     mSortedProbs n \<in> {[], sort_key snd (mProbs n)}"

definition chain_wf :: "'p::linordered_field chain \<Rightarrow> bool" where
  "chain_wf c \<longleftrightarrow> distinct (map fst (mNodes c)) \<and> (\<forall>n \<in> snd ` set (mNodes c). node_wf n) \<and>
     distinct (map fst (mFirstSymbolCounts c)) \<and> distinct (map fst (mFirstSymbolProbs c))"

text \<open>The operations of a chain; \<open>LoadChain\<close> reads any bytes from a stream in any state.\<close>

datatype chain_command = TrainChain string | UpdateChain | ClearChain | LoadChain bool "u8 istream"

fun chain_op :: "(string \<Rightarrow> u32 list) \<Rightarrow> (u8 list \<Rightarrow> 'p) \<Rightarrow> chain_command \<Rightarrow> 'p::linordered_field chain \<Rightarrow> 'p chain" where
  "chain_op decode dec (TrainChain pwd) c = snd (train decode pwd c)"
| "chain_op decode dec UpdateChain c = chain_update c"
| "chain_op decode dec ClearChain c = chain_clear c"
| "chain_op decode dec (LoadChain doClear s) c = snd (loadBinary dec doClear s c)"

lemma newNode_wf: "node_wf newNode"
  by (simp add: node_wf_def newNode_def)

lemma newChain_wf: "chain_wf newChain"
  by (simp add: chain_wf_def newChain_def)

lemma node_increment_wf: "node_wf n \<Longrightarrow> node_wf (node_increment c n)"
  by (simp add: node_wf_def node_increment_def distinct_map_default)

lemma node_update_wf: "node_wf n \<Longrightarrow> node_wf (node_update n)"
  by (simp add: node_wf_def node_update_def postprocess_def distinct_normalize)

lemma postprocess_wf: "node_wf n \<Longrightarrow> node_wf (postprocess n)"
  by (simp add: node_wf_def postprocess_def)

lemma map_keys: "map (fst \<circ> (\<lambda>(s, n). (s, f n))) xs = map fst xs"
  by (simp add: case_prod_unfold)

lemma map_nodes_wf:
  assumes "\<And>n. node_wf n \<Longrightarrow> node_wf (f n)" and "chain_wf c"
  shows "chain_wf (c\<lparr>mNodes := map (\<lambda>(s, n). (s, f n)) (mNodes c)\<rparr>)"
  using assms by (auto simp: chain_wf_def map_keys)

lemma map_entry_keys: "map fst (AList.map_entry k f xs) = map fst xs"
  by (induction k f xs rule: AList.map_entry.induct) auto

lemma map_entry_nodes: "n \<in> snd ` set (AList.map_entry k f xs) \<Longrightarrow> n \<in> snd ` set xs \<or> (\<exists>m \<in> snd ` set xs. n = f m)"
  by (induction k f xs rule: AList.map_entry.induct) (auto split: if_splits)

lemma addPair_wf: "chain_wf c \<Longrightarrow> chain_wf (addPair s t c)"
proof -
  assume c: "chain_wf c"
  let ?m = "if map_of (mNodes c) s = None then mNodes c @ [(s, newNode)] else mNodes c"
  have m: "distinct (map fst ?m)" "\<forall>n \<in> snd ` set ?m. node_wf n"
    using c by (auto simp: chain_wf_def map_of_eq_None_iff newNode_wf)
  have "\<forall>n \<in> snd ` set (AList.map_entry s (node_increment t) ?m). node_wf n"
  proof
    fix n assume "n \<in> snd ` set (AList.map_entry s (node_increment t) ?m)"
    from map_entry_nodes [OF this] show "node_wf n" using m(2) by (elim disjE bexE) (simp_all only: node_increment_wf)
  qed
  then show ?thesis using c m(1) by (simp add: chain_wf_def addPair_def Let_def map_entry_keys)
qed

lemma addFirst_wf: "chain_wf c \<Longrightarrow> chain_wf (addFirst s c)"
  by (auto simp: chain_wf_def addFirst_def Let_def map_entry_keys map_of_eq_None_iff)

lemma addPairs_wf: "chain_wf c \<Longrightarrow> chain_wf (fold (\<lambda>i. addPair (f i) (g i)) is c)"
  by (induction "is" arbitrary: c) (auto intro: addPair_wf)

lemma train_wf: "chain_wf c \<Longrightarrow> chain_wf (snd (train decode pwd c))"
  by (simp add: train_def Let_def addFirst_wf addPairs_wf)

lemma chain_update_wf: "chain_wf c \<Longrightarrow> chain_wf (chain_update c)"
proof -
  assume c: "chain_wf c"
  let ?c = "c\<lparr>mFirstSymbolProbs := normalize (mFirstSymbolCounts c) (mFirstSymbolProbs c)\<rparr>"
  have "chain_wf (?c\<lparr>mFirstSymbolSortedProbs := sort_key snd (mFirstSymbolProbs ?c)\<rparr>)"
    using c by (simp add: chain_wf_def distinct_normalize)
  from map_nodes_wf [OF node_update_wf this] show ?thesis by (simp add: chain_update_def Let_def)
qed

lemma chain_clear_wf: "chain_wf c \<Longrightarrow> chain_wf (chain_clear c)"
  by (simp add: chain_wf_def chain_clear_def)

text \<open>Loading: a node under construction has nothing to choose from yet.\<close>

definition node_loading :: "'p::linordered_field node \<Rightarrow> bool" where
  "node_loading m \<longleftrightarrow> distinct (map fst (mProbs m)) \<and> mCounts m = [] \<and> mSortedProbs m = []"

lemma node_loading_wf: "node_loading m \<Longrightarrow> node_wf m"
  by (simp add: node_loading_def node_wf_def)

lemma load_successors_loading:
  "node_loading m \<Longrightarrow> node_loading (fst (snd (load_successors dec n m s)))"
  by (induction n arbitrary: m s)
    (auto simp: node_loading_def addSuccessor_def distinct_update Let_def split: prod.split)

definition nodes_wf :: "(u32 \<times> 'p::linordered_field node) list \<Rightarrow> bool" where
  "nodes_wf ns \<longleftrightarrow> distinct (map fst ns) \<and> (\<forall>n \<in> snd ` set ns. node_wf n)"

lemma nodes_wf_snoc: "nodes_wf ns \<Longrightarrow> map_of ns c = None \<Longrightarrow> node_loading m \<Longrightarrow> nodes_wf (ns @ [(c, m)])"
  by (auto simp: nodes_wf_def map_of_eq_None_iff node_loading_wf)

lemma load_nodes_wf: "nodes_wf ns \<Longrightarrow> nodes_wf (fst (snd (load_nodes dec k ns s)))"
proof (induction k arbitrary: ns s)
  case (Suc k)
  have new: "node_loading (newNode :: 'a node)" by (simp add: node_loading_def newNode_def)
  obtain cb s1 where r1: "is_read 4 s = (cb, s1)" by fastforce
  obtain kb s2 where r2: "is_read 4 s1 = (kb, s2)" by fastforce
  obtain e m s3 where r3: "load_successors dec (unat (le_word kb :: u32)) newNode s2 = (e, m, s3)" by (metis prod_cases3)
  have m: "node_loading m" using load_successors_loading [OF new, of dec "unat (le_word kb :: u32)" s2] r3 by simp
  show ?case
    using Suc.IH [OF nodes_wf_snoc [OF Suc.prems _ m]] Suc.prems nodes_wf_snoc [OF Suc.prems _ new] nodes_wf_snoc [OF Suc.prems _ m]
    by (simp add: r1 r2 r3 Let_def)
qed simp

lemma load_body_wf:
  assumes "chain_wf c"
  shows "chain_wf (fst (snd (load_body dec s c)))"
proof -
  have "chain_wf (c\<lparr>mFirstSymbolSortedProbs := ps, mNodes := fst (snd (load_nodes dec k (mNodes c) s))\<rparr>)" for ps k s
    using assms load_nodes_wf [of "mNodes c" dec k s] by (simp add: chain_wf_def nodes_wf_def)
  then have nodes: "chain_wf (c\<lparr>mFirstSymbolSortedProbs := ps, mNodes := ns\<rparr>)" if "load_nodes dec k (mNodes c) s = (e, ns, s')" for ps k s e ns s'
    using that by (metis fst_conv snd_conv)
  have first: "chain_wf (c\<lparr>mFirstSymbolSortedProbs := ps\<rparr>)" for ps using assms by (simp add: chain_wf_def)
  show ?thesis
    using assms nodes first by (auto simp: load_body_def Let_def split: prod.split)
qed

lemma loadBinary_wf: "chain_wf c \<Longrightarrow> chain_wf (snd (loadBinary dec doClear s c))"
proof -
  assume c: "chain_wf c"
  let ?c = "if doClear then newChain else c"
  let ?r = "if good s \<and> \<not> eofbit s then load_body dec s ?c else (OK, ?c, s)"
  have r: "chain_wf (fst (snd ?r))" using c load_body_wf [of ?c dec s] newChain_wf by auto
  have "snd (loadBinary dec doClear s c) = (if fst ?r \<noteq> OK then fst (snd ?r)
      else (fst (snd ?r))\<lparr>mNodes := map (\<lambda>(t, n). (t, postprocess n)) (mNodes (fst (snd ?r)))\<rparr>)"
    by (simp add: loadBinary_def Let_def case_prod_unfold del: if_split)
  then show ?thesis using r map_nodes_wf [OF postprocess_wf r] by (simp del: if_split)
qed

section \<open>Property\<close>

text \<open>Whatever is done to a chain, in any order - training, updating, clearing, loading files with any
  contents, with or without success - it stays well-formed: every map has every key once, and what a node
  draws from is either empty or exactly its probabilities, each symbol once, in ascending order. Files
  with probabilities that are no numbers (NaN), for which the comparison of \<^verbatim>\<open>postprocess\<close> is no order,
  are outside the model.\<close>

theorem chain_well_formed:
  fixes dec :: "u8 list \<Rightarrow> 'p::linordered_field"
  shows "let c = fold (chain_op decode dec) ops newChain in chain_wf c \<and>
     (\<forall>(s, n) \<in> set (mNodes c). map_of (mNodes c) s = Some n \<and> sorted (map snd (mSortedProbs n)) \<and>
       distinct (map fst (mSortedProbs n)) \<and> (\<forall>(t, p) \<in> set (mSortedProbs n). probability n t = Some p))"
proof -
  have "chain_wf (chain_op decode dec op c)" if "chain_wf c" for op and c :: "'p chain"
    using that by (cases op) (simp_all add: train_wf chain_update_wf chain_clear_wf loadBinary_wf)
  then have wf: "chain_wf c \<Longrightarrow> chain_wf (fold (chain_op decode dec) ops c)" for c :: "'p chain"
    by (induction ops arbitrary: c) auto
  let ?c = "fold (chain_op decode dec) ops (newChain :: 'p chain)"
  have c: "chain_wf ?c" by (rule wf [OF newChain_wf])
  have "map_of (mNodes ?c) s = Some n \<and> sorted (map snd (mSortedProbs n)) \<and>
       distinct (map fst (mSortedProbs n)) \<and> (\<forall>(t, p) \<in> set (mSortedProbs n). probability n t = Some p)"
    if "(s, n) \<in> set (mNodes ?c)" for s n
  proof -
    have "distinct (map fst (mNodes ?c))" "node_wf n" using c that by (force simp: chain_wf_def)+
    then have n: "map_of (mNodes ?c) s = Some n" "distinct (map fst (mProbs n))" "mSortedProbs n \<in> {[], sort_key snd (mProbs n)}"
      using that by (simp_all add: node_wf_def)
    then show ?thesis by (auto simp: distinct_sort_key probability_def)
  qed
  then show ?thesis using c unfolding Let_def by blast
qed

text \<open>A chain trained on one password, updated, and then given a file that breaks off.\<close>

definition toy_commands :: "chain_command list" where
  "toy_commands = [TrainChain ''ab'', UpdateChain, LoadChain False (open_stream (FileHeader @ [2]))]"

lemma chain_well_formed_witness:
  "let c = fold (chain_op (map of_char) (\<lambda>_. 0 :: rat)) toy_commands newChain
   in \<exists>n. (97, n) \<in> set (mNodes c) \<and> mSortedProbs n = [(98, 1)] \<and> map_of (mNodes c) 97 = Some n \<and> probability n 98 = Some 1"
proof -
  let ?c = "fold (chain_op (map of_char) (\<lambda>_. 0 :: rat)) toy_commands newChain"
  have "mNodes ?c = [(97, \<lparr>mProbs = [(98, 1)], mCounts = [(98, 1)], mSortedProbs = [(98, 1)]\<rparr>)]" by code_simp
  then obtain n where n: "(97, n) \<in> set (mNodes ?c)" "mSortedProbs n = [(98, 1)]" by simp
  have "case (97, n) of (s, n) \<Rightarrow> map_of (mNodes ?c) s = Some n \<and> sorted (map snd (mSortedProbs n)) \<and>
       distinct (map fst (mSortedProbs n)) \<and> (\<forall>(t, p) \<in> set (mSortedProbs n). probability n t = Some p)"
    using chain_well_formed [of "map of_char" "\<lambda>_. 0 :: rat" toy_commands] n(1) unfolding Let_def by blast
  then show ?thesis unfolding Let_def using n by (intro exI [of _ n]) simp
qed

end
