(* ===== verification/Queue_Refinement.thy ===== *)
theory Queue_Refinement
  imports Operation_Queue
begin

text \<open>
  What the operation queue promises its users, as a machine without threads, mutex or semaphore: a pool
  takes a waiting operation of the highest priority whenever it has room, and an operation that runs ends
  at some time. Every step of the queue is a step of the pool or changes nothing the pool shows.
\<close>

section \<open>The pool\<close>

datatype pool = Pool (waiting: "opid multiset") (active: "opid multiset") (ended: "opid multiset")

inductive pool_step :: "nat \<Rightarrow> (opid \<Rightarrow> int) \<Rightarrow> pool \<Rightarrow> pool \<Rightarrow> bool" for n prio where
  take: "op \<in># w \<Longrightarrow> \<forall>p \<in># w. prio p \<le> prio op \<Longrightarrow> size a < n \<Longrightarrow>
    pool_step n prio (Pool w a e) (Pool (w - {#op#}) (add_mset op a) e)"
| ending: "op \<in># a \<Longrightarrow> pool_step n prio (Pool w a e) (Pool w (a - {#op#}) (add_mset op e))"

inductive_cases pool_stepE: "pool_step n prio p p'"

text \<open>What the pool shows of a queue: the operations that wait, those that run, and those that ran.\<close>

definition pool_of :: "oqueue \<Rightarrow> pool" where
  "pool_of q = Pool (mset (unscheduledOps q)) (mset (runningOps q)) (mset (started q) - mset (runningOps q))"

text \<open>The pool alone keeps its operations and its bound.\<close>

lemma pool_step_keeps:
  assumes "pool_step n prio p p'"
  shows "waiting p' + active p' + ended p' = waiting p + active p + ended p" and "size (active p) \<le> n \<Longrightarrow> size (active p') \<le> n"
  using assms by (auto elim!: pool_stepE simp: size_Diff_singleton)

section \<open>Simulation\<close>

text \<open>Steps that neither schedule an operation nor take it off the running ones are not seen.\<close>

definition same_pool :: "oqueue \<Rightarrow> oqueue \<Rightarrow> bool" where
  "same_pool q q' \<longleftrightarrow> unscheduledOps q' = unscheduledOps q \<and> runningOps q' = runningOps q \<and> started q' = started q"

lemma same_pool_of: "same_pool q q' \<Longrightarrow> pool_of q' = pool_of q"
  by (simp add: same_pool_def pool_of_def)

lemma user_step_same: "user_step q q' \<Longrightarrow> inv_blocked q \<Longrightarrow> same_pool q q'"
  by (erule user_step.cases) (auto simp: same_pool_def step_defs inv_blocked_no_pop)

lemma work_step_seen:
  assumes "work_step q q'" and "inv_blocked q"
  shows "same_pool q q' \<or> (\<exists>op. is_top q op \<and> q' = schedule op q) \<or>
    (\<exists>op. op \<in> set (opThreads q) \<and> thr q op = ThrFinished \<and> q' = finished op q)"
  using assms(1)
proof (cases rule: work_step.cases)
  case (exe_schedule op)
  then show ?thesis by blast
next
  case (thr_finished op)
  then show ?thesis by blast
next
  case (thr_finish op)
  then have "same_pool q q'" by (simp add: same_pool_def step_defs Let_def)
  then show ?thesis by blast
qed (use inv_blocked_no_pop [OF assms(2)] in \<open>auto simp: same_pool_def step_defs\<close>)

lemma schedule_pool:
  assumes "queue_inv n p ops (schedule op q)" and "is_top q op" and "\<And>x. priority (store q x) = p x"
  shows "pool_step (unat n) p (pool_of q) (pool_of (schedule op q))"
proof -
  have run: "length (runningOps q) < unat n" using running_bound [OF assms(1)] by (simp add: schedule_def set_thr_def)
  have top: "op \<in># mset (unscheduledOps q)" "\<forall>x \<in># mset (unscheduledOps q). p x \<le> p op"
    using assms(2,3) by (auto simp: is_top_def opGreaterPriority_def not_less)
  have "pool_of (schedule op q) = Pool (mset (unscheduledOps q) - {#op#}) (add_mset op (mset (runningOps q)))
      (mset (started q) - mset (runningOps q))"
    by (simp add: pool_of_def schedule_def set_thr_def)
  then show ?thesis using pool_step.take [OF top, of "mset (runningOps q)"] run by (simp add: pool_of_def)
qed

lemma mset_take_back:
  assumes "op \<in># r" and "r \<subseteq># s"
  shows "s - (r - {#op#}) = add_mset op (s - r)"
proof (rule multiset_eqI)
  fix x
  have "count r x \<le> count s x" "0 < count r op" using assms by (simp_all add: subseteq_mset_def)
  then show "count (s - (r - {#op#})) x = count (add_mset op (s - r)) x" by (cases "x = op") auto
qed

lemma finished_pool:
  assumes "queue_inv n p ops q" and "op \<in> set (opThreads q)" and "thr q op = ThrFinished"
  shows "pool_step m p (pool_of q) (pool_of (finished op q))"
proof -
  have inv: "inv_started ops q" "runningOps q = filter (\<lambda>op. thr q op \<notin> {ThrNotify, ThrEnd}) (started q)" "inv_main q"
    using assms(1) by (simp_all add: queue_inv_def inv_running_def inv_started_def)
  have "op \<in> set (started q)" using inv(3) assms(2) by (auto simp: inv_main_def split: if_splits)
  then have op: "op \<in> set (runningOps q)" using inv(2) assms(3) by simp
  have d: "distinct (runningOps q)" using inv_started_distinct [OF inv(1)] by (simp add: inv(2))
  have sub: "mset (runningOps q) \<subseteq># mset (started q)" by (simp add: inv(2))
  have "mset (removeAll op (runningOps q)) = mset (runningOps q) - {#op#}"
    using distinct_remove1_removeAll [OF d, of op] by (metis mset_remove1)
  then have "pool_of (finished op q) = Pool (mset (unscheduledOps q)) (mset (runningOps q) - {#op#})
      (add_mset op (mset (started q) - mset (runningOps q)))"
    using mset_take_back [OF _ sub, of op] op by (simp add: pool_of_def finished_def set_thr_def)
  then show ?thesis unfolding pool_of_def [of q] by (simp only:) (rule pool_step.ending, simp add: op)
qed

lemma initial_priority: "reachable (initial n st ops) q \<Longrightarrow> priority (store q x) = priority (st x)"
  using reachable_priority [of "initial n st ops" q x] by (simp add: initial_simps)

lemma queue_simulates:
  assumes "distinct ops" and "reachable (initial n st ops) q" and "queue_step q q'"
  shows "pool_of q' = pool_of q \<or> pool_step (unat n) (\<lambda>op. priority (st op)) (pool_of q) (pool_of q')"
proof -
  have inv: "queue_inv n (\<lambda>op. priority (st op)) ops q" "queue_inv n (\<lambda>op. priority (st op)) ops q'"
    using queue_inv_reachable [OF _ assms(1)] assms(2,3) reachable.step by blast+
  have b: "inv_blocked q" using inv(1) by (simp add: queue_inv_def inv_started_def)
  have w: "pool_of q' = pool_of q \<or> pool_step (unat n) (\<lambda>op. priority (st op)) (pool_of q) (pool_of q')" if "work_step q q'"
    using work_step_seen [OF that b]
  proof (elim disjE exE conjE)
    assume "same_pool q q'"
    then show ?thesis by (simp add: same_pool_of)
  next
    fix op assume "is_top q op" "q' = schedule op q"
    then show ?thesis using schedule_pool [of n _ ops op q] inv(2) initial_priority [OF assms(2)] by simp
  next
    fix op assume "op \<in> set (opThreads q)" "thr q op = ThrFinished" "q' = finished op q"
    then show ?thesis using finished_pool [OF inv(1), of op "unat n"] by simp
  qed
  show ?thesis using assms(3) w same_pool_of [OF user_step_same [OF _ b], of q'] by (auto simp: queue_step_def)
qed

section \<open>Property\<close>

text \<open>C25: The operation queue refines the pool: it starts as a pool in which all operations wait, every step of
  its scheduler, its threads, the main thread or the keyboard is a step of the pool or not seen there, and
  so every state it can reach shows a state the pool can reach.\<close>

theorem queue_refines_pool:
  assumes "distinct ops" and "reachable (initial n st ops) q"
  shows "pool_of (initial n st ops) = Pool (mset ops) {#} {#} \<and>
    (\<forall>q'. queue_step q q' \<longrightarrow> pool_of q' = pool_of q \<or> pool_step (unat n) (\<lambda>op. priority (st op)) (pool_of q) (pool_of q')) \<and>
    (pool_step (unat n) (\<lambda>op. priority (st op)))\<^sup>*\<^sup>* (Pool (mset ops) {#} {#}) (pool_of q)"
proof -
  have init: "pool_of (initial n st ops) = Pool (mset ops) {#} {#}" by (simp add: pool_of_def initial_simps)
  have "(pool_step (unat n) (\<lambda>op. priority (st op)))\<^sup>*\<^sup>* (Pool (mset ops) {#} {#}) (pool_of q)"
    using assms(2)
  proof (induction rule: reachable.induct)
    case (step q q')
    then show ?case using queue_simulates [OF assms(1) step.hyps(1,2)] by (auto intro: rtranclp.rtrancl_into_rtrancl)
  qed (simp add: init)
  then show ?thesis using init queue_simulates [OF assms] by blast
qed

text \<open>A run that has started the only operation.\<close>

lemma queue_refines_pool_witness:
  "\<exists>q. reachable toy_queue q \<and> pool_of q = Pool {#} {#7#} {#} \<and>
     (pool_step 1 (\<lambda>op. priority (toy_store op)))\<^sup>*\<^sup>* (Pool {#7#} {#} {#}) (pool_of q)"
proof -
  obtain q where q: "reachable toy_queue q" "runningOps q = [7]" using toy_scheduled by blast
  have d: "distinct [7 :: opid]" by simp
  from queue_refines_pool [OF d q(1)]
  have run: "(pool_step 1 (\<lambda>op. priority (toy_store op)))\<^sup>*\<^sup>* (Pool {#7#} {#} {#}) (pool_of q)" by simp
  have "waiting p' + active p' + ended p' = waiting p + active p + ended p"
    if "(pool_step 1 (\<lambda>op. priority (toy_store op)))\<^sup>*\<^sup>* p p'" for p p'
    using that by (induction rule: rtranclp.induct) (auto dest: pool_step_keeps(1))
  from this [OF run] have "pool_of q = Pool {#} {#7#} {#}" using q(2) by (cases "pool_of q") (auto simp: pool_of_def)
  then show ?thesis using q(1) run by auto
qed

end
