(* ===== verification/Pipeline.thy ===== *)
theory Pipeline
  imports Converter Merger_Cli Lookup_Cli
begin

text \<open>
  The tools one after the other: a list of \<^verbatim>\<open>user:password\<close> lines is converted into files of
  records, these are merged into a database, and passwords are looked up in it. The files the converter
  wrote are the ones the merger reads; its result is what the lookup tool opens.
\<close>

section \<open>From the lines to the answers\<close>

text \<open>The hashes of all lines of a text, as the reader sees them; a line without a password has none.\<close>

definition leaked :: "(string \<Rightarrow> u8 list) \<Rightarrow> UserPasswordReaderOptions list \<Rightarrow> string \<Rightarrow> quad list" where
  "leaked md5 options cs =
     map quad (filter isValid (map (line_hash md5 (newReader (open_stream cs) options)) (split_lines cs)))"

definition readable_files :: "out_files \<Rightarrow> files" where
  "readable_files out = (\<lambda>x. map_option (\<lambda>bs. (bs, True)) (out x))"

text \<open>The merger is given exactly the files of the converter, in any order, at least as many at once
  as there are, and a new name for the database.\<close>

definition merges_all :: "out_files \<Rightarrow> string list \<Rightarrow> (nat \<Rightarrow> string) \<Rightarrow> merger_options \<Rightarrow> bool" where
  "merges_all out paths unique opts \<longleftrightarrow>
     distinct paths \<and> set paths = dom out \<and> int (length paths) \<le> mo_max opts \<and>
     \<not> mo_help opts \<and> \<not> mo_warranty opts \<and> mo_src opts = None \<and> mo_input opts = Some paths \<and>
     mo_output opts \<noteq> [] \<and> mo_output opts \<notin> dom out \<and>
     inj unique \<and> (\<forall>i. unique i @ mo_ext opts \<noteq> mo_output opts \<and> unique i @ mo_ext opts \<notin> dom out)"

text \<open>What may be answered about a password that was leaked \<open>n\<close> times: merging counts some records
  more than once, but never more than three times.\<close>

definition truthful :: "nat \<Rightarrow> answer \<Rightarrow> bool" where
  "truthful n a \<longleftrightarrow> (case a of NotFound \<Rightarrow> n = 0 | Found c \<Rightarrow> 0 < n \<and> n \<le> unat c \<and> unat c \<le> 3 * n)"

section \<open>The files between the tools\<close>

lemma tally_weight:
  assumes "length qs < 2 ^ 32"
  shows "(\<Sum>e \<leftarrow> tally qs. if fst e = q then unat (snd e) else 0) = count_list qs q"
proof -
  have small: "unat (word_of_nat (count_list qs x) :: u32) = count_list qs x" for x
    using le_less_trans [OF count_le_length assms, of x] by (simp only: unsigned_of_nat) (simp add: take_bit_nat_eq_self)
  have "(\<Sum>e \<leftarrow> tally qs. if fst e = q then unat (snd e) else 0) =
      (\<Sum>x \<leftarrow> sorted_list_of_set (set qs). if x = q then count_list qs x else 0)"
    by (simp add: tally_def o_def small cong: if_cong)
  also have "\<dots> = (\<Sum>x \<in> set qs. if x = q then count_list qs x else 0)"
    by (simp add: sum_list_distinct_conv_sum_set)
  also have "\<dots> = count_list qs q" by (simp add: count_notin)
  finally show ?thesis .
qed

lemma tally_sorted_unique: "qs \<noteq> [] \<Longrightarrow> sorted_unique (tally qs)"
  by (simp add: sorted_unique_def sorted_tally tally_Nil_iff)

lemma length_tally: "length (tally qs) \<le> length qs"
  by (simp add: tally_def card_length)

lemma fst_tally: "fst ` set (tally qs) = set qs"
  by (force simp: tally_def)

lemma count_concat: "count_list (concat xss) q = (\<Sum>xs \<leftarrow> xss. count_list xs q)"
  by (induction xss) simp_all

text \<open>The files of a conversion, one per part that holds passwords: what the parts hold together is what
  the files hold together.\<close>

definition split_files :: "(nat \<Rightarrow> string) \<Rightarrow> quad list list \<Rightarrow> out_files \<Rightarrow> bool" where
  "split_files name parts out \<longleftrightarrow> inj name \<and>
     (\<forall>i < length parts. out (name i) = (if parts ! i = [] then None else Some (file_of (tally (parts ! i))))) \<and>
     (\<forall>x. (\<forall>i < length parts. x \<noteq> name i) \<longrightarrow> out x = None)"

lemma split_files_dom:
  assumes "split_files name parts out"
  shows "dom out = name ` {i. i < length parts \<and> parts ! i \<noteq> []}" (is "_ = name ` ?I")
proof (intro set_eqI iffI)
  fix x
  assume "x \<in> dom out"
  then obtain i where "i < length parts" "x = name i" using assms unfolding split_files_def by (metis domIff)
  then show "x \<in> name ` ?I" using \<open>x \<in> dom out\<close> assms by (auto simp: split_files_def split: if_splits)
next
  fix x
  assume "x \<in> name ` ?I"
  then show "x \<in> dom out" using assms by (auto simp: split_files_def)
qed

lemma split_files_sum:
  assumes "split_files name parts out" and "distinct paths" and "set paths = dom out"
    and "\<And>i. i < length parts \<Longrightarrow> parts ! i \<noteq> [] \<Longrightarrow> g (name i) = f (parts ! i)" and "f [] = (0 :: nat)"
  shows "(\<Sum>p \<leftarrow> paths. g p) = (\<Sum>qs \<leftarrow> parts. f qs)"
proof -
  let ?I = "{i. i < length parts \<and> parts ! i \<noteq> []}"
  note dom = split_files_dom [OF assms(1)]
  have inj: "inj_on name ?I" using assms(1) by (auto simp: split_files_def inj_def inj_on_def)
  have "(\<Sum>p \<leftarrow> paths. g p) = (\<Sum>p \<in> name ` ?I. g p)"
    using assms(2,3) dom by (simp add: sum_list_distinct_conv_sum_set)
  also have "\<dots> = (\<Sum>i \<in> ?I. f (parts ! i))"
    using inj assms(4) by (simp add: sum.reindex)
  also have "\<dots> = (\<Sum>i \<in> {..<length parts}. f (parts ! i))"
    using assms(5) by (intro sum.mono_neutral_left) auto
  also have "\<dots> = (\<Sum>qs \<leftarrow> parts. f qs)"
    by (simp add: sum_list_sum_nth atLeast0LessThan)
  finally show ?thesis .
qed

lemma convert_split:
  assumes "texts src = Some (cs, True)" and "newConvert texts src stem place ext maxMem options = Inr d"
    and "maxMem \<noteq> 0" and "unat maxMem \<le> 2 ^ 64 - 68" and "inj place"
  shows "\<exists>name parts out. convert_execute md5 (\<lambda>_. True) (\<lambda>_ _. False) d Map.empty = Some out \<and>
    split_files name parts out \<and> concat parts = leaked md5 options cs"
proof -
  let ?hs = "\<lambda>part. filter isValid (map (line_hash md5 (newReader (open_stream cs) options)) part)"
  let ?name = "\<lambda>i. place (stem @ dash_hex (Suc i)) @ ext"
  obtain parts out where out: "convert_execute md5 (\<lambda>_. True) (\<lambda>_ _. False) d Map.empty = Some out"
    "concat parts = split_lines cs"
    "\<forall>i < length parts. out (?name i) = (let hs = ?hs (parts ! i) in if hs = [] then None else Some (file_of (tally (map quad hs))))"
    "\<forall>x. (\<forall>i < length parts. x \<noteq> ?name i) \<longrightarrow> out x = Map.empty x"
    using convert_parts [OF assms(1-4), of "\<lambda>_ _. False" "\<lambda>_. True" Map.empty md5] assms(5) by auto
  let ?parts = "map (\<lambda>part. map quad (?hs part)) parts"
  have "inj ?name"
  proof (rule injI)
    fix i j
    assume "?name i = ?name j"
    then have "dash_hex (Suc i) = dash_hex (Suc j)" using assms(5) by (auto dest: injD)
    then show "i = j" by (auto dest: dash_hex_inj)
  qed
  then have "split_files ?name ?parts out"
    using out(3,4) by (simp add: split_files_def Let_def)
  moreover have "concat ?parts = leaked md5 options cs"
  proof -
    have "concat (map (\<lambda>part. map quad (?hs part)) parts) = map quad (?hs (concat parts))"
      by (simp add: map_concat filter_concat o_def)
    then show ?thesis by (simp add: out(2) leaked_def)
  qed
  ultimately show ?thesis using out(1) by blast
qed

text \<open>Merging such files gives a database of all hashes, with counts that are truthful.\<close>

lemma merged_database:
  assumes "split_files name parts out" and "merges_all out paths unique opts"
    and "concat parts \<noteq> []" and "length (concat parts) < 2 ^ 30"
  shows "\<exists>c fs es. merger_run (readable_files out) unique time opts = Some (MergerExit True c fs) \<and>
    fs (mo_output opts) = Some (file_of es, True) \<and> database es \<and> fst ` set es = set (concat parts) \<and>
    (\<forall>q. truthful (count_list (concat parts) q) (db_answer es q))"
proof -
  let ?L = "concat parts"
  have inj: "inj name" and at: "\<And>i. i < length parts \<Longrightarrow> parts ! i \<noteq> [] \<Longrightarrow> out (name i) = Some (file_of (tally (parts ! i)))"
    using assms(1) by (simp_all add: split_files_def)
  have paths: "distinct paths" "set paths = dom out" "int (length paths) \<le> mo_max opts"
    using assms(2) by (simp_all add: merges_all_def)
  define E where "E = (\<lambda>p. let i = inv name p in tally (parts ! i))"
  have E: "E (name i) = tally (parts ! i)" for i by (simp add: E_def inv_f_f [OF inj])
  have part: "length qs \<le> length ?L" if "qs \<in> set parts" for qs
    using that by (simp add: length_concat member_le_sum_list)
  have small: "length (parts ! i) < 2 ^ 32" if "i < length parts" for i
    using part [of "parts ! i"] that assms(4) by simp
  have files: "readable_files out p = Some (file_of (E p), True) \<and> sorted_unique (E p)" if p: "p \<in> dom out" for p
  proof -
    obtain i where i: "i < length parts" "p = name i" "parts ! i \<noteq> []" using p unfolding split_files_dom [OF assms(1)] by blast
    then show ?thesis using at [of i] by (simp add: readable_files_def E tally_sorted_unique)
  qed
  have total: "entry_total E paths \<le> length ?L"
  proof -
    have "entry_total E paths = (\<Sum>qs \<leftarrow> parts. length (tally qs))"
      unfolding entry_total_def
      by (rule split_files_sum [OF assms(1) paths(1,2), of "\<lambda>p. length (E p)" "\<lambda>qs. length (tally qs)"])
        (simp_all add: E tally_Nil_iff [THEN iffD2])
    also have "\<dots> \<le> (\<Sum>qs \<leftarrow> parts. length qs)" by (rule sum_list_mono) (rule length_tally)
    finally show ?thesis by (simp add: length_concat)
  qed
  have weight: "weight E paths q = count_list ?L q" for q
    unfolding weight_def count_concat
    by (rule split_files_sum [OF assms(1) paths(1,2), of "\<lambda>p. \<Sum>e \<leftarrow> E p. if fst e = q then unat (snd e) else 0" "\<lambda>qs. count_list qs q"])
      (simp_all only: E tally_weight small count_list.simps)
  have hashes: "hashes_of E paths = set ?L"
    unfolding hashes_of_def paths(2) split_files_dom [OF assms(1)] by (auto simp: E fst_tally set_conv_nth [of parts])
  have given: "merger_given E (readable_files out) unique paths opts"
  proof -
    have "20 * entry_total E paths < 2 ^ 64" using total assms(4) by simp
    moreover have "list_all (\<lambda>p. readable_files out p = Some (file_of (E p), True) \<and> sorted_unique (E p)) paths"
      unfolding list_all_iff paths(2) using files by blast
    moreover have "readable_files out (mo_output opts) = None"
      using assms(2) by (simp add: merges_all_def readable_files_def domIff)
    ultimately show ?thesis using assms(2) unfolding merger_given_def merges_all_def by (simp only: simp_thms)
  qed
  have ne: "paths \<noteq> []" using hashes assms(3) by (auto simp: hashes_of_def)
  obtain c es where run: "merger_run (readable_files out) unique time opts =
      Some (MergerExit True c ((readable_files out)(mo_output opts \<mapsto> (file_of es, True))))"
    "sorted_unique es" "fst ` set es = hashes_of E paths" "counts_kept E paths es"
    using merger_once [OF given ne paths(3)] by blast
  have count: "count_list ?L q \<le> unat c' \<and> unat c' \<le> 3 * count_list ?L q \<and> 0 < count_list ?L q" if "(q, c') \<in> set es" for q c'
  proof -
    have "q \<in> set ?L" using that run(3) hashes by force
    then have "0 < count_list ?L q" using count_list_0_iff [of ?L q] by auto
    moreover have "3 * count_list ?L q < 2 ^ 32" using count_le_length [of ?L q] assms(4) by simp
    ultimately show ?thesis using run(4) that by (auto simp: counts_kept_def weight)
  qed
  have len: "length es \<le> length ?L" using length_out [OF run(2,3)] total by simp
  have db: "database es"
  proof -
    have "0 < snd e" if "e \<in> set es" for e
      using count [of "fst e" "snd e"] that by (auto simp: word_gt_0 intro!: gr0I)
    then show ?thesis using run(2) len assms(4) by (simp add: database_def sorted_unique_def)
  qed
  have "truthful (count_list ?L q) (db_answer es q)" for q
  proof (cases "map_of es q")
    case None
    then have "q \<notin> set ?L" using run(3) hashes by (metis map_of_eq_None_iff)
    then have "count_list ?L q = 0" by (simp only: count_list_0_iff not_False_eq_True)
    then show ?thesis using None by (simp add: db_answer_def truthful_def)
  next
    case (Some c')
    then show ?thesis using count [OF map_of_SomeD [OF Some]] by (simp only: db_answer_def truthful_def) simp
  qed
  with run hashes db show ?thesis by (intro exI [of _ c] exI [of _ "(readable_files out)(mo_output opts \<mapsto> (file_of es, True))"] exI [of _ es]) simp
qed

section \<open>Properties\<close>

text \<open>
  C1: The tools together tell the truth: converting a list of users and passwords returns, merging the
  files it wrote returns, and the lookup tool on the result finds exactly the hashes of the list's lines.
  The number it reports is at least how often the hash occurs in the list and at most three times that.
  Passwords asked for must not hash above all hashes of the list.
\<close>

theorem leaked_passwords_found:
  assumes "texts src = Some (cs, True)" and "newConvert texts src stem place ext maxMem options = Inr d"
    and "maxMem \<noteq> 0" and "unat maxMem \<le> 2 ^ 64 - 68" and "inj place"
    and "leaked md5 options cs \<noteq> []" and "length (leaked md5 options cs) < 2 ^ 30"
  shows "\<exists>out. convert_execute md5 (\<lambda>_. True) (\<lambda>_ _. False) d Map.empty = Some out \<and>
    (\<forall>paths unique time opts. merges_all out paths unique opts \<longrightarrow>
      (\<exists>c fs. merger_run (readable_files out) unique time opts = Some (MergerExit True c fs) \<and>
        (\<forall>pwds. (\<forall>pwd \<in> set pwds. \<exists>h \<in> set (leaked md5 options cs). quad (hash_of_string md5 pwd) \<le> h) \<longrightarrow>
          (\<exists>answers. lookup_main md5 fs (mo_output opts) [] pwds = Answers answers \<and>
            list_all2 (\<lambda>pwd. truthful (count_list (leaked md5 options cs) (quad (hash_of_string md5 pwd)))) pwds answers))))"
proof -
  obtain name parts out where out: "convert_execute md5 (\<lambda>_. True) (\<lambda>_ _. False) d Map.empty = Some out"
    "split_files name parts out" "concat parts = leaked md5 options cs"
    using convert_split [OF assms(1-5)] by blast
  have "\<exists>c fs. merger_run (readable_files out) unique time opts = Some (MergerExit True c fs) \<and>
        (\<forall>pwds. (\<forall>pwd \<in> set pwds. \<exists>h \<in> set (leaked md5 options cs). quad (hash_of_string md5 pwd) \<le> h) \<longrightarrow>
          (\<exists>answers. lookup_main md5 fs (mo_output opts) [] pwds = Answers answers \<and>
            list_all2 (\<lambda>pwd. truthful (count_list (leaked md5 options cs) (quad (hash_of_string md5 pwd)))) pwds answers))"
    if m: "merges_all out paths unique opts" for paths unique opts and time :: "nat option \<Rightarrow> string"
  proof -
    obtain c fs es where run: "merger_run (readable_files out) unique time opts = Some (MergerExit True c fs)"
      "fs (mo_output opts) = Some (file_of es, True)" "database es" "fst ` set es = set (leaked md5 options cs)"
      and t: "\<And>q. truthful (count_list (leaked md5 options cs) q) (db_answer es q)"
      using merged_database [OF out(2) m] assms(6,7) unfolding out(3) by blast
    have db: "mo_output opts \<noteq> []" using m by (simp add: merges_all_def)
    have "lookup_main md5 fs (mo_output opts) [] pwds = Answers (map (\<lambda>pwd. db_answer es (quad (hash_of_string md5 pwd))) pwds)"
      if "\<forall>pwd \<in> set pwds. \<exists>h \<in> set (leaked md5 options cs). quad (hash_of_string md5 pwd) \<le> h" for pwds
      by (rule lookup_database [where es = es and fs = fs and f = "mo_output opts", OF run(2) db run(3)]) (use that in \<open>simp flip: run(4)\<close>)
    moreover have "list_all2 (\<lambda>pwd. truthful (count_list (leaked md5 options cs) (quad (hash_of_string md5 pwd)))) pwds
        (map (\<lambda>pwd. db_answer es (quad (hash_of_string md5 pwd))) pwds)" for pwds
      by (simp add: list_all2_map2 list_all2_same t)
    ultimately show ?thesis using run(1) by blast
  qed
  with out(1) show ?thesis by blast
qed

theorem leaked_passwords_found_witness:
  "\<exists>d out paths unique opts c fs n. newConvert [''in'' \<mapsto> (''ab'', True)] ''in'' ''in'' (\<lambda>x. ''out/'' @ x) ''.md5'' 100 [] = Inr d \<and>
     convert_execute toy_md5 (\<lambda>_. True) (\<lambda>_ _. False) d Map.empty = Some out \<and>
     merger_run (readable_files out) unique (\<lambda>_. []) opts = Some (MergerExit True c fs) \<and> mo_input opts = Some paths \<and>
     lookup_main toy_md5 fs (mo_output opts) [] [''ab''] = Answers [Found n] \<and> n > 0"
proof -
  let ?texts = "[''in'' \<mapsto> (''ab'', True)]"
  obtain d where d: "newConvert ?texts ''in'' ''in'' (\<lambda>x. ''out/'' @ x) ''.md5'' 100 [] = Inr d" by (simp add: newConvert_def)
  have L: "leaked toy_md5 [] ''ab'' = [Quad 0 2]" by code_simp
  have q: "quad (hash_of_string toy_md5 ''ab'') = Quad 0 2" by code_simp
  have t: "?texts ''in'' = Some (''ab'', True)" and m: "(100 :: u64) \<noteq> 0" "unat (100 :: u64) \<le> 2 ^ 64 - 68"
    and inj: "inj (\<lambda>x. ''out/'' @ x)" by (simp_all add: inj_def)
  have ne: "leaked toy_md5 [] ''ab'' \<noteq> []" "length (leaked toy_md5 [] ''ab'') < 2 ^ 30" by (simp_all add: L)
  obtain out where out: "convert_execute toy_md5 (\<lambda>_. True) (\<lambda>_ _. False) d Map.empty = Some out"
    and merged: "\<forall>paths unique time opts. merges_all out paths unique opts \<longrightarrow>
      (\<exists>c fs. merger_run (readable_files out) unique time opts = Some (MergerExit True c fs) \<and>
        (\<forall>pwds. (\<forall>pwd \<in> set pwds. \<exists>h \<in> set [Quad 0 2]. quad (hash_of_string toy_md5 pwd) \<le> h) \<longrightarrow>
          (\<exists>answers. lookup_main toy_md5 fs (mo_output opts) [] pwds = Answers answers \<and>
            list_all2 (\<lambda>pwd. truthful (count_list [Quad 0 2] (quad (hash_of_string toy_md5 pwd)))) pwds answers)))"
    using leaked_passwords_found [OF t d m inj ne] unfolding L by (elim exE conjE) (rule that)
  obtain name parts where files: "split_files name parts out"
    using convert_split [OF t d m inj, of toy_md5] out by auto
  have fin: "finite (dom out)" unfolding split_files_dom [OF files] by simp
  obtain paths where paths: "distinct paths" "set paths = dom out" using finite_distinct_list [OF fin] by blast
  let ?n = "sum_list (map length paths)"
  have long: "x \<notin> dom out" if "?n < length x" for x
  proof
    assume "x \<in> dom out"
    then have "length x \<in> set (map length paths)" by (simp only: set_map paths(2) image_eqI)
    then have "length x \<le> ?n" by (rule member_le_sum_list) simp
    with that show False by simp
  qed
  define opts where "opts = \<lparr>mo_help = False, mo_warranty = False, mo_src = None, mo_input = Some paths,
    mo_output = replicate (?n + 1) (CHR ''d''), mo_tmp = [], mo_max = int (length paths), mo_ext = []\<rparr>"
  define unique where "unique = (\<lambda>i. replicate (?n + 2 + i) (CHR ''t''))"
  have len: "length (unique i) = ?n + 2 + i" "length (mo_output opts) = ?n + 1" for i
    by (simp_all add: unique_def opts_def)
  have "inj unique"
  proof (rule injI)
    fix i j
    assume "unique i = unique j"
    then have "length (unique i) = length (unique j)" by (simp only:)
    then show "i = j" by (simp only: len add_left_cancel)
  qed
  moreover have "unique i \<noteq> mo_output opts" for i
  proof
    assume "unique i = mo_output opts"
    then have "length (unique i) = length (mo_output opts)" by (simp only:)
    then show False unfolding len by simp
  qed
  moreover have "unique i \<notin> dom out" for i by (rule long) (simp add: len)
  moreover have "mo_output opts \<notin> dom out" by (rule long) (simp add: len)
  moreover have "mo_output opts \<noteq> []" using len(2) by (metis Suc_eq_plus1 list.size(3) nat.distinct(1))
  ultimately have "merges_all out paths unique opts"
    using paths unfolding merges_all_def by (simp add: opts_def)
  then obtain c fs where run: "merger_run (readable_files out) unique (\<lambda>_. []) opts = Some (MergerExit True c fs)"
    and answered: "\<forall>pwds. (\<forall>pwd \<in> set pwds. \<exists>h \<in> set [Quad 0 2]. quad (hash_of_string toy_md5 pwd) \<le> h) \<longrightarrow>
      (\<exists>answers. lookup_main toy_md5 fs (mo_output opts) [] pwds = Answers answers \<and>
        list_all2 (\<lambda>pwd. truthful (count_list [Quad 0 2] (quad (hash_of_string toy_md5 pwd)))) pwds answers)"
    using merged by blast
  obtain answers where answers: "lookup_main toy_md5 fs (mo_output opts) [] [''ab''] = Answers answers"
    "list_all2 (\<lambda>pwd. truthful (count_list [Quad 0 2] (quad (hash_of_string toy_md5 pwd)))) [''ab''] answers"
    using answered [THEN spec, of "[''ab'']"] q by auto
  from answers(2) obtain n where n: "answers = [Found n]" "0 < unat n"
    by (cases answers) (auto simp: truthful_def q split: answer.splits)
  then have "0 < n" by (simp add: word_less_nat_alt)
  moreover have "mo_input opts = Some paths" by (simp add: opts_def)
  moreover note answers(1) [unfolded n(1)]
  ultimately show ?thesis using d out run by (intro exI conjI)
qed

end
