(* ===== verification/Uri_Parse.thy ===== *)
theory Uri_Parse
  imports Uri
begin

text \<open>
  That the regular expression of \<^verbatim>\<open>uri.cpp\<close> takes a whole URI apart the way it was put together:
  which strings each group can match, that there is only one way to match all of a URI, and what the
  parser makes of the groups.
\<close>

section \<open>What the parts of the expression match\<close>

text \<open>A text of a class of characters and of percent-encoded bytes, which stay encoded.\<close>

inductive enc :: "(char \<Rightarrow> bool) \<Rightarrow> string \<Rightarrow> bool" for P where
  enc_Nil: "enc P []"
| enc_char: "P c \<Longrightarrow> enc P a \<Longrightarrow> enc P (c # a)"
| enc_percent: "upper_hex x \<Longrightarrow> upper_hex y \<Longrightarrow> enc P a \<Longrightarrow> enc P (CHR ''%'' # x # y # a)"

lemmas enc_intros [intro] = enc.intros

inductive_cases enc_ConsE: "enc P (c # a)"

lemma enc_append: "enc P a \<Longrightarrow> enc P b \<Longrightarrow> enc P (a @ b)"
  by (induction rule: enc.induct) auto

lemma enc_mono: "enc P a \<Longrightarrow> (\<And>c. P c \<Longrightarrow> Q c) \<Longrightarrow> enc Q a"
  by (induction rule: enc.induct) auto

lemma enc_all: "list_all P a \<Longrightarrow> enc P a"
  by (induction a) auto

text \<open>A text is the longest one at the front of a string that goes on with another character.\<close>

definition stops :: "(char \<Rightarrow> bool) \<Rightarrow> string \<Rightarrow> bool" where
  "stops P s \<longleftrightarrow> s = [] \<or> \<not> P (hd s) \<and> hd s \<noteq> CHR ''%''"

lemma stops_simps [simp]: "stops P []" "stops P (c # s) \<longleftrightarrow> \<not> P c \<and> c \<noteq> CHR ''%''"
  by (simp_all add: stops_def)

lemma enc_hd: "enc P (c # a) \<Longrightarrow> P c \<or> c = CHR ''%''"
  by (erule enc_ConsE) simp_all

lemma enc_step: "enc P (c # a) \<Longrightarrow> c \<noteq> CHR ''%'' \<Longrightarrow> enc P a"
  by (erule enc_ConsE) simp_all

lemma enc_skip: "enc P (CHR ''%'' # a) \<Longrightarrow> \<not> P (CHR ''%'') \<Longrightarrow> \<exists>x y b. a = x # y # b \<and> enc P b"
  by (erule enc_ConsE) blast+

lemma enc_unique:
  assumes "enc P a" and "enc P b" and "a @ s = b @ t" and "stops P s" and "stops P t" and "\<not> P (CHR ''%'')"
  shows "a = b \<and> s = t"
  using assms(1-3)
proof (induction arbitrary: b rule: enc.induct)
  case enc_Nil
  have "b = []"
  proof (cases b)
    case (Cons c b')
    with enc_Nil(2) have "s = c # b' @ t" by simp
    with assms(4) enc_hd [OF enc_Nil(1) [unfolded Cons]] show ?thesis by simp
  qed
  with enc_Nil(2) show ?case by simp
next
  case (enc_char c a)
  have c: "c \<noteq> CHR ''%''" using enc_char.hyps(1) assms(6) by blast
  show ?case
  proof (cases b)
    case Nil
    with enc_char.prems(2) have "t = c # a @ s" by simp
    with assms(5) enc_char.hyps(1) show ?thesis by simp
  next
    case (Cons d b')
    with enc_char.prems(2) have "d = c" "a @ s = b' @ t" by simp_all
    with enc_char.IH [OF enc_step [OF enc_char.prems(1) [unfolded Cons]]] c Cons show ?thesis by simp
  qed
next
  case (enc_percent x y a)
  show ?case
  proof (cases b)
    case Nil
    with enc_percent.prems(2) have "t = CHR ''%'' # x # y # a @ s" by simp
    with assms(5) show ?thesis by simp
  next
    case (Cons d b')
    then have d: "d = CHR ''%''" "x # y # a @ s = b' @ t" using enc_percent.prems(2) by simp_all
    obtain x' y' b'' where b': "b' = x' # y' # b''" "enc P b''"
      using enc_skip [of P b'] enc_percent.prems(1) assms(6) Cons d(1) by blast
    with d(2) have "x' = x" "y' = y" "a @ s = b'' @ t" by simp_all
    with enc_percent.IH [OF b'(2)] b'(1) Cons d(1) show ?thesis by simp
  qed
qed

lemma matches_encoded:
  "y \<in> set (matches (encoded P) (s, c)) \<longleftrightarrow>
   (\<exists>x t. s = x # t \<and> P x \<and> y = (t, c)) \<or>
   (\<exists>a b t. s = CHR ''%'' # a # b # t \<and> upper_hex a \<and> upper_hex b \<and> y = (t, c))"
  by (cases s; cases "tl s"; cases "tl (tl s)") (auto simp: encoded_def matches_times numeral_2_eq_2 split: if_splits)

lemma set_greedy_encoded:
  "length s \<le> n \<Longrightarrow> set (rep_greedy n (matches (encoded P)) (s, c)) = {(t, c) | t. \<exists>a. s = a @ t \<and> enc P a}"
proof (induction n arbitrary: s)
  case (Suc n)
  let ?E = "\<lambda>s. {(t, c) | t. \<exists>a. s = a @ t \<and> enc P a}"
  have step: "z \<in> set (matches (encoded P) (s, c)) \<Longrightarrow> consumes (s, c) z \<and> snd z = c \<and> length (fst z) \<le> n" for z
    using Suc.prems by (auto simp: matches_encoded consumes_def)
  have "set (rep_greedy (Suc n) (matches (encoded P)) (s, c)) =
      insert (s, c) (\<Union>z \<in> set (matches (encoded P) (s, c)). ?E (fst z))"
    using step Suc.IH by (force simp: prod_eq_iff)
  also have "\<dots> = ?E s"
  proof (intro equalityI subsetI)
    fix y
    assume "y \<in> insert (s, c) (\<Union>z \<in> set (matches (encoded P) (s, c)). ?E (fst z))"
    then show "y \<in> ?E s" by (auto simp: matches_encoded) (metis append_Cons enc.intros)+
  next
    fix y
    assume "y \<in> ?E s"
    then obtain a t where a: "s = a @ t" "enc P a" "y = (t, c)" by blast
    from a(2,1,3) show "y \<in> insert (s, c) (\<Union>z \<in> set (matches (encoded P) (s, c)). ?E (fst z))"
    proof cases
      case enc_Nil
      with a show ?thesis by simp
    next
      case (enc_char x b)
      with a have "(b @ t, c) \<in> set (matches (encoded P) (s, c))" by (simp add: matches_encoded)
      with enc_char a show ?thesis by (intro insertI2 UN_I) auto
    next
      case (enc_percent x z b)
      with a have "(b @ t, c) \<in> set (matches (encoded P) (s, c))" by (simp add: matches_encoded)
      with enc_percent a show ?thesis by (intro insertI2 UN_I) auto
    qed
  qed
  finally show ?case .
qed auto

definition is_group :: "(string \<Rightarrow> bool) \<Rightarrow> nat \<Rightarrow> regex \<Rightarrow> bool" where
  "is_group Q k r \<longleftrightarrow> (\<forall>s c y. y \<in> set (matches (Group k r) (s, c)) \<longleftrightarrow> (\<exists>a t. s = a @ t \<and> Q a \<and> y = (t, c(k \<mapsto> a))))"

lemma is_groupI:
  assumes "\<And>s c. set (matches r (s, c)) = {(t, c) | t. \<exists>a. s = a @ t \<and> Q a}"
  shows "is_group Q k r"
  unfolding is_group_def matches.simps set_map assms by (auto simp: image_iff)

lemma is_group_encoded: "is_group (enc P) k (Greedy (encoded P))"
  by (rule is_groupI) (simp only: matches.simps fst_conv set_greedy_encoded order_refl)

lemma set_greedy_run:
  "length s \<le> n \<Longrightarrow> set (rep_greedy n (matches (Cls P)) (s, c)) = {(t, c) | t. \<exists>a. s = a @ t \<and> list_all P a}"
proof (induction n arbitrary: s)
  case (Suc n)
  show ?case
  proof (cases s)
    case (Cons x xs)
    have "(\<exists>a. x # xs = a @ t \<and> list_all P a) \<longleftrightarrow> t = x # xs \<or> P x \<and> (\<exists>a. xs = a @ t \<and> list_all P a)" for t
      by (auto simp: Cons_eq_append_conv)
    then show ?thesis using Suc.IH [of xs] Suc.prems by (auto simp: Cons consumes_def)
  qed auto
qed simp

lemma is_group_run: "is_group (list_all P) k (Greedy (Cls P))"
  by (rule is_groupI) (simp only: matches.simps fst_conv set_greedy_run order_refl)

lemma is_group_plus: "is_group (\<lambda>a. a \<noteq> [] \<and> list_all P a) k (plus (Cls P))"
proof (rule is_groupI)
  fix s :: string and c :: captures
  show "set (matches (plus (Cls P)) (s, c)) = {(t, c) | t. \<exists>a. s = a @ t \<and> a \<noteq> [] \<and> list_all P a}"
  proof (cases s)
    case (Cons x xs)
    have "(\<exists>a. x # xs = a @ t \<and> a \<noteq> [] \<and> list_all P a) \<longleftrightarrow> P x \<and> (\<exists>a. xs = a @ t \<and> list_all P a)" for t
      by (auto simp: Cons_eq_append_conv)
    then show ?thesis by (simp add: plus_def Cons set_greedy_run)
  qed (simp add: plus_def)
qed

lemma group_iff:
  "is_group Q k r \<Longrightarrow> y \<in> set (matches (Group k r) (s, c)) \<longleftrightarrow> (\<exists>a t. s = a @ t \<and> Q a \<and> y = (t, c(k \<mapsto> a)))"
  unfolding is_group_def by blast

lemma in_Seq:
  assumes "\<And>q. q \<in> set (matches r x) \<longleftrightarrow> R q"
  shows "y \<in> set (matches (Seq r r') x) \<longleftrightarrow> (\<exists>q. R q \<and> y \<in> set (matches r' q))"
  unfolding matches.simps(3) set_concat set_map UN_iff image_iff using assms by blast

lemma seq_group:
  assumes "is_group Q k r"
  shows "y \<in> set (matches (Seq (Group k r) r') (s, c)) \<longleftrightarrow> (\<exists>a t. s = a @ t \<and> Q a \<and> y \<in> set (matches r' (t, c(k \<mapsto> a))))"
  unfolding in_Seq [OF group_iff [OF assms]] by blast

lemma seq_literal:
  "y \<in> set (matches (Seq (literal l) r) (s, c)) \<longleftrightarrow> (\<exists>t. s = l @ t \<and> y \<in> set (matches r (t, c)))"
  by (auto simp: split: if_splits) (metis append_take_drop_id)

text \<open>An optional part: a character and what follows it.\<close>

definition part :: "char \<Rightarrow> (string \<Rightarrow> bool) \<Rightarrow> string option \<Rightarrow> string \<Rightarrow> bool" where
  "part d Q z x \<longleftrightarrow> (case z of None \<Rightarrow> x = [] | Some a \<Rightarrow> x = d # a \<and> Q a)"

definition put :: "nat \<Rightarrow> string option \<Rightarrow> captures \<Rightarrow> captures" where
  "put k z c = (case z of None \<Rightarrow> c | Some a \<Rightarrow> c(k \<mapsto> a))"

lemma part_simps [simp]: "part d Q None x \<longleftrightarrow> x = []" "part d Q (Some a) x \<longleftrightarrow> x = d # a \<and> Q a"
  "put k None c = c" "put k (Some a) c = c(k \<mapsto> a)"
  by (simp_all add: part_def put_def)

lemma opt_group:
  assumes "is_group Q k r"
  shows "y \<in> set (matches (opt (Seq (literal [d]) (Group k r))) (s, c)) \<longleftrightarrow>
    (\<exists>z x t. s = x @ t \<and> part d Q z x \<and> y = (t, put k z c))"
proof -
  have "y \<in> set (matches (Seq (literal [d]) (Group k r)) (s, c)) \<longleftrightarrow> (\<exists>a t. s = d # a @ t \<and> Q a \<and> y = (t, c(k \<mapsto> a)))"
    unfolding seq_literal group_iff [OF assms] append_Cons append_Nil by blast
  then have "y \<in> set (matches (opt (Seq (literal [d]) (Group k r))) (s, c)) \<longleftrightarrow>
      (\<exists>a t. s = d # a @ t \<and> Q a \<and> y = (t, c(k \<mapsto> a))) \<or> y = (s, c)"
    unfolding opt_def matches.simps(4) set_append by auto
  also have "\<dots> \<longleftrightarrow> (\<exists>z x t. s = x @ t \<and> part d Q z x \<and> y = (t, put k z c))"
    by (subst split_option_ex) auto
  finally show ?thesis .
qed

lemma seq_opt_group:
  assumes "is_group Q k r"
  shows "y \<in> set (matches (Seq (opt (Seq (literal [d]) (Group k r))) r') (s, c)) \<longleftrightarrow>
    (\<exists>z x t. s = x @ t \<and> part d Q z x \<and> y \<in> set (matches r' (t, put k z c)))"
  unfolding in_Seq [OF opt_group [OF assms]] by blast

text \<open>The user information: it comes before its character.\<close>

definition userinfo :: "string option \<Rightarrow> string \<Rightarrow> bool" where
  "userinfo z x \<longleftrightarrow> (case z of None \<Rightarrow> x = [] | Some a \<Rightarrow> x = a @ ''@'' \<and> enc user_char a)"

lemma userinfo_simps [simp]: "userinfo None x \<longleftrightarrow> x = []" "userinfo (Some a) x \<longleftrightarrow> x = a @ ''@'' \<and> enc user_char a"
  by (simp_all add: userinfo_def)

lemma at_sign: "q \<in> set (matches (literal ''@'') (t, c)) \<longleftrightarrow> (\<exists>u. t = ''@'' @ u \<and> q = (u, c))"
  by (cases t) auto

lemma seq_userinfo:
  "y \<in> set (matches (Seq (opt (Seq (Group 2 (Greedy (encoded user_char))) (literal ''@''))) r') (s, c)) \<longleftrightarrow>
   (\<exists>z x t. s = x @ t \<and> userinfo z x \<and> y \<in> set (matches r' (t, put 2 z c)))"
proof -
  have "q \<in> set (matches (opt (Seq (Group 2 (Greedy (encoded user_char))) (literal ''@''))) (s, c)) \<longleftrightarrow>
      (\<exists>z x t. s = x @ t \<and> userinfo z x \<and> q = (t, put 2 z c))" for q
  proof -
    have "q \<in> set (matches (Seq (Group 2 (Greedy (encoded user_char))) (literal ''@'')) (s, c)) \<longleftrightarrow>
        (\<exists>a t. s = a @ ''@'' @ t \<and> enc user_char a \<and> q = (t, c(2 \<mapsto> a)))"
      unfolding seq_group [OF is_group_encoded] at_sign by blast
    then have "q \<in> set (matches (opt (Seq (Group 2 (Greedy (encoded user_char))) (literal ''@''))) (s, c)) \<longleftrightarrow>
        (\<exists>a t. s = a @ ''@'' @ t \<and> enc user_char a \<and> q = (t, c(2 \<mapsto> a))) \<or> q = (s, c)"
      unfolding opt_def matches.simps(4) set_append by auto
    also have "\<dots> \<longleftrightarrow> (\<exists>z x t. s = x @ t \<and> userinfo z x \<and> q = (t, put 2 z c))"
      by (subst split_option_ex) auto
    finally show ?thesis .
  qed
  from in_Seq [OF this] show ?thesis by blast
qed

section \<open>What the expression matches\<close>

text \<open>The part after \<^verbatim>\<open>//\<close>: user information, host, port, path, query and fragment.\<close>

definition pieces ::
  "string \<Rightarrow> string option \<Rightarrow> string \<Rightarrow> string option \<Rightarrow> string option \<Rightarrow> string option \<Rightarrow> string option \<Rightarrow> bool" where
  "pieces w user host port path query fragment \<longleftrightarrow>
     (\<exists>xu xp xa xq xf. w = xu @ host @ xp @ xa @ xq @ xf \<and> userinfo user xu \<and> enc host_char host \<and>
        part CHR '':'' (list_all is_digit) port xp \<and> part CHR ''/'' (enc path_char) path xa \<and>
        part CHR ''?'' (enc query_char) query xq \<and> part CHR ''#'' (enc query_char) fragment xf)"

definition groups ::
  "string \<Rightarrow> string option \<Rightarrow> string \<Rightarrow> string option \<Rightarrow> string option \<Rightarrow> string option \<Rightarrow> string option \<Rightarrow> captures" where
  "groups scheme user host port path query fragment =
     put 8 fragment (put 7 query (put 5 (map_option (Cons CHR ''/'') path) (put 4 port ((put 2 user [1 \<mapsto> scheme])(3 \<mapsto> host)))))"

lemma opt_path:
  "y \<in> set (matches (opt (Group 5 (Seq (literal ''/'') (Greedy (encoded path_char))))) (s, c)) \<longleftrightarrow>
   (\<exists>z x t. s = x @ t \<and> part CHR ''/'' (enc path_char) z x \<and> y = (t, put 5 (map_option (Cons CHR ''/'') z) c))"
proof -
  have "is_group (\<lambda>a. \<exists>b. a = CHR ''/'' # b \<and> enc path_char b) 5 (Seq (literal ''/'') (Greedy (encoded path_char)))"
  proof (rule is_groupI)
    fix s c
    have "set (matches (Greedy (encoded path_char)) (t, c)) = {(u, c) | u. \<exists>a. t = a @ u \<and> enc path_char a}" for t
      by (simp only: matches.simps fst_conv set_greedy_encoded order_refl)
    then show "set (matches (Seq (literal ''/'') (Greedy (encoded path_char))) (s, c)) =
        {(t, c) | t. \<exists>a. s = a @ t \<and> (\<exists>b. a = CHR ''/'' # b \<and> enc path_char b)}"
      by (intro set_eqI) (simp only: seq_literal, force)
  qed
  note group_iff [OF this]
  then have "y \<in> set (matches (opt (Group 5 (Seq (literal ''/'') (Greedy (encoded path_char))))) (s, c)) \<longleftrightarrow>
      (\<exists>b t. s = CHR ''/'' # b @ t \<and> enc path_char b \<and> y = (t, c(5 \<mapsto> CHR ''/'' # b))) \<or> y = (s, c)"
    unfolding opt_def matches.simps(4) set_append by auto
  also have "\<dots> \<longleftrightarrow> (\<exists>z x t. s = x @ t \<and> part CHR ''/'' (enc path_char) z x \<and> y = (t, put 5 (map_option (Cons CHR ''/'') z) c))"
    by (subst split_option_ex) auto
  finally show ?thesis .
qed

lemma matches_authority:
  "y \<in> set (matches authority_path (s, c)) \<longleftrightarrow>
   (\<exists>zu xu host zp xp za xa t. s = ''//'' @ xu @ host @ xp @ xa @ t \<and> userinfo zu xu \<and> enc host_char host \<and>
      part CHR '':'' (list_all is_digit) zp xp \<and> part CHR ''/'' (enc path_char) za xa \<and>
      y = (t, put 5 (map_option (Cons CHR ''/'') za) (put 4 zp ((put 2 zu c)(3 \<mapsto> host)))))"
  unfolding authority_path_def seq_literal seq_userinfo seq_group [OF is_group_encoded] seq_opt_group [OF is_group_run] opt_path
  by (rule iffI; elim exE conjE; hypsubst; intro exI conjI; (rule refl | assumption))

lemma segment_stuck: "matches (Seq (plus (encoded segment_char)) r) (CHR ''/'' # s, c) = []"
proof -
  have "\<not> segment_char CHR ''/''" by code_simp
  then have "set (matches (encoded segment_char) (CHR ''/'' # s, c)) = {}"
    by (intro equals0I) (auto simp: matches_encoded)
  then show ?thesis by (simp add: plus_def)
qed

text \<open>After \<^verbatim>\<open>//\<close> the other kind of path can only be empty.\<close>

lemma matches_opaque: "matches opaque_path (''//'' @ w, c) = [(''//'' @ w, c)]"
proof -
  let ?r = "Seq (plus (encoded segment_char)) (Greedy (encoded path_char))"
  have "matches ?r (CHR ''/'' # t, c) = []" for t by (rule segment_stuck)
  then have "matches (Seq (opt (literal ''/'')) ?r) (''//'' @ w, c) = []"
    unfolding opt_def by (simp del: matches.simps(5))
  then show ?thesis
    unfolding opaque_path_def opt_def [of "Group 6 _"] matches.simps(1,4,7) by simp
qed

definition ends :: regex where
  "ends = Seq (opt (Seq (literal ''?'') (Group 7 (Greedy (encoded query_char)))))
     (opt (Seq (literal ''#'') (Group 8 (Greedy (encoded query_char)))))"

lemma matches_ends:
  "y \<in> set (matches ends (s, c)) \<longleftrightarrow>
   (\<exists>zq xq zf xf t. s = xq @ xf @ t \<and> part CHR ''?'' (enc query_char) zq xq \<and> part CHR ''#'' (enc query_char) zf xf \<and>
      y = (t, put 8 zf (put 7 zq c)))"
  unfolding ends_def seq_opt_group [OF is_group_encoded] opt_group [OF is_group_encoded] by blast

lemma seq_assoc: "set (matches (Seq (Seq r1 r2) r3) x) = set (matches (Seq r1 (Seq r2 r3)) x)"
  by simp

lemma seq_path:
  "y \<in> set (matches (Seq (opt (Group 5 (Seq (literal ''/'') (Greedy (encoded path_char))))) r) (s, c)) \<longleftrightarrow>
   (\<exists>z x t. s = x @ t \<and> part CHR ''/'' (enc path_char) z x \<and> y \<in> set (matches r (t, put 5 (map_option (Cons CHR ''/'') z) c)))"
  unfolding in_Seq [OF opt_path] by blast

lemma matches_authority_ends:
  "y \<in> set (matches (Seq authority_path ends) (''//'' @ w, c)) \<longleftrightarrow>
   (\<exists>zu xu host zp xp za xa zq xq zf xf t. w = xu @ host @ xp @ xa @ xq @ xf @ t \<and> userinfo zu xu \<and> enc host_char host \<and>
      part CHR '':'' (list_all is_digit) zp xp \<and> part CHR ''/'' (enc path_char) za xa \<and>
      part CHR ''?'' (enc query_char) zq xq \<and> part CHR ''#'' (enc query_char) zf xf \<and>
      y = (t, put 8 zf (put 7 zq (put 5 (map_option (Cons CHR ''/'') za) (put 4 zp ((put 2 zu c)(3 \<mapsto> host)))))))"
  unfolding authority_path_def seq_assoc seq_literal seq_userinfo seq_group [OF is_group_encoded] seq_opt_group [OF is_group_run]
    seq_path matches_ends same_append_eq
  by (rule iffI; elim exE conjE; hypsubst; intro exI conjI; (rule refl | assumption))

lemma matches_all:
  "([], m) \<in> set (matches (Seq authority_path ends) (''//'' @ w, [1 \<mapsto> scheme])) \<longleftrightarrow>
   (\<exists>user host port path query fragment. pieces w user host port path query fragment \<and>
      m = groups scheme user host port path query fragment)"
  (is "?M \<longleftrightarrow> ?P")
proof
  assume ?M
  then obtain zu xu host zp xp za xa zq xq zf xf t where d: "w = xu @ host @ xp @ xa @ xq @ xf @ t" "userinfo zu xu" "enc host_char host"
      "part CHR '':'' (list_all is_digit) zp xp" "part CHR ''/'' (enc path_char) za xa"
      "part CHR ''?'' (enc query_char) zq xq" "part CHR ''#'' (enc query_char) zf xf"
    and m: "([], m) = (t, groups scheme zu host zp za zq zf)"
    unfolding matches_authority_ends by (elim exE conjE) (rule that [unfolded groups_def])
  from m have "t = []" "m = groups scheme zu host zp za zq zf" by simp_all
  moreover have "pieces w zu host zp za zq zf"
    unfolding pieces_def using d(2-) by (intro exI conjI) (simp only: d(1) \<open>t = []\<close> append_Nil2, assumption+)
  ultimately show ?P by blast
next
  assume ?P
  then obtain user host port path query fragment where p: "pieces w user host port path query fragment"
    and m: "m = groups scheme user host port path query fragment" by blast
  from p obtain xu xp xa xq xf where d: "w = xu @ host @ xp @ xa @ xq @ xf" "userinfo user xu" "enc host_char host"
      "part CHR '':'' (list_all is_digit) port xp" "part CHR ''/'' (enc path_char) path xa"
      "part CHR ''?'' (enc query_char) query xq" "part CHR ''#'' (enc query_char) fragment xf"
    unfolding pieces_def by blast
  have "w = xu @ host @ xp @ xa @ xq @ xf @ []" by (simp only: d(1) append_Nil2)
  moreover have "([], m) = ([], put 8 fragment (put 7 query (put 5 (map_option (Cons CHR ''/'') path) (put 4 port ((put 2 user [1 \<mapsto> scheme])(3 \<mapsto> host))))))"
    by (simp only: m groups_def)
  ultimately show ?M unfolding matches_authority_ends using d(2-) by (intro exI conjI)
qed

text \<open>The expression matches all of a URI exactly for the ways to take it apart.\<close>

lemma scheme_unique:
  assumes "list_all scheme_char a" and "list_all scheme_char b" and "a @ CHR '':'' # s = b @ CHR '':'' # t"
  shows "a = b \<and> s = t"
proof -
  have "\<not> scheme_char CHR '':''" by code_simp
  then have "takeWhile scheme_char (a @ CHR '':'' # s) = a" "takeWhile scheme_char (b @ CHR '':'' # t) = b"
    using assms(1,2) by (simp_all add: list_all_iff takeWhile_append2)
  with assms(3) show ?thesis by simp
qed

lemma matches_scheme:
  assumes "scheme \<noteq> []" and "list_all scheme_char scheme"
  shows "y \<in> set (matches (Seq (Group 1 (plus (Cls scheme_char))) (Seq (literal '':'') r)) (scheme @ '':'' @ s, Map.empty)) \<longleftrightarrow>
    y \<in> set (matches r (s, [1 \<mapsto> scheme]))"
  unfolding seq_group [OF is_group_plus] seq_literal
proof
  assume "\<exists>a t. scheme @ '':'' @ s = a @ t \<and> (a \<noteq> [] \<and> list_all scheme_char a) \<and>
      (\<exists>u. t = '':'' @ u \<and> y \<in> set (matches r (u, [1 \<mapsto> a])))"
  then obtain a u where a: "scheme @ '':'' @ s = a @ '':'' @ u" "list_all scheme_char a" "y \<in> set (matches r (u, [1 \<mapsto> a]))" by blast
  then have "scheme = a \<and> s = u" using scheme_unique [OF assms(2) a(2)] by simp
  with a(3) show "y \<in> set (matches r (s, [1 \<mapsto> scheme]))" by simp
next
  assume "y \<in> set (matches r (s, [1 \<mapsto> scheme]))"
  with assms show "\<exists>a t. scheme @ '':'' @ s = a @ t \<and> (a \<noteq> [] \<and> list_all scheme_char a) \<and>
      (\<exists>u. t = '':'' @ u \<and> y \<in> set (matches r (u, [1 \<mapsto> a])))" by blast
qed

lemma ends_stuck: "([], m) \<notin> set (matches ends (''//'' @ w, c))"
proof
  assume "([], m) \<in> set (matches ends (''//'' @ w, c))"
  then obtain zq xq zf xf where "''//'' @ w = xq @ xf" "part CHR ''?'' (enc query_char) zq xq" "part CHR ''#'' (enc query_char) zf xf"
    unfolding matches_ends by auto
  then show False by (cases zq; cases zf) simp_all
qed

lemma matches_RE:
  assumes "scheme \<noteq> []" and "list_all scheme_char scheme"
  shows "([], m) \<in> set (matches RE (scheme @ '':'' @ ''//'' @ w, Map.empty)) \<longleftrightarrow>
    (\<exists>user host port path query fragment. pieces w user host port path query fragment \<and>
       m = groups scheme user host port path query fragment)"
proof -
  let ?x = "(''//'' @ w, [1 \<mapsto> scheme])"
  have alt: "q \<in> set (matches (Alt authority_path opaque_path) ?x) \<longleftrightarrow> q \<in> set (matches authority_path ?x) \<or> q = ?x" for q
    unfolding matches.simps(4) matches_opaque set_append Un_iff by (simp only: list.set singleton_iff)
  have "([], m) \<in> set (matches (Seq (Alt authority_path opaque_path) ends) ?x) \<longleftrightarrow>
      ([], m) \<in> set (matches (Seq authority_path ends) ?x)"
    using in_Seq [OF alt, of "([], m)" ends] in_Seq [of authority_path ?x "\<lambda>q. q \<in> set (matches authority_path ?x)" "([], m)" ends]
      ends_stuck [of m w "[1 \<mapsto> scheme]"] by blast
  then show ?thesis
    unfolding RE_def ends_def [symmetric] matches_scheme [OF assms] matches_all .
qed

section \<open>One way to take a URI apart\<close>

lemma classes:
  "\<not> user_char CHR ''%''" "\<not> user_char CHR ''@''" "\<not> user_char CHR ''/''" "\<not> user_char CHR ''?''" "\<not> user_char CHR ''#''"
  "\<not> host_char CHR ''%''" "\<not> host_char CHR '':''" "\<not> host_char CHR ''/''" "\<not> host_char CHR ''?''" "\<not> host_char CHR ''#''"
  "\<not> is_digit CHR ''/''" "\<not> is_digit CHR ''?''" "\<not> is_digit CHR ''#''"
  "\<not> path_char CHR ''%''" "\<not> path_char CHR ''?''" "\<not> path_char CHR ''#''"
  "\<not> query_char CHR ''%''" "\<not> query_char CHR ''#''" "user_char CHR '':''"
  by code_simp+

lemma digit_user: "is_digit c \<Longrightarrow> user_char c"
  by (simp add: user_char_def host_char_def is_lower_digit_def is_digit_def Let_def)

text \<open>What can come next: nothing, or one of some characters.\<close>

definition follows :: "string \<Rightarrow> string \<Rightarrow> bool" where
  "follows cs s \<longleftrightarrow> s = [] \<or> hd s \<in> set cs"

lemma follows_part: "part d Q z x \<Longrightarrow> follows cs s \<Longrightarrow> follows (d # cs) (x @ s)"
  by (cases z) (auto simp: follows_def)

lemma follows_stops: "follows cs s \<Longrightarrow> \<forall>c \<in> set cs. \<not> P c \<and> c \<noteq> CHR ''%'' \<Longrightarrow> stops P s"
  by (auto simp: follows_def stops_def)

lemma part_unique:
  assumes "part d Q z x" and "part d Q z' x'" and "x @ s = x' @ s'" and "follows cs s" and "follows cs s'" and "d \<notin> set cs"
    and "\<And>a b. Q a \<Longrightarrow> Q b \<Longrightarrow> a @ s = b @ s' \<Longrightarrow> a = b \<and> s = s'"
  shows "z = z' \<and> s = s'"
proof (cases z)
  case None
  show ?thesis
  proof (cases z')
    case (Some b)
    with None assms(1-3) have "s = d # b @ s'" by simp
    with assms(4,6) show ?thesis by (simp add: follows_def)
  qed (use None assms(1-3) in simp)
next
  case (Some a)
  show ?thesis
  proof (cases z')
    case None
    with Some assms(1-3) have "s' = d # a @ s" by simp
    with assms(5,6) show ?thesis by (simp add: follows_def)
  next
    case (Some b)
    with \<open>z = Some a\<close> assms(1-3) have "Q a" "Q b" "a @ s = b @ s'" by simp_all
    from assms(7) [OF this] show ?thesis using Some \<open>z = Some a\<close> by simp
  qed
qed

lemma part_enc_unique:
  assumes "part d (enc P) z x" and "part d (enc P) z' x'" and "x @ s = x' @ s'" and "follows cs s" and "follows cs s'" and "d \<notin> set cs"
    and "\<forall>c \<in> set cs. \<not> P c \<and> c \<noteq> CHR ''%''" and "\<not> P CHR ''%''"
  shows "z = z' \<and> s = s'"
proof (rule part_unique [OF assms(1-6)])
  fix a b
  assume "enc P a" "enc P b" "a @ s = b @ s'"
  then show "a = b \<and> s = s'"
    using follows_stops [OF assms(4,7)] follows_stops [OF assms(5,7)] assms(8) by (rule enc_unique)
qed

lemma host_port_user:
  assumes "enc host_char host" and "part CHR '':'' (list_all is_digit) port x"
  shows "enc user_char (host @ x)"
proof (rule enc_append)
  show "enc user_char host" using assms(1) by (rule enc_mono) (simp add: user_char_def)
  have "list_all user_char x"
    using assms(2) by (cases port) (auto simp: classes list_all_iff digit_user)
  then show "enc user_char x" by (rule enc_all)
qed

text \<open>Without user information no \<^verbatim>\<open>@\<close> follows the host and the port, so that the two cases cannot be confused.\<close>

lemma userinfo_unique:
  assumes "userinfo user xu" and "userinfo user' yu" and "xu @ a @ s = yu @ b @ t"
    and "enc user_char a" and "enc user_char b" and "follows ''/?#'' s" and "follows ''/?#'' t"
  shows "user = user' \<and> a @ s = b @ t"
proof -
  have st: "stops user_char s" "stops user_char t"
    by (rule follows_stops [OF assms(6)], simp add: classes, rule follows_stops [OF assms(7)], simp add: classes)
  have at: "stops user_char (CHR ''@'' # r)" for r by (simp add: classes)
  have no: "s \<noteq> CHR ''@'' # r" "t \<noteq> CHR ''@'' # r" for r using assms(6,7) by (auto simp: follows_def)
  show ?thesis
  proof (cases user)
    case None
    show ?thesis
    proof (cases user')
      case (Some y)
      with None assms(1-3) have "a @ s = y @ CHR ''@'' # b @ t" "enc user_char y" by simp_all
      with enc_unique [OF assms(4) _ _ st(1) at classes(1)] no(1) show ?thesis by blast
    qed (use None assms(1-3) in simp)
  next
    case (Some x)
    then have x: "xu = x @ ''@''" "enc user_char x" using assms(1) by simp_all
    show ?thesis
    proof (cases user')
      case None
      with x assms(2,3) have "b @ t = x @ CHR ''@'' # a @ s" by simp
      with enc_unique [OF assms(5) x(2) _ st(2) at classes(1)] no(2) show ?thesis by blast
    next
      case (Some y)
      with assms(2) have y: "yu = y @ ''@''" "enc user_char y" by simp_all
      with x assms(3) have "x @ CHR ''@'' # a @ s = y @ CHR ''@'' # b @ t" by simp
      with enc_unique [OF x(2) y(2) _ at at classes(1)] Some \<open>user = Some x\<close> show ?thesis by blast
    qed
  qed
qed

lemma pieces_unique:
  assumes "pieces w user host port path query fragment" and "pieces w user' host' port' path' query' fragment'"
  shows "user = user' \<and> host = host' \<and> port = port' \<and> path = path' \<and> query = query' \<and> fragment = fragment'"
proof -
  obtain xu xp xa xq xf where w: "w = xu @ host @ xp @ xa @ xq @ xf" and u: "userinfo user xu" and h: "enc host_char host"
    and p: "part CHR '':'' (list_all is_digit) port xp" and a: "part CHR ''/'' (enc path_char) path xa"
    and q: "part CHR ''?'' (enc query_char) query xq" and f: "part CHR ''#'' (enc query_char) fragment xf"
    using assms(1) unfolding pieces_def by blast
  obtain yu yp ya yq yf where w': "w = yu @ host' @ yp @ ya @ yq @ yf" and u': "userinfo user' yu" and h': "enc host_char host'"
    and p': "part CHR '':'' (list_all is_digit) port' yp" and a': "part CHR ''/'' (enc path_char) path' ya"
    and q': "part CHR ''?'' (enc query_char) query' yq" and f': "part CHR ''#'' (enc query_char) fragment' yf"
    using assms(2) unfolding pieces_def by blast
  have nil: "follows [] []" by (simp add: follows_def)
  have Tf: "follows ''#'' xf" "follows ''#'' yf" using follows_part [OF f nil] follows_part [OF f' nil] by simp_all
  have Tq: "follows ''?#'' (xq @ xf)" "follows ''?#'' (yq @ yf)" using follows_part [OF q Tf(1)] follows_part [OF q' Tf(2)] by simp_all
  have Ta: "follows ''/?#'' (xa @ xq @ xf)" "follows ''/?#'' (ya @ yq @ yf)"
    using follows_part [OF a Tq(1)] follows_part [OF a' Tq(2)] by simp_all
  have Tp: "follows '':/?#'' (xp @ xa @ xq @ xf)" "follows '':/?#'' (yp @ ya @ yq @ yf)"
    using follows_part [OF p Ta(1)] follows_part [OF p' Ta(2)] by simp_all
  have eu: "user = user' \<and> host @ xp @ xa @ xq @ xf = host' @ yp @ ya @ yq @ yf"
  proof -
    have "xu @ (host @ xp) @ xa @ xq @ xf = yu @ (host' @ yp) @ ya @ yq @ yf" using w w' by simp
    from userinfo_unique [OF u u' this host_port_user [OF h p] host_port_user [OF h' p'] Ta] show ?thesis by simp
  qed
  have eh: "host = host' \<and> xp @ xa @ xq @ xf = yp @ ya @ yq @ yf"
    using enc_unique [OF h h' conjunct2 [OF eu] follows_stops [OF Tp(1)] follows_stops [OF Tp(2)] classes(6)] classes by simp
  have ep: "port = port' \<and> xa @ xq @ xf = ya @ yq @ yf"
  proof (rule part_unique [OF p p' conjunct2 [OF eh] Ta])
    fix b c
    assume b: "list_all is_digit b" and c: "list_all is_digit c" and e: "b @ xa @ xq @ xf = c @ ya @ yq @ yf"
    have "stops is_digit (xa @ xq @ xf)" "stops is_digit (ya @ yq @ yf)"
      by (rule follows_stops [OF Ta(1)], simp add: classes, rule follows_stops [OF Ta(2)], simp add: classes)
    moreover have "\<not> is_digit CHR ''%''" by code_simp
    ultimately show "b = c \<and> xa @ xq @ xf = ya @ yq @ yf"
      using enc_unique [OF enc_all [OF b] enc_all [OF c] e] by blast
  qed simp
  have ea: "path = path' \<and> xq @ xf = yq @ yf"
    by (rule part_enc_unique [OF a a' conjunct2 [OF ep] Tq]) (simp_all add: classes)
  have eq: "query = query' \<and> xf = yf"
    by (rule part_enc_unique [OF q q' conjunct2 [OF ea] Tf]) (simp_all add: classes)
  have "fragment = fragment'"
    using part_enc_unique [OF f f', of "[]" "[]" "[]"] eq by (simp add: follows_def classes)
  with eu eh ep ea eq show ?thesis by simp
qed

lemma regex_match_RE:
  assumes "scheme \<noteq> []" and "list_all scheme_char scheme" and "pieces w user host port path query fragment"
  shows "regex_match RE (scheme @ '':'' @ ''//'' @ w) = Some (groups scheme user host port path query fragment)"
proof -
  have "([], groups scheme user host port path query fragment) \<in> set (matches RE (scheme @ '':'' @ ''//'' @ w, Map.empty))"
    unfolding matches_RE [OF assms(1,2)] using assms(3) by blast
  then have "regex_match RE (scheme @ '':'' @ ''//'' @ w) \<noteq> None" unfolding regex_match_None by force
  then obtain m where m: "regex_match RE (scheme @ '':'' @ ''//'' @ w) = Some m" by blast
  from regex_match_Some [OF m] obtain user' host' port' path' query' fragment' where
    "pieces w user' host' port' path' query' fragment'" "m = groups scheme user' host' port' path' query' fragment'"
    unfolding matches_RE [OF assms(1,2)] by blast
  with pieces_unique [OF assms(3)] m show ?thesis by blast
qed

lemma str_of_groups:
  "str_of (groups scheme user host port path query fragment) 1 = scheme"
  "str_of (groups scheme user host port path query fragment) 2 = (case user of None \<Rightarrow> [] | Some a \<Rightarrow> a)"
  "str_of (groups scheme user host port path query fragment) 3 = host"
  "str_of (groups scheme user host port path query fragment) 4 = (case port of None \<Rightarrow> [] | Some a \<Rightarrow> a)"
  "str_of (groups scheme user host port path query fragment) 5 = (case path of None \<Rightarrow> [] | Some a \<Rightarrow> CHR ''/'' # a)"
  "str_of (groups scheme user host port path query fragment) 7 = (case query of None \<Rightarrow> [] | Some a \<Rightarrow> a)"
  "str_of (groups scheme user host port path query fragment) 8 = (case fragment of None \<Rightarrow> [] | Some a \<Rightarrow> a)"
  by (simp_all add: groups_def put_def str_of_def split: option.splits)

section \<open>A URI and its text\<close>

text \<open>The parts of a URI: the credentials are a name and a password, the path comes without its first
  slash, the parameters are pairs.\<close>

record uri_parts =
  u_scheme :: string
  u_credentials :: "(string \<times> string) option"
  u_host :: string
  u_port :: "nat option"
  u_path :: "string option"
  u_params :: "(string \<times> string) list"
  u_fragment :: "string option"

definition opt_text :: "char \<Rightarrow> string option \<Rightarrow> string" where
  "opt_text d z = (case z of None \<Rightarrow> [] | Some a \<Rightarrow> d # a)"

definition query_of :: "(string \<times> string) list \<Rightarrow> string option" where
  "query_of ps = (if ps = [] then None else Some (join_with CHR ''&'' (map param_text ps)))"

definition user_of :: "string \<times> string \<Rightarrow> string" where
  "user_of c = fst c @ CHR '':'' # snd c"

definition uri_text :: "uri_parts \<Rightarrow> string" where
  "uri_text r = u_scheme r @ ''://'' @ (case u_credentials r of None \<Rightarrow> [] | Some c \<Rightarrow> user_of c @ ''@'') @ u_host r @
     opt_text CHR '':'' (map_option decimal (u_port r)) @ opt_text CHR ''/'' (u_path r) @
     opt_text CHR ''?'' (query_of (u_params r)) @ opt_text CHR ''#'' (u_fragment r)"

definition uri_ok :: "uri_parts \<Rightarrow> bool" where
  "uri_ok r \<longleftrightarrow> u_scheme r \<noteq> [] \<and> list_all scheme_char (u_scheme r) \<and>
     (\<forall>c \<in> set_option (u_credentials r). enc user_char (fst c) \<and> enc user_char (snd c) \<and> CHR '':'' \<notin> set (fst c @ snd c)) \<and>
     enc host_char (u_host r) \<and> (\<forall>n \<in> set_option (u_port r). n < 2 ^ 16) \<and>
     (\<forall>p \<in> set_option (u_path r). enc path_char p) \<and>
     (\<forall>(k, v) \<in> set (u_params r). enc query_char k \<and> enc query_char v \<and> plain k \<and> plain v) \<and>
     (\<forall>f \<in> set_option (u_fragment r). enc query_char f)"

text \<open>What the parser makes of it. A URI without credentials or without parameters is not valid; where
  there is no port, the one of the scheme is taken, if the scheme has one.\<close>

definition parsed_parts :: "uri_parts \<Rightarrow> uri \<Rightarrow> uri" where
  "parsed_parts r u = \<lparr>mIsValid = (u_credentials r \<noteq> None \<and> u_params r \<noteq> []), mScheme = u_scheme r,
     mUsername = (case u_credentials r of None \<Rightarrow> mUsername u | Some c \<Rightarrow> fst c),
     mPassword = (case u_credentials r of None \<Rightarrow> mPassword u | Some c \<Rightarrow> snd c),
     mHost = u_host r,
     mPort = (case u_port r of Some n \<Rightarrow> word_of_nat n
              | None \<Rightarrow> (case SchemeToPort (u_scheme r) of None \<Rightarrow> mPort u | Some p \<Rightarrow> p)),
     mPath = opt_text CHR ''/'' (u_path r), mQuery = mQuery u ++ map_of (rev (u_params r)),
     mFragment = (case u_fragment r of None \<Rightarrow> [] | Some f \<Rightarrow> f)\<rparr>"

lemma enc_join: "\<forall>p \<in> set ps. enc P p \<Longrightarrow> P c \<Longrightarrow> enc P (join_with c ps)"
  by (induction c ps rule: join_with.induct) (auto intro: enc_append)

lemma part_text: "\<forall>a \<in> set_option z. Q a \<Longrightarrow> part d Q z (opt_text d z)"
  by (cases z) (simp_all add: opt_text_def)

lemma query_enc:
  assumes "uri_ok r"
  shows "\<forall>q \<in> set_option (query_of (u_params r)). enc query_char q"
proof -
  have eq: "query_char CHR ''=''" "query_char CHR ''&''" by code_simp+
  have "\<forall>p \<in> set (map param_text (u_params r)). enc query_char p"
    using assms eq by (fastforce simp: uri_ok_def param_text_def intro: enc_append enc_char)
  then show ?thesis using enc_join eq(2) by (simp add: query_of_def)
qed

lemma decimal_is_digit: "list_all is_digit (decimal n)"
  using decimal_digits [of n] by (simp add: list_all_iff isDigit_def is_digit_def Let_def)

lemma pieces_text:
  assumes "uri_ok r"
  shows "\<exists>w. uri_text r = u_scheme r @ '':'' @ ''//'' @ w \<and>
    pieces w (map_option user_of (u_credentials r)) (u_host r) (map_option decimal (u_port r)) (u_path r)
      (query_of (u_params r)) (u_fragment r)"
proof -
  let ?xu = "case u_credentials r of None \<Rightarrow> [] | Some c \<Rightarrow> user_of c @ ''@''"
  have "userinfo (map_option user_of (u_credentials r)) ?xu"
    using assms by (cases "u_credentials r") (auto simp: uri_ok_def user_of_def classes intro!: enc_append enc_char)
  moreover have "part CHR '':'' (list_all is_digit) (map_option decimal (u_port r)) (opt_text CHR '':'' (map_option decimal (u_port r)))"
    by (rule part_text) (auto simp: decimal_is_digit)
  moreover have "part CHR ''/'' (enc path_char) (u_path r) (opt_text CHR ''/'' (u_path r))"
    and "part CHR ''#'' (enc query_char) (u_fragment r) (opt_text CHR ''#'' (u_fragment r))"
    using assms by (auto simp: uri_ok_def intro!: part_text)
  moreover note part_text [OF query_enc [OF assms], of "CHR ''?''"]
  moreover have "enc host_char (u_host r)" using assms by (simp add: uri_ok_def)
  ultimately have "pieces (?xu @ u_host r @ opt_text CHR '':'' (map_option decimal (u_port r)) @ opt_text CHR ''/'' (u_path r) @
      opt_text CHR ''?'' (query_of (u_params r)) @ opt_text CHR ''#'' (u_fragment r))
    (map_option user_of (u_credentials r)) (u_host r) (map_option decimal (u_port r)) (u_path r) (query_of (u_params r)) (u_fragment r)"
    unfolding pieces_def by blast
  then show ?thesis by (auto simp: uri_text_def)
qed

section \<open>The parser on the groups\<close>

lemma credentials_parsed:
  assumes "is_split split" and "uri_ok r"
  shows "parse_credentials split (case map_option user_of (u_credentials r) of None \<Rightarrow> [] | Some a \<Rightarrow> a) v =
    (case u_credentials r of None \<Rightarrow> v\<lparr>mIsValid := False\<rparr> | Some c \<Rightarrow> v\<lparr>mUsername := fst c, mPassword := snd c\<rparr>)"
proof (cases "u_credentials r")
  case None
  then show ?thesis using is_split_one [OF assms(1), of "CHR '':''" "[]"] by (simp add: parse_credentials_def)
next
  case (Some c)
  then have "split (user_of c) '':'' = [fst c, snd c]"
    using assms(2) by (auto simp: user_of_def uri_ok_def intro!: is_split_two [OF assms(1)])
  with Some show ?thesis by (simp add: parse_credentials_def)
qed

lemma port_parsed:
  assumes "uri_ok r" and "mScheme v = u_scheme r"
  shows "parse_port (case map_option decimal (u_port r) of None \<Rightarrow> [] | Some a \<Rightarrow> a) v =
    Inr (v\<lparr>mPort := (case u_port r of Some n \<Rightarrow> word_of_nat n
              | None \<Rightarrow> (case SchemeToPort (u_scheme r) of None \<Rightarrow> mPort v | Some p \<Rightarrow> p))\<rparr>)"
proof (cases "u_port r")
  case None
  then show ?thesis using assms(2) by (auto simp: parse_port_def split: option.splits)
next
  case (Some n)
  then have "n < 2 ^ 31" using assms(1) by (simp add: uri_ok_def)
  then show ?thesis using Some by (simp add: parse_port_def stoi_decimal)
qed

lemma params_parsed:
  assumes "is_split split" and "uri_ok r"
  shows "fold (add_param split) (split (case query_of (u_params r) of None \<Rightarrow> [] | Some q \<Rightarrow> q) ''&'') v =
    v\<lparr>mQuery := mQuery v ++ map_of (rev (u_params r)), mIsValid := mIsValid v \<and> u_params r \<noteq> []\<rparr>"
proof (cases "u_params r = []")
  case True
  have "split [] ''&'' = [[]]" "split [] ''='' = [[]]" by (simp_all add: is_split_one [OF assms(1)])
  with True show ?thesis by (simp add: query_of_def add_param_def)
next
  case False
  have plain: "\<forall>(k, v) \<in> set (u_params r). plain k \<and> plain v" using assms(2) by (auto simp: uri_ok_def)
  then have "\<forall>p \<in> set (map param_text (u_params r)). CHR ''&'' \<notin> set p"
    by (auto simp: param_text_def plain_def)
  then have "split (join_with CHR ''&'' (map param_text (u_params r))) ''&'' = map param_text (u_params r)"
    using False by (intro is_split_join [OF assms(1)]) auto
  moreover have "fold (add_param split) (map param_text ps) v = v\<lparr>mQuery := mQuery v ++ map_of (rev ps)\<rparr>"
    if "set ps \<subseteq> set (u_params r)" for ps v
    using that
  proof (induction ps arbitrary: v)
    case (Cons kv ps)
    obtain k x where kv: "kv = (k, x)" by (cases kv)
    with Cons.prems plain have "plain k" "plain x" by auto
    then have "split (param_text kv) ''='' = [k, x]"
      by (auto simp: kv param_text_def plain_def intro!: is_split_two [OF assms(1)])
    then show ?case using Cons kv by (simp add: add_param_def map_add_upd_left)
  qed simp
  ultimately show ?thesis using False by (simp add: query_of_def)
qed

lemma uri_parse_text:
  assumes "is_split split" and "uri_ok r"
  shows "uri_parse split (uri_text r) u = Inr (parsed_parts r u)"
proof -
  obtain w where w: "uri_text r = u_scheme r @ '':'' @ ''//'' @ w"
    "pieces w (map_option user_of (u_credentials r)) (u_host r) (map_option decimal (u_port r)) (u_path r)
      (query_of (u_params r)) (u_fragment r)"
    using pieces_text [OF assms(2)] by blast
  have s: "u_scheme r \<noteq> []" "list_all scheme_char (u_scheme r)" using assms(2) by (simp_all add: uri_ok_def)
  show ?thesis
    unfolding uri_parse_def w(1) regex_match_RE [OF s w(2)] Let_def option.case str_of_groups credentials_parsed [OF assms]
      params_parsed [OF assms]
    by (subst port_parsed [OF assms(2)])
      (auto simp: parsed_parts_def opt_text_def split: option.splits)
qed

section \<open>Properties\<close>

text \<open>
  C21: Parsing the text of a URI gives back its parts: scheme, credentials, host, port, path, parameters
  and fragment, each as it was written (percent-encoded bytes stay encoded). The parser calls the result
  valid only if there are credentials and parameters.
\<close>

theorem uri_parse_roundtrip:
  assumes "is_split split" and "uri_ok r"
  shows "uri_parse split (uri_text r) u = Inr (parsed_parts r u)"
  using assms by (rule uri_parse_text)

theorem uri_parse_roundtrip_witness:
  "URI split_on ''http://me:pw@localhost:81/pwned%2F?hash=ab&x=1#top'' =
     Inr \<lparr>mIsValid = True, mScheme = ''http'', mUsername = ''me'', mPassword = ''pw'', mHost = ''localhost'', mPort = 81,
       mPath = ''/pwned%2F'', mQuery = [''hash'' \<mapsto> ''ab'', ''x'' \<mapsto> ''1''], mFragment = ''top''\<rparr>"
proof -
  define r where "r = \<lparr>u_scheme = ''http'', u_credentials = Some (''me'', ''pw''), u_host = ''localhost'', u_port = Some 81,
    u_path = Some ''pwned%2F'', u_params = [(''hash'', ''ab''), (''x'', ''1'')], u_fragment = Some ''top''\<rparr>"
  have cs: "list_all scheme_char ''http''" "list_all user_char ''me''" "list_all user_char ''pw''" "list_all host_char ''localhost''"
    "list_all path_char ''pwned''" "upper_hex CHR ''2''" "upper_hex CHR ''F''"
    "list_all query_char ''hash''" "list_all query_char ''ab''" "list_all query_char ''x''" "list_all query_char ''1''"
    "list_all query_char ''top''" by code_simp+
  have path: "enc path_char (''pwned'' @ ''%2F'')"
    by (rule enc_append [OF enc_all [OF cs(5)] enc_percent [OF cs(6,7) enc_Nil]])
  note parts = cs(1) [simplified] cs(2-4,8-12) [THEN enc_all] path [simplified]
  have ok: "uri_ok r"
    unfolding uri_ok_def r_def by (simp only: uri_parts.simps) (simp add: parts plain_def)
  have "decimal 81 = ''81''" by code_simp
  then have "uri_text r = ''http://me:pw@localhost:81/pwned%2F?hash=ab&x=1#top''"
    by (simp add: r_def uri_text_def opt_text_def query_of_def param_text_def user_of_def)
  with uri_parse_roundtrip [OF is_split_on ok, of newURI] show ?thesis
    by (simp add: URI_def parsed_parts_def r_def opt_text_def newURI_def fun_upd_twist)
qed

end
