(* ===== verification/Spec2Isabelle.thy ===== *)
theory Spec2Isabelle
  imports Indexed_Lookup Converter Merger Server Operation_Queue Markov Merger_Cli Markov_Tools Command_Lines Extractors
    Benchmark Load_Test Be2le Markov_Invariant Queue_Refinement Unit_Tests Pipeline Uri_Parse
begin

text \<open>
  \<^bold>\<open>The #pwned tools.\<close> The programs of this repository build and query databases of leaked passwords. A
  database is a file of records, each the MD5 hash of a password (16 bytes) and how often it was seen
  (4 bytes), sorted by hash. Lists of \<^verbatim>\<open>user:password\<close> lines become such files
  (\<^verbatim>\<open>pwned-converter-cli\<close>), sorted files become one (\<^verbatim>\<open>pwned-merger-cli\<close>), an index makes looking up
  faster (\<^verbatim>\<open>pwned-index\<close>), and a file is queried from the command line (\<^verbatim>\<open>pwned-lookup-cli\<close>) or through a
  web service (\<^verbatim>\<open>pwned-server\<close>, with a load test). Around these there are a benchmark, extractors of test
  data, and a Markov chain over the symbols of passwords. The classes they share are in \<^verbatim>\<open>pwned-lib\<close>.

  \<^bold>\<open>The theories\<close>, in the order in which they use each other:

  \<^item> \<^verbatim>\<open>Pwned_Prelude\<close>: words of 8 to 64 bits, their bytes in either order, lists; the names of the model's types.
  \<^item> \<^verbatim>\<open>Cpp_Streams\<close>, \<^verbatim>\<open>Cpp_Numbers\<close>, \<^verbatim>\<open>Cpp_Regex\<close>, \<^verbatim>\<open>Console\<close>: what the code uses of the standard library. An
    input stream is its contents, a position and the three error bits; \<^verbatim>\<open>seekg\<close> clears \<^verbatim>\<open>eofbit\<close> but not
    \<^verbatim>\<open>failbit\<close>, which matters below. Numbers are printed and parsed with the errors of \<^verbatim>\<open>std::stoi\<close>. Regular
    expressions match greedily, with captured groups. The console is the list of the texts written to it.
  \<^item> \<^verbatim>\<open>Util\<close>, \<^verbatim>\<open>Util_System\<close> (\<^verbatim>\<open>util.cpp\<close>), \<^verbatim>\<open>Popcount\<close>, \<^verbatim>\<open>Hash\<close> (\<^verbatim>\<open>hash.cpp\<close>), \<^verbatim>\<open>Phc\<close>
    (\<^verbatim>\<open>passwordhashandcount.hpp\<close>): the values. A hash is two 64-bit words and a flag; the union with its 16
    bytes is a pair of functions.
  \<^item> \<^verbatim>\<open>Inspector\<close> (\<^verbatim>\<open>passwordinspector.cpp\<close>) with the proofs \<^verbatim>\<open>Search\<close>, \<^verbatim>\<open>Lookup\<close>, \<^verbatim>\<open>Indexed_Lookup\<close>; the tools
    over it: \<^verbatim>\<open>Lookup_Cli\<close>, \<^verbatim>\<open>Indexer\<close>, \<^verbatim>\<open>Command_Lines\<close>, \<^verbatim>\<open>Benchmark\<close>.
  \<^item> \<^verbatim>\<open>Reader\<close> (\<^verbatim>\<open>userpasswordreader.cpp\<close>), \<^verbatim>\<open>Converter\<close> (\<^verbatim>\<open>convertoperation.cpp\<close>), \<^verbatim>\<open>Extractors\<close>.
  \<^item> \<^verbatim>\<open>Priority_Queue\<close>, \<^verbatim>\<open>Merger\<close> (\<^verbatim>\<open>mergeoperation.cpp\<close>), \<^verbatim>\<open>Merger_Cli\<close>.
  \<^item> \<^verbatim>\<open>Operation\<close>, \<^verbatim>\<open>Operation_Queue\<close> (\<^verbatim>\<open>operation.cpp\<close>, \<^verbatim>\<open>operationqueue.hpp\<close>, \<^verbatim>\<open>semaphore.hpp\<close>), \<^verbatim>\<open>Queue_Refinement\<close>.
  \<^item> \<^verbatim>\<open>Uri\<close> (\<^verbatim>\<open>uri.cpp\<close>), \<^verbatim>\<open>Uri_Parse\<close>, \<^verbatim>\<open>Http_Worker\<close> (\<^verbatim>\<open>httpworker.cpp\<close>), \<^verbatim>\<open>Server\<close> (\<^verbatim>\<open>pwned-server.cpp\<close>),
    \<^verbatim>\<open>Client_Worker\<close>, \<^verbatim>\<open>Load_Test\<close> (\<^verbatim>\<open>pwned-server/loadtest\<close>).
  \<^item> \<^verbatim>\<open>Markov\<close> (\<^verbatim>\<open>markovnode.hpp\<close>, \<^verbatim>\<open>markovchain.hpp\<close>), \<^verbatim>\<open>Markov_Invariant\<close>, \<^verbatim>\<open>Markov_Tools\<close>.
  \<^item> \<^verbatim>\<open>Be2le\<close> (\<^verbatim>\<open>deprecated/be2le\<close>).
  \<^item> \<^verbatim>\<open>Pipeline\<close>: the converter, the merger and the lookup tool one after the other.
  \<^item> \<^verbatim>\<open>Unit_Tests\<close>: cases of the program's unit tests, evaluated on the definitions.

  \<^bold>\<open>How code becomes definitions.\<close> A class is a record with the fields of the class, a method a function from
  the state to the state (and a result); names are those of the source where HOL leaves them free. Files are
  a map from names to contents and whether they can be opened. Exceptions and error codes are values of a
  sum. A loop that may run forever is a partial function into \<^verbatim>\<open>option\<close>, \<^verbatim>\<open>None\<close> meaning that it does not
  return; that it returns is always part of what is proved, never assumed, and there is no fuel anywhere.
  Handlers of asynchronous operations and threads are step relations (\<^verbatim>\<open>worker_step\<close>, \<^verbatim>\<open>client_step\<close>,
  \<^verbatim>\<open>work_step\<close>, \<^verbatim>\<open>user_step\<close>) with one rule per handler or per piece of code between two points where threads
  can be switched. Each \<^verbatim>\<open>main\<close> starts from the options boost has parsed.

  \<^bold>\<open>Parameters.\<close> Code that is not in the repository is an argument: MD5 (OpenSSL; 16 bytes), boost's \<^verbatim>\<open>split\<close>,
  JSON printing and replacing of text, the choice \<^verbatim>\<open>std::priority_queue\<close> makes between equal elements, BZ2, the
  network, random numbers, clocks, terminal and memory statistics of the system, UTF-8 decoding, the bytes
  and the printed form of floating-point numbers. What the code relies on is stated as named predicates
  (\<^verbatim>\<open>md5_digest\<close>, \<^verbatim>\<open>is_split\<close>, \<^verbatim>\<open>web_ok\<close>, \<^verbatim>\<open>codec\<close>, the locale \<^verbatim>\<open>priority_queue\<close>); the witnesses show
  that concrete functions satisfy them. Where the code computes with \<^verbatim>\<open>double\<close> the model is over an ordered field, so that
  rounding is left out; \<^verbatim>\<open>smart_binsearch\<close>, whose result does not depend on its estimate, takes it as an argument.

  \<^bold>\<open>Interfaces\<close> are locales: \<^verbatim>\<open>fixed_codec\<close> (files of records of fixed width; interpreted for database records and
  index entries), \<^verbatim>\<open>priority_queue\<close> and the merge built on it (\<^verbatim>\<open>merger_queue\<close>; interpreted for sorted lists), and
  \<^verbatim>\<open>hash_search\<close> (what the benchmark needs of a search; interpreted for the plain, the interpolating and the
  indexed search).

  \<^bold>\<open>What is proved.\<close>

  \<^item> Looking up: the binary search returns and decides membership, with a logarithmic number of reads; the
    interpolating search agrees; the tool and the service answer what the database says. The lemmas of
    \<^verbatim>\<open>Search\<close> follow the offsets in units of records; those of \<^verbatim>\<open>Lookup\<close> follow what a search leaves behind
    in the stream. The last point shows the limits: after one hash above the greatest entry nothing is
    found any more, and with an index some hashes make the search run forever; both are theorems.
  \<^item> The index: the table the indexer writes, with all the ways in which it ends, and that lookups with it are right where the two scans end.
  \<^item> Reading and converting: which separator and formats the reader settles on, that it goes through all
    lines, and that the converter writes the exact tally of every hash in sorted files that fit into memory.
  \<^item> Merging: the result is the sorted union of the hashes with the counts the code really adds up, for every
    queue that satisfies the laws; the tool merges any number of files in chunks, or never ends.
  \<^item> All together (\<^verbatim>\<open>Pipeline\<close>): a list of users and passwords, converted, merged and queried, is answered
    truthfully: exactly its hashes are found, with a count of at least their occurrences and at most three
    times that. The merger has to take all files at once there; with intermediate files counts can grow further.
  \<^item> The operation queue: invariants of all interleavings (permits, places, order), termination without deadlock,
    what cancelling and pausing can do, and refinement of a pool without threads.
  \<^item> The service: invariants of a worker and of a load test worker under all orders of events, the exception that
    ends the service, round trips of
    URIs and of request targets, the answers, and the load test together with the service.
  \<^item> Markov chains: trained probabilities are the relative frequencies of the corpus; files round trip, truncated files
    are rejected; any sequence of operations keeps a chain well-formed (a lemma of \<^verbatim>\<open>Markov_Invariant\<close>).
  \<^item> Tools: the test sets, a benchmark of a test set, the password extractor, the Markov generator with its
    lookup, the byte order tool, memory statistics, readable times.

  \<^bold>\<open>Not modelled.\<close> The root certificates of the load test (a generated constant and one call of OpenSSL), the web
  page and the shell scripts. Unit tests are not modelled, but most of their cases are lemmas of
  \<^verbatim>\<open>Unit_Tests\<close>. Of the modelled parts: the parsing of command lines (boost) and the printing of a usage
  text; pausing of an operation, which only delays it; priorities of threads; the branches for Windows;
  rounding of floating-point numbers and those that are no numbers; a lack of memory, except for the table of the
  indexer; handlers of one worker of the service that run at the same time in two threads. Spurious wake-ups are
  not among the steps of the operation queue; \<^verbatim>\<open>spurious_step\<close> says what they would do.
\<close>

end
